(* ===== verification/BB_Prelude.thy ===== *)
theory BB_Prelude
  imports Main "HOL-Library.Word"
begin

text \<open>
  Shared vocabulary of the development: the C integer types at their width, bytes and C
  strings, the outcome of a C function that may return an error code or abort, and the
  generic facts on lists and words that the component theories use.
\<close>

section \<open>Machine integers and strings\<close>

type_synonym u8 = "8 word"
type_synonym u16 = "16 word"
type_synonym u32 = "32 word"
type_synonym byte = u8

named_theorems net_simps \<open>evaluation of the packet and socket layer\<close>
named_theorems topic_simps \<open>evaluation of the topic functions\<close>

text \<open>
  A C string is the list of its characters before the terminating NUL.  \<open>bytes_of_string\<close>
  is the memory a string occupies without the terminator, \<open>string_of_bytes\<close> reads memory as
  a C string: everything up to the first NUL byte, which is what \<open>strlen\<close>, \<open>strcmp\<close> and
  \<open>strdup\<close> see of it.
\<close>

definition bytes_of_string :: "string \<Rightarrow> byte list" where
  "bytes_of_string s = map (\<lambda>c. of_nat (of_char c)) s"

definition string_of_bytes :: "byte list \<Rightarrow> string" where
  "string_of_bytes bs = map (\<lambda>b. char_of (unat b)) (takeWhile (\<lambda>b. b \<noteq> 0) bs)"

definition nul_free :: "string \<Rightarrow> bool" where
  "nul_free s \<longleftrightarrow> CHR 0x00 \<notin> set s"

text \<open>
  The outcome of a C function: \<open>Ok v\<close> is a normal return with result \<open>v\<close>, \<open>Err rc\<close> an
  early return with a non-zero return code, \<open>Abort\<close> a failed \<open>assert\<close> or an access outside
  an allocated buffer.
\<close>

datatype 'a cres = Ok 'a | Err int | Abort

section \<open>Bytes and strings\<close>

lemma length_bytes_of_string [simp]: "length (bytes_of_string s) = length s"
  by (simp add: bytes_of_string_def)

lemma bytes_of_string_simps [simp]:
  "bytes_of_string [] = []"
  "bytes_of_string (c # s) = of_nat (of_char c) # bytes_of_string s"
  "bytes_of_string (s @ t) = bytes_of_string s @ bytes_of_string t"
  by (simp_all add: bytes_of_string_def)

lemma of_char_less_256: "of_char c < (256 :: nat)"
  by simp

lemma unat_byte_of_char [simp]: "unat (of_nat (of_char c) :: byte) = of_char c"
  by (simp add: unat_of_nat take_bit_nat_eq_self_iff)

lemma byte_of_char_eq_0_iff: "(of_nat (of_char c) :: byte) = 0 \<longleftrightarrow> c = CHR 0x00"
proof -
  have "(of_nat (of_char c) :: byte) = 0 \<longleftrightarrow> unat (of_nat (of_char c) :: byte) = 0"
    by (simp only: unat_eq_0)
  also have "\<dots> \<longleftrightarrow> of_char c = (of_char (CHR 0x00) :: nat)"
    by simp
  also have "\<dots> \<longleftrightarrow> c = CHR 0x00"
    by (metis char_of_char)
  finally show ?thesis .
qed

lemma takeWhile_bytes_of_string:
  "nul_free s \<Longrightarrow> takeWhile (\<lambda>b. b \<noteq> 0) (bytes_of_string s) = bytes_of_string s"
  by (induction s) (auto simp: nul_free_def byte_of_char_eq_0_iff)

text \<open>Reading back the memory of a NUL-free string gives the string.\<close>

lemma string_of_bytes_of_string [simp]:
  assumes "nul_free s"
  shows "string_of_bytes (bytes_of_string s) = s"
proof -
  have "map (\<lambda>b. char_of (unat b)) (bytes_of_string s) = s"
    by (induction s) (auto)
  then show ?thesis
    using assms by (simp add: string_of_bytes_def takeWhile_bytes_of_string)
qed

lemma nul_free_simps [simp]:
  "nul_free []"
  "nul_free (c # s) \<longleftrightarrow> c \<noteq> CHR 0x00 \<and> nul_free s"
  "nul_free (s @ t) \<longleftrightarrow> nul_free s \<and> nul_free t"
  by (auto simp: nul_free_def)

lemma nul_free_string_of_bytes [simp]: "nul_free (string_of_bytes bs)"
proof -
  have "b \<noteq> 0 \<Longrightarrow> char_of (unat b) \<noteq> CHR 0x00" for b :: byte
  proof
    assume "b \<noteq> 0" and "char_of (unat b) = CHR 0x00"
    then have "of_char (char_of (unat b)) = (0 :: nat)"
      by simp
    moreover have "unat b < 256"
      using unsigned_less [of b] by simp
    ultimately have "unat b = 0"
      by simp
    with \<open>b \<noteq> 0\<close> show False
      by (simp add: unat_eq_0)
  qed
  moreover have "\<forall>b \<in> set (takeWhile (\<lambda>b. b \<noteq> 0) bs). b \<noteq> 0"
    by (auto dest: set_takeWhileD)
  ultimately show ?thesis
    by (fastforce simp: nul_free_def string_of_bytes_def)
qed

end
