(* ===== verification/Mosq_Types.thy ===== *)
theory Mosq_Types
  imports BB_Prelude
begin

text \<open>
  The enumerations, protocol constants and return codes of the MQTT broker and client
  library (\<open>broker/mosquitto/lib/mosquitto.h\<close>, \<open>mosquitto_internal.h\<close>,
  \<open>mqtt3_protocol.h\<close>).  Return codes are C integers: the code mixes the named constants
  with the literals 1 and 2, so the model keeps them as \<open>int\<close>.
\<close>

section \<open>Return codes\<close>

abbreviation MOSQ_ERR_SUCCESS :: int where "MOSQ_ERR_SUCCESS \<equiv> 0"
abbreviation MOSQ_ERR_NOMEM :: int where "MOSQ_ERR_NOMEM \<equiv> 1"
abbreviation MOSQ_ERR_PROTOCOL :: int where "MOSQ_ERR_PROTOCOL \<equiv> 2"
abbreviation MOSQ_ERR_INVAL :: int where "MOSQ_ERR_INVAL \<equiv> 3"
abbreviation MOSQ_ERR_NO_CONN :: int where "MOSQ_ERR_NO_CONN \<equiv> 4"
abbreviation MOSQ_ERR_NOT_FOUND :: int where "MOSQ_ERR_NOT_FOUND \<equiv> 6"
abbreviation MOSQ_ERR_CONN_LOST :: int where "MOSQ_ERR_CONN_LOST \<equiv> 7"
abbreviation MOSQ_ERR_PAYLOAD_SIZE :: int where "MOSQ_ERR_PAYLOAD_SIZE \<equiv> 9"
abbreviation MOSQ_ERR_AUTH :: int where "MOSQ_ERR_AUTH \<equiv> 11"
abbreviation MOSQ_ERR_ACL_DENIED :: int where "MOSQ_ERR_ACL_DENIED \<equiv> 12"
abbreviation MOSQ_ERR_ERRNO :: int where "MOSQ_ERR_ERRNO \<equiv> 14"

section \<open>Message types\<close>

abbreviation CONNECT :: u8 where "CONNECT \<equiv> 0x10"
abbreviation CONNACK :: u8 where "CONNACK \<equiv> 0x20"
abbreviation PUBLISH :: u8 where "PUBLISH \<equiv> 0x30"
abbreviation PUBACK :: u8 where "PUBACK \<equiv> 0x40"
abbreviation PUBREC :: u8 where "PUBREC \<equiv> 0x50"
abbreviation PUBREL :: u8 where "PUBREL \<equiv> 0x60"
abbreviation PUBCOMP :: u8 where "PUBCOMP \<equiv> 0x70"
abbreviation SUBSCRIBE :: u8 where "SUBSCRIBE \<equiv> 0x80"
abbreviation SUBACK :: u8 where "SUBACK \<equiv> 0x90"
abbreviation UNSUBSCRIBE :: u8 where "UNSUBSCRIBE \<equiv> 0xA0"
abbreviation UNSUBACK :: u8 where "UNSUBACK \<equiv> 0xB0"
abbreviation PINGREQ :: u8 where "PINGREQ \<equiv> 0xC0"
abbreviation PINGRESP :: u8 where "PINGRESP \<equiv> 0xD0"
abbreviation DISCONNECT :: u8 where "DISCONNECT \<equiv> 0xE0"

abbreviation MQTT_MAX_PAYLOAD :: nat where "MQTT_MAX_PAYLOAD \<equiv> 268435455"

section \<open>Enumerations\<close>

datatype mosquitto_msg_direction = mosq_md_in | mosq_md_out

datatype mosquitto_msg_state =
    mosq_ms_invalid | mosq_ms_publish_qos0 | mosq_ms_publish_qos1 | mosq_ms_wait_for_puback
  | mosq_ms_publish_qos2 | mosq_ms_wait_for_pubrec | mosq_ms_resend_pubrel
  | mosq_ms_wait_for_pubrel | mosq_ms_resend_pubcomp | mosq_ms_wait_for_pubcomp
  | mosq_ms_send_pubrec | mosq_ms_queued

datatype mosquitto_client_state =
    mosq_cs_new | mosq_cs_connected | mosq_cs_disconnecting | mosq_cs_connect_async
  | mosq_cs_connect_pending | mosq_cs_connect_srv | mosq_cs_disconnect_ws
  | mosq_cs_disconnected | mosq_cs_socks5_new | mosq_cs_socks5_start | mosq_cs_socks5_request
  | mosq_cs_socks5_reply | mosq_cs_socks5_auth_ok | mosq_cs_socks5_userpass_reply
  | mosq_cs_socks5_send_userpass | mosq_cs_expiring

datatype mosquitto_protocol = mosq_p_invalid | mosq_p_mqtt31 | mosq_p_mqtt311 | mosq_p_mqtts

end
