(* ===== verification/Mosq_Packet.thy ===== *)
theory Mosq_Packet
  imports Mosq_Types
begin

text \<open>
  Packet buffers: \<open>struct _mosquitto_packet\<close> (\<open>lib/mosquitto_internal.h\<close>), the allocation
  of an outgoing packet with its fixed header (\<open>_mosquitto_packet_alloc\<close>,
  \<open>lib/util_mosq.c\<close>), and the byte, 16-bit integer and string readers and writers
  (\<open>lib/net_mosq.c\<close>).

  The 32-bit fields are words, so every sum in a bounds check wraps as it does in C.  A
  payload is the allocated buffer, the empty list being the null pointer.  A writer returns
  \<open>None\<close> where the code's \<open>assert\<close> fails or where a byte would land outside the buffer; a
  reader returns \<open>Abort\<close> where a read would leave the buffer.  \<open>malloc n\<close> is the allocator:
  \<open>None\<close> is the null pointer, \<open>Some buf\<close> a buffer with arbitrary contents.
\<close>

unbundle bit_operations_syntax

section \<open>Definitions\<close>

record mosquitto_packet =
  pkt_payload :: "byte list"
  pkt_remaining_mult :: u32
  pkt_remaining_length :: u32
  pkt_packet_length :: u32
  pkt_to_process :: u32
  pkt_pos :: u32
  pkt_mid :: u16
  pkt_command :: u8
  pkt_remaining_count :: int

type_synonym allocator = "nat \<Rightarrow> byte list option"

text \<open>What the code relies on of \<open>malloc\<close>: a buffer it returns has the size asked for.\<close>

definition malloc_ok :: "allocator \<Rightarrow> bool" where
  "malloc_ok malloc \<longleftrightarrow> (\<forall>n buf. malloc n = Some buf \<longrightarrow> length buf = n)"

text \<open>A packet as \<open>calloc\<close> returns it.\<close>

definition packet_calloc :: mosquitto_packet where
  "packet_calloc = \<lparr>pkt_payload = [], pkt_remaining_mult = 0, pkt_remaining_length = 0,
     pkt_packet_length = 0, pkt_to_process = 0, pkt_pos = 0, pkt_mid = 0, pkt_command = 0,
     pkt_remaining_count = 0\<rparr>"

text \<open>
  The \<open>do ... while\<close> loop that splits the remaining length into 7-bit digits.  The first
  argument is the room left in \<open>remaining_bytes[5]\<close>; the loop condition
  \<open>remaining_count < 5\<close> ends it when there is none.
\<close>

fun remaining_bytes_loop :: "nat \<Rightarrow> u32 \<Rightarrow> byte list" where
  "remaining_bytes_loop 0 remaining_length = []"
| "remaining_bytes_loop (Suc room) remaining_length =
     (let b = ucast (remaining_length mod 128) :: byte;
          remaining_length' = remaining_length div 128
      in if remaining_length' > 0
         then (b OR 0x80) # remaining_bytes_loop room remaining_length'
         else [b])"

definition mosquitto_packet_alloc ::
    "allocator \<Rightarrow> mosquitto_packet \<Rightarrow> int \<times> mosquitto_packet" where
  "mosquitto_packet_alloc malloc packet =
     (let remaining_bytes = remaining_bytes_loop 5 (pkt_remaining_length packet);
          remaining_count = length remaining_bytes;
          packet = packet\<lparr>pkt_payload := [], pkt_remaining_count := int remaining_count\<rparr>
      in if remaining_count = 5 then (MOSQ_ERR_PAYLOAD_SIZE, packet)
         else let packet_length = pkt_remaining_length packet + 1 + of_nat remaining_count;
                  packet = packet\<lparr>pkt_packet_length := packet_length\<rparr>
              in case malloc (unat packet_length) of
                   None \<Rightarrow> (MOSQ_ERR_NOMEM, packet)
                 | Some buf \<Rightarrow>
                     (MOSQ_ERR_SUCCESS,
                      packet\<lparr>pkt_payload := (pkt_command packet # remaining_bytes)
                                              @ drop (1 + remaining_count) buf,
                             pkt_pos := 1 + of_nat remaining_count\<rparr>))"

definition mosquitto_packet_cleanup :: "mosquitto_packet \<Rightarrow> mosquitto_packet" where
  "mosquitto_packet_cleanup packet =
     packet\<lparr>pkt_command := 0, pkt_remaining_count := 0, pkt_remaining_mult := 1,
            pkt_remaining_length := 0, pkt_payload := [], pkt_to_process := 0, pkt_pos := 0\<rparr>"

subsection \<open>Readers\<close>

definition mosquitto_read_byte :: "mosquitto_packet \<Rightarrow> byte cres \<times> mosquitto_packet" where
  "mosquitto_read_byte packet =
     (if pkt_pos packet + 1 > pkt_remaining_length packet then (Err MOSQ_ERR_PROTOCOL, packet)
      else if unat (pkt_pos packet) < length (pkt_payload packet)
      then (Ok (pkt_payload packet ! unat (pkt_pos packet)),
            packet\<lparr>pkt_pos := pkt_pos packet + 1\<rparr>)
      else (Abort, packet))"

definition mosquitto_read_bytes ::
    "mosquitto_packet \<Rightarrow> u32 \<Rightarrow> byte list cres \<times> mosquitto_packet" where
  "mosquitto_read_bytes packet count =
     (if pkt_pos packet + count > pkt_remaining_length packet
      then (Err MOSQ_ERR_PROTOCOL, packet)
      else if unat (pkt_pos packet) + unat count \<le> length (pkt_payload packet)
      then (Ok (take (unat count) (drop (unat (pkt_pos packet)) (pkt_payload packet))),
            packet\<lparr>pkt_pos := pkt_pos packet + count\<rparr>)
      else (Abort, packet))"

definition mosquitto_read_uint16 :: "mosquitto_packet \<Rightarrow> u16 cres \<times> mosquitto_packet" where
  "mosquitto_read_uint16 packet =
     (if pkt_pos packet + 2 > pkt_remaining_length packet then (Err MOSQ_ERR_PROTOCOL, packet)
      else if unat (pkt_pos packet) + 1 < length (pkt_payload packet)
      then let msb = pkt_payload packet ! unat (pkt_pos packet);
               packet = packet\<lparr>pkt_pos := pkt_pos packet + 1\<rparr>;
               lsb = pkt_payload packet ! unat (pkt_pos packet);
               packet = packet\<lparr>pkt_pos := pkt_pos packet + 1\<rparr>
           in (Ok (push_bit 8 (ucast msb) + ucast lsb), packet)
      else (Abort, packet))"

text \<open>
  The bytes of the string are copied to a fresh buffer of \<open>len + 1\<close> bytes; the caller gets
  that buffer, which C then reads up to its first NUL.
\<close>

definition mosquitto_read_string ::
    "allocator \<Rightarrow> mosquitto_packet \<Rightarrow> byte list cres \<times> mosquitto_packet" where
  "mosquitto_read_string malloc packet =
     (case mosquitto_read_uint16 packet of
        (Err rc, packet) \<Rightarrow> (Err rc, packet)
      | (Abort, packet) \<Rightarrow> (Abort, packet)
      | (Ok len, packet) \<Rightarrow>
          (if pkt_pos packet + ucast len > pkt_remaining_length packet
           then (Err MOSQ_ERR_PROTOCOL, packet)
           else case malloc (unat len + 1) of
                  None \<Rightarrow> (Err MOSQ_ERR_NOMEM, packet)
                | Some _ \<Rightarrow>
                    (if unat (pkt_pos packet) + unat len \<le> length (pkt_payload packet)
                     then (Ok (take (unat len) (drop (unat (pkt_pos packet)) (pkt_payload packet))),
                           packet\<lparr>pkt_pos := pkt_pos packet + ucast len\<rparr>)
                     else (Abort, packet))))"

subsection \<open>Writers\<close>

definition MOSQ_MSB :: "u16 \<Rightarrow> u8" where
  "MOSQ_MSB a = ucast (drop_bit 8 (a AND 0xFF00))"

definition MOSQ_LSB :: "u16 \<Rightarrow> u8" where
  "MOSQ_LSB a = ucast (a AND 0x00FF)"

definition mosquitto_write_byte :: "mosquitto_packet \<Rightarrow> byte \<Rightarrow> mosquitto_packet option" where
  "mosquitto_write_byte packet b =
     (if pkt_pos packet + 1 \<le> pkt_packet_length packet
         \<and> unat (pkt_pos packet) < length (pkt_payload packet)
      then Some (packet\<lparr>pkt_payload := (pkt_payload packet)[unat (pkt_pos packet) := b],
                        pkt_pos := pkt_pos packet + 1\<rparr>)
      else None)"

text \<open>
  \<open>memcpy\<close> of \<open>count\<close> bytes from the memory \<open>bytes\<close>; reading beyond \<open>bytes\<close> or writing
  beyond the payload aborts.
\<close>

definition mosquitto_write_bytes ::
    "mosquitto_packet \<Rightarrow> byte list \<Rightarrow> u32 \<Rightarrow> mosquitto_packet option" where
  "mosquitto_write_bytes packet bytes count =
     (let p = unat (pkt_pos packet); n = unat count in
      if pkt_pos packet + count \<le> pkt_packet_length packet
         \<and> p + n \<le> length (pkt_payload packet) \<and> n \<le> length bytes
      then Some (packet\<lparr>pkt_payload := take p (pkt_payload packet) @ take n bytes
                                         @ drop (p + n) (pkt_payload packet),
                        pkt_pos := pkt_pos packet + count\<rparr>)
      else None)"

definition mosquitto_write_uint16 :: "mosquitto_packet \<Rightarrow> u16 \<Rightarrow> mosquitto_packet option" where
  "mosquitto_write_uint16 packet word =
     Option.bind (mosquitto_write_byte packet (MOSQ_MSB word))
       (\<lambda>packet. mosquitto_write_byte packet (MOSQ_LSB word))"

definition mosquitto_write_string ::
    "mosquitto_packet \<Rightarrow> byte list \<Rightarrow> u16 \<Rightarrow> mosquitto_packet option" where
  "mosquitto_write_string packet str len =
     Option.bind (mosquitto_write_uint16 packet len)
       (\<lambda>packet. mosquitto_write_bytes packet str (ucast len))"


section \<open>The two views of a buffer\<close>

text \<open>
  An incoming packet is seen as the bytes that are still to be read, an outgoing one as the
  bytes already written and the room that is left.
\<close>

definition pkt_rest :: "mosquitto_packet \<Rightarrow> byte list" where
  "pkt_rest p = drop (unat (pkt_pos p)) (pkt_payload p)"

definition in_wf :: "mosquitto_packet \<Rightarrow> bool" where
  "in_wf p \<longleftrightarrow> length (pkt_payload p) = unat (pkt_remaining_length p)
     \<and> unat (pkt_pos p) \<le> unat (pkt_remaining_length p)
     \<and> unat (pkt_remaining_length p) \<le> MQTT_MAX_PAYLOAD"

definition pkt_written :: "mosquitto_packet \<Rightarrow> byte list" where
  "pkt_written p = take (unat (pkt_pos p)) (pkt_payload p)"

definition pkt_room :: "mosquitto_packet \<Rightarrow> nat" where
  "pkt_room p = unat (pkt_packet_length p) - unat (pkt_pos p)"

definition out_wf :: "mosquitto_packet \<Rightarrow> bool" where
  "out_wf p \<longleftrightarrow> length (pkt_payload p) = unat (pkt_packet_length p)
     \<and> unat (pkt_pos p) \<le> unat (pkt_packet_length p)
     \<and> unat (pkt_packet_length p) \<le> MQTT_MAX_PAYLOAD + 5"

text \<open>The fields no reader or writer touches.\<close>

definition pkt_frame :: "mosquitto_packet \<Rightarrow> u32 \<times> u32 \<times> u32 \<times> u32 \<times> u16 \<times> u8 \<times> int" where
  "pkt_frame p = (pkt_remaining_mult p, pkt_remaining_length p, pkt_packet_length p,
     pkt_to_process p, pkt_mid p, pkt_command p, pkt_remaining_count p)"

section \<open>Word arithmetic\<close>

lemma unat_add_u32: "unat (a :: u32) + unat b < 4294967296 \<Longrightarrow> unat (a + b) = unat a + unat b"
  by (simp add: unat_word_ariths)

lemma u16_lt: "unat (w :: u16) < 65536"
  using unsigned_less [of w] by simp

lemma unat_ucast_u16_u32 [simp]: "unat (ucast (w :: u16) :: u32) = unat w"
  using u16_lt [of w] by (simp add: unsigned_ucast_eq take_bit_nat_eq_self_iff)

lemma u32_lt: "unat (w :: u32) < 4294967296"
  using unsigned_less [of w] by simp

lemma unat_of_nat_u32: "n < 4294967296 \<Longrightarrow> unat (of_nat n :: u32) = n"
  by (simp add: unat_of_nat take_bit_nat_eq_self_iff)

lemma unat_of_nat_u16: "n < 65536 \<Longrightarrow> unat (of_nat n :: u16) = n"
  by (simp add: unat_of_nat take_bit_nat_eq_self_iff)

lemma u16_masks: "(0xFF :: u16) = mask 8" "(0xFF00 :: u16) = push_bit 8 (mask 8)"
  by (simp_all add: mask_eq_exp_minus_1)

text \<open>The two bytes of a 16-bit value, put together again.\<close>

lemma MSB_LSB_join: "push_bit 8 (ucast (MOSQ_MSB w) :: u16) + ucast (MOSQ_LSB w) = w"
proof -
  have "push_bit 8 (ucast (MOSQ_MSB w) :: u16) + ucast (MOSQ_LSB w)
      = push_bit 8 (ucast (MOSQ_MSB w) :: u16) OR ucast (MOSQ_LSB w)"
    by (rule disjunctive_add) (auto simp: MOSQ_MSB_def MOSQ_LSB_def bit_simps)
  also have "\<dots> = w"
    by (rule bit_word_eqI)
      (auto simp: MOSQ_MSB_def MOSQ_LSB_def u16_masks bit_simps)
  finally show ?thesis .
qed

section \<open>Writing: what a sender may rely on\<close>

text \<open>
  The contract of the writers: with room left, a write succeeds, appends its bytes to what is
  written and touches nothing else of the packet.
\<close>

locale packet_sink =
  fixes good :: "'p \<Rightarrow> bool"
    and content :: "'p \<Rightarrow> byte list"
    and room :: "'p \<Rightarrow> nat"
    and frame :: "'p \<Rightarrow> 'f"
    and put :: "'p \<Rightarrow> byte \<Rightarrow> 'p option"
    and put_block :: "'p \<Rightarrow> byte list \<Rightarrow> u32 \<Rightarrow> 'p option"
  assumes put_ok: "\<lbrakk>good p; 0 < room p\<rbrakk> \<Longrightarrow>
      \<exists>p'. put p b = Some p' \<and> good p' \<and> content p' = content p @ [b]
         \<and> room p' = room p - 1 \<and> frame p' = frame p"
    and put_block_ok: "\<lbrakk>good p; unat n \<le> room p; unat n \<le> length bs\<rbrakk> \<Longrightarrow>
      \<exists>p'. put_block p bs n = Some p' \<and> good p' \<and> content p' = content p @ take (unat n) bs
         \<and> room p' = room p - unat n \<and> frame p' = frame p"
begin

definition puts :: "'p \<Rightarrow> byte list \<Rightarrow> 'p \<Rightarrow> bool" where
  "puts p bs p' \<longleftrightarrow> good p' \<and> content p' = content p @ bs \<and> room p' = room p - length bs
     \<and> frame p' = frame p"

lemma puts_trans: "\<lbrakk>puts p xs q; puts q ys r\<rbrakk> \<Longrightarrow> puts p (xs @ ys) r"
  by (simp add: puts_def)

lemma put_puts: "\<lbrakk>good p; 0 < room p\<rbrakk> \<Longrightarrow> \<exists>p'. put p b = Some p' \<and> puts p [b] p'"
  using put_ok [of p b] by (auto simp: puts_def)

lemma put_block_puts:
  "\<lbrakk>good p; unat n \<le> room p; unat n \<le> length bs\<rbrakk> \<Longrightarrow>
     \<exists>p'. put_block p bs n = Some p' \<and> puts p (take (unat n) bs) p'"
  using put_block_ok [of p n bs] by (auto simp: puts_def)

lemma put_two_puts:
  assumes "good p" and "2 \<le> room p"
  shows "\<exists>p'. Option.bind (put p a) (\<lambda>p. put p b) = Some p' \<and> puts p [a, b] p'"
proof -
  obtain q where q: "put p a = Some q" "puts p [a] q"
    using put_puts [of p a] assms by auto
  then obtain r where r: "put q b = Some r" "puts q [b] r"
    using put_puts [of q b] assms by (auto simp: puts_def)
  from puts_trans [OF q(2) r(2)] q r show ?thesis by simp
qed

lemma puts_good: "puts p bs p' \<Longrightarrow> good p' \<and> room p' = room p - length bs"
  by (simp add: puts_def)

end

lemma mosquitto_write_byte_ok:
  assumes "out_wf p" and "0 < pkt_room p"
  shows "\<exists>p'. mosquitto_write_byte p b = Some p' \<and> out_wf p' \<and> pkt_written p' = pkt_written p @ [b]
     \<and> pkt_room p' = pkt_room p - 1 \<and> pkt_frame p' = pkt_frame p"
proof -
  have le: "unat (pkt_pos p) < length (pkt_payload p)" "unat (pkt_pos p + 1) = unat (pkt_pos p) + 1"
    using assms by (auto simp: out_wf_def pkt_room_def unat_add_u32)
  have "mosquitto_write_byte p b = Some (p\<lparr>pkt_payload := (pkt_payload p)[unat (pkt_pos p) := b],
                                          pkt_pos := pkt_pos p + 1\<rparr>)"
    using assms le by (simp add: mosquitto_write_byte_def word_le_nat_alt out_wf_def pkt_room_def)
  then show ?thesis
    using assms le
    by (simp add: out_wf_def pkt_room_def pkt_written_def pkt_frame_def take_Suc_conv_app_nth)
qed

lemma mosquitto_write_bytes_ok:
  assumes "out_wf p" and "unat n \<le> pkt_room p" and "unat n \<le> length bs"
  shows "\<exists>p'. mosquitto_write_bytes p bs n = Some p' \<and> out_wf p'
     \<and> pkt_written p' = pkt_written p @ take (unat n) bs
     \<and> pkt_room p' = pkt_room p - unat n \<and> pkt_frame p' = pkt_frame p"
proof -
  have le: "unat (pkt_pos p) + unat n \<le> length (pkt_payload p)"
    "unat (pkt_pos p + n) = unat (pkt_pos p) + unat n"
    using assms by (auto simp: out_wf_def pkt_room_def unat_add_u32)
  then show ?thesis
    using assms
    by (simp add: mosquitto_write_bytes_def Let_def word_le_nat_alt out_wf_def pkt_room_def
        pkt_written_def pkt_frame_def)
qed

interpretation out_packet: packet_sink out_wf pkt_written pkt_room pkt_frame
    mosquitto_write_byte mosquitto_write_bytes
  by unfold_locales (use mosquitto_write_byte_ok mosquitto_write_bytes_ok in blast)+

lemma mosquitto_write_uint16_ok:
  "\<lbrakk>out_wf p; 2 \<le> pkt_room p\<rbrakk> \<Longrightarrow>
     \<exists>p'. mosquitto_write_uint16 p w = Some p' \<and> out_packet.puts p [MOSQ_MSB w, MOSQ_LSB w] p'"
  unfolding mosquitto_write_uint16_def by (rule out_packet.put_two_puts)

lemma mosquitto_write_string_ok:
  assumes "out_wf p" and "2 + unat n \<le> pkt_room p" and "unat n \<le> length s"
  shows "\<exists>p'. mosquitto_write_string p s n = Some p'
     \<and> out_packet.puts p (MOSQ_MSB n # MOSQ_LSB n # take (unat n) s) p'"
proof -
  obtain q where q: "mosquitto_write_uint16 p n = Some q"
      "out_packet.puts p [MOSQ_MSB n, MOSQ_LSB n] q"
    using mosquitto_write_uint16_ok [of p n] assms by auto
  have "out_wf q" and "unat (ucast n :: u32) \<le> pkt_room q"
    using out_packet.puts_good [OF q(2)] assms by simp_all
  then obtain r where r: "mosquitto_write_bytes q s (ucast n) = Some r"
      "out_packet.puts q (take (unat n) s) r"
    using out_packet.put_block_puts [of q "ucast n" s] assms by auto
  from out_packet.puts_trans [OF q(2) r(2)] q r show ?thesis
    by (simp add: mosquitto_write_string_def)
qed

section \<open>The remaining length\<close>

text \<open>The number that a sequence of 7-bit digits stands for, least significant first.\<close>

fun rl_value :: "byte list \<Rightarrow> nat" where
  "rl_value [] = 0"
| "rl_value (b # bs) = unat (b AND 127) + 128 * rl_value bs"

text \<open>
  The shape of a complete encoding: every byte but the last carries the continuation bit.
\<close>

fun rl_wf :: "byte list \<Rightarrow> bool" where
  "rl_wf [] = False"
| "rl_wf [b] = (b AND 128 = 0)"
| "rl_wf (b # bs) = (b AND 128 \<noteq> 0 \<and> rl_wf bs)"

lemma rl_wf_Cons: "bs \<noteq> [] \<Longrightarrow> rl_wf (b # bs) \<longleftrightarrow> b AND 128 \<noteq> 0 \<and> rl_wf bs"
  by (cases bs) auto

lemma bit_int_masks: "bit (127 :: int) n \<longleftrightarrow> n < 7" "bit (128 :: int) n \<longleftrightarrow> n = 7"
proof -
  have "bit (mask 7 :: int) n \<longleftrightarrow> n < 7" by (simp only: bit_mask_iff) auto
  moreover have "(mask 7 :: int) = 127" by (simp add: mask_eq_exp_minus_1)
  ultimately show "bit (127 :: int) n \<longleftrightarrow> n < 7" by (simp only:)
  have "bit (2 ^ 7 :: int) n \<longleftrightarrow> n = 7" by (simp only: bit_exp_iff) auto
  moreover have "(2 ^ 7 :: int) = 128" by simp
  ultimately show "bit (128 :: int) n \<longleftrightarrow> n = 7" by (simp only:)
qed

lemma mod_128_take_bit: "(r :: u32) mod 128 = take_bit 7 r"
  by (simp add: take_bit_eq_mod)

lemma digit_plain:
  fixes r :: u32
  defines "b \<equiv> ucast (r mod 128) :: byte"
  shows "unat (b AND 127) = unat r mod 128" and "b AND 128 = 0"
proof -
  have "b AND 127 = b"
    unfolding b_def mod_128_take_bit
    by (rule bit_word_eqI) (auto simp: bit_simps bit_int_masks)
  moreover have "unat b = unat r mod 128"
    unfolding b_def by (simp add: unsigned_ucast_eq unat_mod take_bit_nat_eq_self_iff)
  ultimately show "unat (b AND 127) = unat r mod 128" by simp
  show "b AND 128 = 0"
    unfolding b_def mod_128_take_bit
    by (rule bit_word_eqI) (auto simp: bit_simps bit_int_masks)
qed

lemma digit_more:
  fixes r :: u32
  defines "b \<equiv> (ucast (r mod 128) :: byte) OR 0x80"
  shows "unat (b AND 127) = unat r mod 128" and "b AND 128 \<noteq> 0"
proof -
  have "b AND 127 = ucast (r mod 128) AND 127"
    unfolding b_def by (rule bit_word_eqI) (auto simp: bit_simps bit_int_masks)
  then show "unat (b AND 127) = unat r mod 128" by (simp add: digit_plain)
  have "bit (b AND 128) 7"
    unfolding b_def by (simp add: bit_simps bit_int_masks)
  then show "b AND 128 \<noteq> 0" by auto
qed

lemma loop_nonempty [simp]: "remaining_bytes_loop (Suc room) r \<noteq> []"
  by (simp add: Let_def)

lemma loop_value: "unat r < 128 ^ room \<Longrightarrow> rl_value (remaining_bytes_loop room r) = unat r"
proof (induction room arbitrary: r)
  case (Suc room)
  have q: "unat (r div 128) = unat r div 128" by (simp add: unat_div)
  show ?case
  proof (cases "r div 128 > 0")
    case True
    have "unat (r div 128) < 128 ^ room"
      using Suc.prems by (simp add: q less_mult_imp_div_less mult.commute)
    with True Suc.IH show ?thesis by (simp add: Let_def digit_more q)
  next
    case False
    then have "unat r div 128 = 0" using q by (simp add: word_gt_0)
    with False show ?thesis by (simp add: Let_def digit_plain)
  qed
qed simp

lemma loop_wf: "unat r < 128 ^ room \<Longrightarrow> 0 < room \<Longrightarrow> rl_wf (remaining_bytes_loop room r)"
proof (induction room arbitrary: r)
  case (Suc room)
  have q: "unat (r div 128) = unat r div 128" by (simp add: unat_div)
  show ?case
  proof (cases "r div 128 > 0")
    case True
    have lt: "unat (r div 128) < 128 ^ room"
      using Suc.prems by (simp add: q less_mult_imp_div_less mult.commute)
    moreover from True have "0 < unat (r div 128)" by (simp add: unat_gt_0 word_gt_0)
    ultimately have "0 < room" by (cases room) auto
    with Suc.IH lt have "rl_wf (remaining_bytes_loop room (r div 128))" by simp
    with \<open>0 < room\<close> True show ?thesis
      by (cases room) (auto simp: Let_def rl_wf_Cons digit_more)
  next
    case False
    then show ?thesis by (simp add: Let_def digit_plain)
  qed
qed simp

lemma loop_length: "unat r < 128 ^ Suc k \<Longrightarrow> length (remaining_bytes_loop room r) \<le> Suc k"
proof (induction room arbitrary: r k)
  case (Suc room)
  have q: "unat (r div 128) = unat r div 128" by (simp add: unat_div)
  show ?case
  proof (cases "r div 128 > 0")
    case True
    then have "0 < unat r div 128" using q by (metis unat_gt_0 word_gt_0)
    with Suc.prems obtain k' where k: "k = Suc k'" by (cases k) auto
    have "unat (r div 128) < 128 ^ Suc k'"
      using Suc.prems unfolding q k by (simp add: less_mult_imp_div_less mult.commute)
    with True Suc.IH [of "r div 128" k'] show ?thesis by (simp add: Let_def k)
  qed (simp add: Let_def)
qed simp

lemma loop_length_ge: "128 ^ k \<le> unat r \<Longrightarrow> Suc k \<le> room \<Longrightarrow> Suc k \<le> length (remaining_bytes_loop room r)"
proof (induction room arbitrary: r k)
  case (Suc room)
  have q: "unat (r div 128) = unat r div 128" by (simp add: unat_div)
  show ?case
  proof (cases k)
    case (Suc k')
    have ge: "128 ^ k' \<le> unat (r div 128)"
      using Suc.prems unfolding q Suc by (simp add: less_eq_div_iff_mult_less_eq mult.commute)
    then have "0 < unat (r div 128)" by (meson less_le_trans zero_less_numeral zero_less_power)
    then have "0 < r div 128" by (simp add: unat_gt_0 word_gt_0)
    with ge Suc.IH [of k' "r div 128"] Suc.prems Suc show ?thesis by (simp add: Let_def)
  qed (simp add: Let_def)
qed simp

text \<open>The header has at most four length bytes exactly for lengths below \<open>2 ^ 28\<close>.\<close>

lemma loop_length_5: "length (remaining_bytes_loop 5 r) = 5 \<longleftrightarrow> MQTT_MAX_PAYLOAD < unat r"
proof -
  have "length (remaining_bytes_loop 5 r) \<le> 5"
    using loop_length [of r 4 5] u32_lt [of r] by simp
  moreover have "unat r \<le> MQTT_MAX_PAYLOAD \<Longrightarrow> length (remaining_bytes_loop 5 r) \<le> 4"
    using loop_length [of r 3 5] by simp
  moreover have "MQTT_MAX_PAYLOAD < unat r \<Longrightarrow> 5 \<le> length (remaining_bytes_loop 5 r)"
    using loop_length_ge [of 4 r 5] by simp
  ultimately show ?thesis by linarith
qed

section \<open>Allocation of an outgoing packet\<close>

definition fixed_header :: "u8 \<Rightarrow> u32 \<Rightarrow> byte list" where
  "fixed_header command remaining_length = command # remaining_bytes_loop 5 remaining_length"

lemma mosquitto_packet_alloc_ok:
  assumes ok: "malloc_ok malloc" and len: "unat (pkt_remaining_length p) \<le> MQTT_MAX_PAYLOAD"
    and alloc: "mosquitto_packet_alloc malloc p = (0, p')"
  shows "out_wf p'" and "pkt_written p' = fixed_header (pkt_command p) (pkt_remaining_length p)"
    and "pkt_room p' = unat (pkt_remaining_length p)"
    and "pkt_command p' = pkt_command p" and "pkt_mid p' = pkt_mid p"
    and "pkt_remaining_length p' = pkt_remaining_length p"
proof -
  define rb where "rb = remaining_bytes_loop 5 (pkt_remaining_length p)"
  define pl where "pl = pkt_remaining_length p + 1 + of_nat (length rb)"
  have rb5: "length rb \<le> 4"
    using loop_length_5 [of "pkt_remaining_length p"] loop_length [of "pkt_remaining_length p" 3 5] len
    unfolding rb_def by simp
  have unat_rb: "unat (1 + of_nat (length rb) :: u32) = 1 + length rb"
    using rb5 by (simp add: unat_add_u32 unat_of_nat_u32)
  have unat_pl: "unat pl = unat (pkt_remaining_length p) + (1 + length rb)"
    using rb5 len unat_rb unat_add_u32 [of "pkt_remaining_length p" "1 + of_nat (length rb)"]
    unfolding pl_def by (simp add: add.assoc)
  obtain buf where buf: "malloc (unat pl) = Some buf"
    using alloc rb5
    by (auto simp: mosquitto_packet_alloc_def rb_def pl_def Let_def split: if_splits option.splits)
  then have lbuf: "length buf = unat pl" using ok by (simp add: malloc_ok_def)
  have p': "p' = p\<lparr>pkt_payload := (pkt_command p # rb) @ drop (1 + length rb) buf,
      pkt_remaining_count := int (length rb), pkt_packet_length := pl,
      pkt_pos := 1 + of_nat (length rb)\<rparr>"
    using alloc buf rb5
    by (auto simp: mosquitto_packet_alloc_def rb_def pl_def Let_def split: if_splits option.splits)
  show "out_wf p'" using lbuf unat_pl unat_rb rb5 len
    by (simp add: out_wf_def p')
  show "pkt_written p' = fixed_header (pkt_command p) (pkt_remaining_length p)"
    using unat_rb by (simp add: pkt_written_def p' fixed_header_def flip: rb_def)
  show "pkt_room p' = unat (pkt_remaining_length p)"
    using unat_pl unat_rb by (simp add: pkt_room_def p')
qed (use alloc in \<open>auto simp: mosquitto_packet_alloc_def Let_def split: if_splits option.splits\<close>)

lemma mosquitto_packet_alloc_rc:
  "fst (mosquitto_packet_alloc malloc p) =
     (if MQTT_MAX_PAYLOAD < unat (pkt_remaining_length p) then MOSQ_ERR_PAYLOAD_SIZE
      else if malloc (unat (pkt_remaining_length p + 1
             + of_nat (length (remaining_bytes_loop 5 (pkt_remaining_length p))))) = None
      then MOSQ_ERR_NOMEM else MOSQ_ERR_SUCCESS)"
  using loop_length_5 [of "pkt_remaining_length p"]
  by (auto simp: mosquitto_packet_alloc_def Let_def split: option.split)

section \<open>Reading: what a handler may rely on\<close>

text \<open>
  The contract of the readers: a read takes its bytes from the front of what is left to read,
  or reports a protocol error when there are too few, and keeps the buffer well formed.
\<close>

lemma in_wf_rest_length:
  "in_wf p \<Longrightarrow> length (pkt_rest p) = unat (pkt_remaining_length p) - unat (pkt_pos p)"
  by (simp add: in_wf_def pkt_rest_def)

lemma in_wf_pos_add:
  "\<lbrakk>in_wf p; unat n < 65536 \<or> unat n \<le> MQTT_MAX_PAYLOAD\<rbrakk> \<Longrightarrow>
     unat (pkt_pos p + n) = unat (pkt_pos p) + unat n"
  by (rule unat_add_u32) (auto simp: in_wf_def)

lemma mosquitto_read_byte_spec:
  assumes "in_wf p"
  shows "pkt_rest p = [] \<Longrightarrow> mosquitto_read_byte p = (Err MOSQ_ERR_PROTOCOL, p)"
    and "pkt_rest p = b # r \<Longrightarrow> \<exists>p'. mosquitto_read_byte p = (Ok b, p') \<and> in_wf p'
           \<and> pkt_rest p' = r \<and> pkt_frame p' = pkt_frame p"
proof -
  note pos = in_wf_pos_add [OF assms, of 1]
  show "mosquitto_read_byte p = (Err MOSQ_ERR_PROTOCOL, p)" if "pkt_rest p = []"
    using that assms pos
    by (simp add: mosquitto_read_byte_def in_wf_def pkt_rest_def word_less_nat_alt)
  show "\<exists>p'. mosquitto_read_byte p = (Ok b, p') \<and> in_wf p' \<and> pkt_rest p' = r
      \<and> pkt_frame p' = pkt_frame p" if "pkt_rest p = b # r"
  proof -
    have lt: "unat (pkt_pos p) < length (pkt_payload p)"
      using that by (metis drop_all leI list.distinct(1) pkt_rest_def)
    have "pkt_payload p ! unat (pkt_pos p) = b" "drop (Suc (unat (pkt_pos p))) (pkt_payload p) = r"
      using that lt by (simp_all add: pkt_rest_def flip: Cons_nth_drop_Suc)
    then show ?thesis using lt assms pos
      by (simp add: mosquitto_read_byte_def in_wf_def pkt_rest_def word_less_nat_alt pkt_frame_def)
  qed
qed

lemma mosquitto_read_uint16_spec:
  assumes "in_wf p"
  shows "length (pkt_rest p) < 2 \<Longrightarrow> mosquitto_read_uint16 p = (Err MOSQ_ERR_PROTOCOL, p)"
    and "pkt_rest p = a # b # r \<Longrightarrow>
      \<exists>p'. mosquitto_read_uint16 p = (Ok (push_bit 8 (ucast a) + ucast b), p') \<and> in_wf p'
           \<and> pkt_rest p' = r \<and> pkt_frame p' = pkt_frame p"
proof -
  note pos = in_wf_pos_add [OF assms, of 2] in_wf_pos_add [OF assms, of 1]
  show "mosquitto_read_uint16 p = (Err MOSQ_ERR_PROTOCOL, p)" if "length (pkt_rest p) < 2"
    using that assms pos
    by (auto simp add: mosquitto_read_uint16_def in_wf_def pkt_rest_def word_less_nat_alt)
  show "\<exists>p'. mosquitto_read_uint16 p = (Ok (push_bit 8 (ucast a) + ucast b), p') \<and> in_wf p'
      \<and> pkt_rest p' = r \<and> pkt_frame p' = pkt_frame p" if rest: "pkt_rest p = a # b # r"
  proof -
    have lt: "Suc (unat (pkt_pos p)) < length (pkt_payload p)"
      using arg_cong [OF rest, of length] by (simp add: pkt_rest_def)
    then have "drop (unat (pkt_pos p)) (pkt_payload p) = pkt_payload p ! unat (pkt_pos p)
        # pkt_payload p ! Suc (unat (pkt_pos p)) # drop (Suc (Suc (unat (pkt_pos p)))) (pkt_payload p)"
      by (simp add: Cons_nth_drop_Suc)
    then have "pkt_payload p ! unat (pkt_pos p) = a" "pkt_payload p ! Suc (unat (pkt_pos p)) = b"
        "drop (Suc (Suc (unat (pkt_pos p)))) (pkt_payload p) = r"
      using rest by (simp_all add: pkt_rest_def)
    moreover note pos pos [unfolded add.commute [of "pkt_pos p"]]
    ultimately show ?thesis using lt assms
      by (simp add: mosquitto_read_uint16_def in_wf_def pkt_rest_def word_less_nat_alt
          pkt_frame_def Let_def)
  qed
qed

lemma mosquitto_read_bytes_spec:
  assumes "in_wf p" and "unat n \<le> MQTT_MAX_PAYLOAD"
  shows "length (pkt_rest p) < unat n \<Longrightarrow> mosquitto_read_bytes p n = (Err MOSQ_ERR_PROTOCOL, p)"
    and "\<lbrakk>pkt_rest p = bs @ r; length bs = unat n\<rbrakk> \<Longrightarrow>
      \<exists>p'. mosquitto_read_bytes p n = (Ok bs, p') \<and> in_wf p' \<and> pkt_rest p' = r
         \<and> pkt_frame p' = pkt_frame p"
proof -
  have pos: "unat (pkt_pos p + n) = unat (pkt_pos p) + unat n"
    using in_wf_pos_add assms by blast
  show "mosquitto_read_bytes p n = (Err MOSQ_ERR_PROTOCOL, p)" if "length (pkt_rest p) < unat n"
    using that assms pos
    by (simp add: mosquitto_read_bytes_def in_wf_def pkt_rest_def word_less_nat_alt)
  show "\<exists>p'. mosquitto_read_bytes p n = (Ok bs, p') \<and> in_wf p' \<and> pkt_rest p' = r
      \<and> pkt_frame p' = pkt_frame p" if rest: "pkt_rest p = bs @ r" and len: "length bs = unat n"
  proof -
    have le: "unat (pkt_pos p) + unat n \<le> length (pkt_payload p)"
    proof (cases "unat (pkt_pos p) \<le> length (pkt_payload p)")
      case True
      then show ?thesis using arg_cong [OF rest, of length] len by (simp add: pkt_rest_def)
    qed (use assms in \<open>simp add: in_wf_def\<close>)
    have "drop (unat (pkt_pos p) + unat n) (pkt_payload p) = r"
      using rest len by (metis add.commute append_eq_conv_conj drop_drop pkt_rest_def)
    moreover have "take (unat n) (drop (unat (pkt_pos p)) (pkt_payload p)) = bs"
      using rest len by (simp add: pkt_rest_def)
    ultimately show ?thesis using le assms pos
      by (simp add: mosquitto_read_bytes_def in_wf_def pkt_rest_def word_less_nat_alt pkt_frame_def)
  qed
qed

text \<open>The bytes of a length-prefixed string, and of a 16-bit number.\<close>

definition enc_uint16 :: "u16 \<Rightarrow> byte list" where
  "enc_uint16 w = [MOSQ_MSB w, MOSQ_LSB w]"

definition enc_string :: "byte list \<Rightarrow> byte list" where
  "enc_string s = enc_uint16 (of_nat (length s)) @ s"

lemma length_enc [simp]: "length (enc_uint16 w) = 2" "length (enc_string s) = 2 + length s"
  by (simp_all add: enc_uint16_def enc_string_def)

lemma mosquitto_read_uint16_enc:
  assumes "in_wf p" and "pkt_rest p = enc_uint16 w @ r"
  shows "\<exists>p'. mosquitto_read_uint16 p = (Ok w, p') \<and> in_wf p' \<and> pkt_rest p' = r
     \<and> pkt_frame p' = pkt_frame p"
  using mosquitto_read_uint16_spec(2) [OF assms(1), of "MOSQ_MSB w" "MOSQ_LSB w" r] assms(2)
  by (simp add: enc_uint16_def MSB_LSB_join)

text \<open>
  The outcome of reading a string, for every content of the packet: the length prefix is
  missing, the announced bytes are not all there, the allocation fails, or the bytes are
  delivered.
\<close>

lemma mosquitto_read_string_spec:
  assumes wf: "in_wf p"
  shows "length (pkt_rest p) < 2 \<Longrightarrow> mosquitto_read_string malloc p = (Err MOSQ_ERR_PROTOCOL, p)"
    and "\<lbrakk>pkt_rest p = enc_uint16 n @ r; length r < unat n\<rbrakk> \<Longrightarrow>
           fst (mosquitto_read_string malloc p) = Err MOSQ_ERR_PROTOCOL"
    and "\<lbrakk>pkt_rest p = enc_uint16 n @ r; unat n \<le> length r; malloc (unat n + 1) = None\<rbrakk> \<Longrightarrow>
           fst (mosquitto_read_string malloc p) = Err MOSQ_ERR_NOMEM"
    and "\<lbrakk>pkt_rest p = enc_uint16 n @ s @ r; unat n = length s; malloc (unat n + 1) = Some buf\<rbrakk> \<Longrightarrow>
           \<exists>p'. mosquitto_read_string malloc p = (Ok s, p') \<and> in_wf p' \<and> pkt_rest p' = r
             \<and> pkt_frame p' = pkt_frame p"
proof -
  show "mosquitto_read_string malloc p = (Err MOSQ_ERR_PROTOCOL, p)" if "length (pkt_rest p) < 2"
    using mosquitto_read_uint16_spec(1) [OF wf that] by (simp add: mosquitto_read_string_def)
  have step: "\<exists>q. mosquitto_read_uint16 p = (Ok n, q) \<and> in_wf q \<and> pkt_rest q = t
      \<and> pkt_frame q = pkt_frame p \<and> unat (pkt_pos q + ucast n) = unat (pkt_pos q) + unat n
      \<and> length (pkt_payload q) = unat (pkt_remaining_length q)
      \<and> length t = unat (pkt_remaining_length q) - unat (pkt_pos q)
      \<and> unat (pkt_pos q) \<le> unat (pkt_remaining_length q)"
    if t: "pkt_rest p = enc_uint16 n @ t" for t
  proof -
    obtain q where q: "mosquitto_read_uint16 p = (Ok n, q)" "in_wf q" "pkt_rest q = t"
        "pkt_frame q = pkt_frame p"
      using mosquitto_read_uint16_enc [OF wf t] by blast
    moreover have "unat (pkt_pos q + ucast n) = unat (pkt_pos q) + unat (ucast n :: u32)"
      by (rule in_wf_pos_add) (use q u16_lt in auto)
    ultimately show ?thesis
      using in_wf_rest_length [of q] by (auto simp: in_wf_def)
  qed
  show "fst (mosquitto_read_string malloc p) = Err MOSQ_ERR_PROTOCOL"
    if "pkt_rest p = enc_uint16 n @ r" "length r < unat n"
    using step [OF that(1)] that(2) by (auto simp: mosquitto_read_string_def word_less_nat_alt)
  show "fst (mosquitto_read_string malloc p) = Err MOSQ_ERR_NOMEM"
    if "pkt_rest p = enc_uint16 n @ r" "unat n \<le> length r" "malloc (unat n + 1) = None"
    using step [OF that(1)] that(2,3) by (auto simp: mosquitto_read_string_def word_less_nat_alt)
  show "\<exists>p'. mosquitto_read_string malloc p = (Ok s, p') \<and> in_wf p' \<and> pkt_rest p' = r
      \<and> pkt_frame p' = pkt_frame p"
    if p: "pkt_rest p = enc_uint16 n @ s @ r" "unat n = length s" "malloc (unat n + 1) = Some buf"
  proof -
    obtain q where q: "mosquitto_read_uint16 p = (Ok n, q)" "in_wf q" "pkt_rest q = s @ r"
        "pkt_frame q = pkt_frame p" "unat (pkt_pos q + ucast n) = unat (pkt_pos q) + unat n"
        "length (s @ r) = unat (pkt_remaining_length q) - unat (pkt_pos q)"
      using step [OF p(1)] by blast
    moreover have "take (unat n) (drop (unat (pkt_pos q)) (pkt_payload q)) = s"
        "drop (unat (pkt_pos q) + unat n) (pkt_payload q) = r"
      using q(3) p(2) unfolding pkt_rest_def add.commute [of "unat (pkt_pos q)"]
      by (simp_all flip: drop_drop)
    ultimately show ?thesis using p(2,3)
      by (auto simp: mosquitto_read_string_def word_less_nat_alt in_wf_def pkt_rest_def pkt_frame_def)
  qed
qed
end
