(* ===== verification/Mosq_Topic.thy ===== *)
theory Mosq_Topic
  imports Mosq_Types
begin

text \<open>
  Topic names and topic filters (\<open>lib/util_mosq.c\<close>): the validity checks
  \<open>mosquitto_pub_topic_check\<close> and \<open>mosquitto_sub_topic_check\<close>, and the character-level
  matcher \<open>mosquitto_topic_matches_sub\<close>.  Strings are non-null C strings.  The matcher keeps
  the two positions of the code; its result pointer is an option that is \<open>None\<close> as long as
  the code has not stored to it.

  The level view of a topic (\<open>levels\<close>, the parts between the slashes) and the matching rule of
  the protocol on levels (\<open>levels_match\<close>) are the specification that the matcher and, later,
  the subscription tree are compared with.
\<close>

section \<open>Definitions\<close>

text \<open>The character at a position, the terminating NUL at the end.\<close>

definition char_at :: "string \<Rightarrow> nat \<Rightarrow> char" where
  "char_at s i = (if i < length s then s ! i else CHR 0x00)"

fun pub_topic_check_loop :: "string \<Rightarrow> nat \<Rightarrow> int" where
  "pub_topic_check_loop [] len = (if len > 65535 then MOSQ_ERR_INVAL else MOSQ_ERR_SUCCESS)"
| "pub_topic_check_loop (c # str) len =
     (if c = CHR ''+'' \<or> c = CHR ''#'' then MOSQ_ERR_INVAL
      else pub_topic_check_loop str (len + 1))"

definition mosquitto_pub_topic_check :: "string \<Rightarrow> int" where
  "mosquitto_pub_topic_check str = pub_topic_check_loop str 0"

fun sub_topic_check_loop :: "char \<Rightarrow> string \<Rightarrow> nat \<Rightarrow> int" where
  "sub_topic_check_loop c [] len = (if len > 65535 then MOSQ_ERR_INVAL else MOSQ_ERR_SUCCESS)"
| "sub_topic_check_loop c (d # str) len =
     (if d = CHR ''+'' \<and> ((c \<noteq> CHR 0x00 \<and> c \<noteq> CHR ''/'')
           \<or> (char_at str 0 \<noteq> CHR 0x00 \<and> char_at str 0 \<noteq> CHR ''/''))
      then MOSQ_ERR_INVAL
      else if d = CHR ''#'' \<and> ((c \<noteq> CHR 0x00 \<and> c \<noteq> CHR ''/'') \<or> char_at str 0 \<noteq> CHR 0x00)
      then MOSQ_ERR_INVAL
      else sub_topic_check_loop d str (len + 1))"

definition mosquitto_sub_topic_check :: "string \<Rightarrow> int" where
  "mosquitto_sub_topic_check str = sub_topic_check_loop (CHR 0x00) str 0"

text \<open>The inner loop of the matcher: the next slash, or the end of the topic.\<close>

function skip_level :: "string \<Rightarrow> nat \<Rightarrow> nat" where
  "skip_level topic tpos =
     (if tpos < length topic \<and> char_at topic tpos \<noteq> CHR ''/''
      then skip_level topic (tpos + 1) else tpos)"
  by pat_completeness auto
termination
  by (relation "measure (\<lambda>(topic, tpos). length topic - tpos)") auto

declare skip_level.simps [simp del]

text \<open>
  The main loop.  The flag \<open>multilevel_wildcard\<close> of the code is set only on paths that return
  at once, so at the end of the loop it is false.
\<close>

function matches_loop :: "string \<Rightarrow> string \<Rightarrow> nat \<Rightarrow> nat \<Rightarrow> int \<times> bool option" where
  "matches_loop sub topic spos tpos =
     (let slen = length sub; tlen = length topic in
      if spos < slen \<and> tpos \<le> tlen then
        if char_at sub spos = char_at topic tpos then
          if tpos + 1 = tlen \<and> spos + 3 = slen
             \<and> char_at sub (spos + 1) = CHR ''/'' \<and> char_at sub (spos + 2) = CHR ''#''
          then (MOSQ_ERR_SUCCESS, Some True)
          else if spos + 1 = slen \<and> tpos + 1 = tlen then (MOSQ_ERR_SUCCESS, Some True)
          else if tpos + 1 = tlen \<and> spos + 1 = slen - 1 \<and> char_at sub (spos + 1) = CHR ''+'' then
            (if char_at sub spos \<noteq> CHR ''/'' then (MOSQ_ERR_INVAL, Some False)
             else (MOSQ_ERR_SUCCESS, Some True))
          else matches_loop sub topic (spos + 1) (tpos + 1)
        else if char_at sub spos = CHR ''+'' then
          if spos > 0 \<and> char_at sub (spos - 1) \<noteq> CHR ''/'' then (MOSQ_ERR_INVAL, Some False)
          else if spos < slen - 1 \<and> char_at sub (spos + 1) \<noteq> CHR ''/''
          then (MOSQ_ERR_INVAL, Some False)
          else let tpos' = skip_level topic tpos in
               if tpos' = tlen \<and> spos + 1 = slen then (MOSQ_ERR_SUCCESS, Some True)
               else matches_loop sub topic (spos + 1) tpos'
        else if char_at sub spos = CHR ''#'' then
          if spos > 0 \<and> char_at sub (spos - 1) \<noteq> CHR ''/'' then (MOSQ_ERR_INVAL, Some False)
          else if spos + 1 \<noteq> slen then (MOSQ_ERR_INVAL, Some False)
          else (MOSQ_ERR_SUCCESS, Some True)
        else (MOSQ_ERR_SUCCESS, Some False)
      else (MOSQ_ERR_SUCCESS, if tpos < tlen \<or> spos < slen then Some False else None))"
  by pat_completeness auto
termination
  by (relation "measure (\<lambda>(sub, topic, spos, tpos). length sub - spos)") auto

declare matches_loop.simps [simp del]

definition mosquitto_topic_matches_sub :: "string \<Rightarrow> string \<Rightarrow> int \<times> bool option" where
  "mosquitto_topic_matches_sub sub topic =
     (if sub = [] \<or> topic = [] then (MOSQ_ERR_INVAL, Some False)
      else if (char_at sub 0 = CHR ''$'' \<and> char_at topic 0 \<noteq> CHR ''$'')
           \<or> (char_at topic 0 = CHR ''$'' \<and> char_at sub 0 \<noteq> CHR ''$'')
      then (MOSQ_ERR_SUCCESS, Some False)
      else matches_loop sub topic 0 0)"

section \<open>The level view\<close>

fun levels :: "string \<Rightarrow> string list" where
  "levels [] = [[]]"
| "levels (c # s) =
     (if c = CHR ''/'' then [] # levels s else (c # hd (levels s)) # tl (levels s))"

definition plain_level :: "string \<Rightarrow> bool" where
  "plain_level l \<longleftrightarrow> CHR ''+'' \<notin> set l \<and> CHR ''#'' \<notin> set l"

text \<open>A filter is valid when wildcards fill whole levels and \<open>#\<close> occurs last only.\<close>

fun valid_filter :: "string list \<Rightarrow> bool" where
  "valid_filter [] = True"
| "valid_filter (f # fs) =
     ((plain_level f \<or> f = ''+'' \<or> (f = ''#'' \<and> fs = [])) \<and> valid_filter fs)"

text \<open>
  Matching of filter levels against topic levels as the protocol defines it: \<open>+\<close> stands for
  one level, a final \<open>#\<close> for any number of further levels, none included.
\<close>

fun levels_match :: "string list \<Rightarrow> string list \<Rightarrow> bool" where
  "levels_match [] ts = (ts = [])"
| "levels_match (f # fs) ts =
     (if f = ''#'' \<and> fs = [] then True
      else case ts of [] \<Rightarrow> False
           | t # ts' \<Rightarrow> (f = ''+'' \<or> f = t) \<and> levels_match fs ts')"

definition same_dollar :: "string \<Rightarrow> string \<Rightarrow> bool" where
  "same_dollar sub topic \<longleftrightarrow> (char_at sub 0 = CHR ''$'' \<longleftrightarrow> char_at topic 0 = CHR ''$'')"


section \<open>Positions and suffixes\<close>

lemma char_at_drop: "char_at s i = (case drop i s of [] \<Rightarrow> CHR 0x00 | c # _ \<Rightarrow> c)"
proof (cases "i < length s")
  case True
  then show ?thesis by (simp add: char_at_def flip: Cons_nth_drop_Suc)
qed (simp add: char_at_def)

lemma char_at_0 [simp]: "char_at [] 0 = CHR 0x00" "char_at (c # s) 0 = c"
  by (simp_all add: char_at_def)

lemma char_at_eq_nul: "nul_free s \<Longrightarrow> char_at s i = CHR 0x00 \<longleftrightarrow> length s \<le> i"
  by (auto simp: char_at_def nul_free_def in_set_conv_nth)

lemma skip_level_drop:
  "drop (skip_level topic tpos) topic = dropWhile (\<lambda>c. c \<noteq> CHR ''/'') (drop tpos topic)"
  "tpos \<le> length topic \<Longrightarrow> skip_level topic tpos \<le> length topic"
proof (induction topic tpos rule: skip_level.induct)
  case (1 topic tpos)
  {
    case 1
    show ?case
    proof (cases "tpos < length topic")
      case True
      then have "drop tpos topic = topic ! tpos # drop (Suc tpos) topic"
        by (simp add: Cons_nth_drop_Suc)
      with True "1.IH"(1) show ?thesis
        by (subst skip_level.simps) (auto simp: char_at_def)
    next
      case False
      then show ?thesis by (subst skip_level.simps) simp
    qed
  next
    case 2
    with "1.IH"(2) show ?case by (subst skip_level.simps) auto
  }
qed

text \<open>The validity check on a suffix of a filter, the previous character given.\<close>

fun sub_ok :: "char \<Rightarrow> string \<Rightarrow> bool" where
  "sub_ok c [] = True"
| "sub_ok c (d # s) =
     ((d = CHR ''+'' \<longrightarrow> (c = CHR 0x00 \<or> c = CHR ''/'') \<and> (s = [] \<or> hd s = CHR ''/''))
      \<and> (d = CHR ''#'' \<longrightarrow> (c = CHR 0x00 \<or> c = CHR ''/'') \<and> s = [])
      \<and> sub_ok d s)"

lemma sub_topic_check_loop_eq:
  "nul_free s \<Longrightarrow> sub_topic_check_loop c s len =
     (if sub_ok c s \<and> len + length s \<le> 65535 then MOSQ_ERR_SUCCESS else MOSQ_ERR_INVAL)"
proof (induction s arbitrary: c len)
  case (Cons d s)
  have "char_at s 0 = (if s = [] then CHR 0x00 else hd s)" by (cases s) auto
  moreover have "s \<noteq> [] \<Longrightarrow> hd s \<noteq> CHR 0x00" using Cons.prems by (cases s) auto
  ultimately show ?case using Cons by simp blast
qed simp

lemma pub_topic_check_loop_eq:
  "pub_topic_check_loop s len =
     (if plain_level s \<and> len + length s \<le> 65535 then MOSQ_ERR_SUCCESS else MOSQ_ERR_INVAL)"
  by (induction s arbitrary: len) (auto simp: plain_level_def)

text \<open>The matcher on suffixes, for a valid filter.\<close>

fun suffix_match :: "string \<Rightarrow> string \<Rightarrow> bool" where
  "suffix_match [] ts = False"
| "suffix_match (s # ss) ts =
     (if ts \<noteq> [] \<and> s = hd ts
      then (tl ts = [] \<and> ss \<in> {[], ''+'', ''/#''}) \<or> suffix_match ss (tl ts)
      else if s = CHR ''+''
      then (let ts' = dropWhile (\<lambda>c. c \<noteq> CHR ''/'') ts
            in (ts' = [] \<and> ss = []) \<or> suffix_match ss ts')
      else s = CHR ''#'')"

lemma drop_one_iff: "spos + 1 = length sub - 1 \<and> char_at sub (spos + 1) = a \<longleftrightarrow>
    drop (Suc spos) sub = [a] \<and> Suc spos < length sub" if "spos < length sub"
proof (cases "Suc spos < length sub")
  case True
  then have "drop (Suc spos) sub = sub ! Suc spos # drop (Suc (Suc spos)) sub"
    by (simp add: Cons_nth_drop_Suc)
  with True show ?thesis by (auto simp: char_at_def)
qed auto

lemma drop_two_iff: "spos + 3 = length sub \<and> char_at sub (spos + 1) = a \<and> char_at sub (spos + 2) = b
    \<longleftrightarrow> drop (Suc spos) sub = [a, b]" if "spos < length sub"
proof (cases "spos + 3 \<le> length sub")
  case True
  then have "drop (Suc spos) sub = sub ! Suc spos # sub ! Suc (Suc spos) # drop (spos + 3) sub"
    by (simp add: Cons_nth_drop_Suc eval_nat_numeral)
  with True show ?thesis by (auto simp: char_at_def)
next
  case False
  then have "length (drop (Suc spos) sub) \<noteq> length [a, b]" by auto
  then have "drop (Suc spos) sub \<noteq> [a, b]" by metis
  with False show ?thesis by auto
qed

text \<open>One turn of the main loop, in terms of the suffixes at the two positions.\<close>

lemma drop_ConsD: "drop n xs = y # ys \<Longrightarrow> n < length xs \<and> xs ! n = y \<and> drop (Suc n) xs = ys"
  by (metis Cons_nth_drop_Suc drop_all leI list.distinct(1) list.inject)

lemma drop_Cons_char_at: "drop n s = c # r \<Longrightarrow> char_at s n = c \<and> n < length s \<and> drop (n + 1) s = r
    \<and> (r = [] \<longleftrightarrow> n + 1 = length s)"
  using drop_ConsD [of n s c r] by (auto simp: char_at_def)

lemma matches_loop_equal:
  assumes "drop spos sub = s # ss" and "drop tpos topic = s # ts"
  shows "matches_loop sub topic spos tpos =
    (if ts = [] \<and> ss = ''/#'' then (MOSQ_ERR_SUCCESS, Some True)
     else if ss = [] \<and> ts = [] then (MOSQ_ERR_SUCCESS, Some True)
     else if ts = [] \<and> ss = ''+'' then
       (if s \<noteq> CHR ''/'' then (MOSQ_ERR_INVAL, Some False) else (MOSQ_ERR_SUCCESS, Some True))
     else matches_loop sub topic (spos + 1) (tpos + 1))"
proof -
  note S = drop_Cons_char_at [OF assms(1)] and T = drop_Cons_char_at [OF assms(2)]
  then have in_sub: "spos < length sub" by simp
  show ?thesis
    unfolding matches_loop.simps [of sub topic spos tpos] Let_def drop_two_iff [OF in_sub]
      drop_one_iff [OF in_sub]
    using S T by auto
qed

lemma matches_loop_plus:
  assumes "drop spos sub = CHR ''+'' # ss" and "char_at topic tpos \<noteq> CHR ''+''"
    and "tpos \<le> length topic" and "spos > 0 \<Longrightarrow> sub ! (spos - 1) = CHR ''/''"
    and "ss = [] \<or> hd ss = CHR ''/''"
  shows "matches_loop sub topic spos tpos =
    (if skip_level topic tpos = length topic \<and> ss = [] then (MOSQ_ERR_SUCCESS, Some True)
     else matches_loop sub topic (spos + 1) (skip_level topic tpos))"
proof -
  note S = drop_Cons_char_at [OF assms(1)]
  have "spos > 0 \<Longrightarrow> char_at sub (spos - 1) = CHR ''/''"
    using assms(4) S by (auto simp: char_at_def)
  moreover have "spos < length sub - 1 \<Longrightarrow> char_at sub (spos + 1) = CHR ''/''"
    using assms(5) S by (cases ss) (auto simp: char_at_drop)
  ultimately show ?thesis
    unfolding matches_loop.simps [of sub topic spos tpos] Let_def
    using S assms(2,3) by auto
qed

lemma matches_loop_other:
  assumes "drop spos sub = s # ss" and "char_at topic tpos \<noteq> s" and "s \<noteq> CHR ''+''"
    and "tpos \<le> length topic"
    and "s = CHR ''#'' \<Longrightarrow> (spos > 0 \<longrightarrow> sub ! (spos - 1) = CHR ''/'') \<and> ss = []"
  shows "matches_loop sub topic spos tpos = (MOSQ_ERR_SUCCESS, Some (s = CHR ''#''))"
proof -
  note S = drop_Cons_char_at [OF assms(1)]
  have "s = CHR ''#'' \<Longrightarrow> spos > 0 \<Longrightarrow> char_at sub (spos - 1) = CHR ''/''"
    using assms(5) S by (auto simp: char_at_def)
  then show ?thesis
    unfolding matches_loop.simps [of sub topic spos tpos] Let_def
    using S assms(2-5) by auto
qed

lemma matches_loop_suffix:
  assumes "nul_free sub" and "spos \<le> length sub" and "tpos \<le> length topic"
    and "sub_ok (if spos = 0 then CHR 0x00 else sub ! (spos - 1)) (drop spos sub)"
    and "spos < length sub \<or> tpos < length topic"
  shows "matches_loop sub topic spos tpos =
     (MOSQ_ERR_SUCCESS, Some (suffix_match (drop spos sub) (drop tpos topic)))"
  using assms
proof (induction "length sub - spos" arbitrary: spos tpos rule: less_induct)
  case less
  note prems = less.prems
  show ?case
  proof (cases "drop spos sub")
    case Nil
    with prems show ?thesis by (subst matches_loop.simps) (simp add: Let_def)
  next
    case (Cons s ss)
    note S = drop_ConsD [OF Cons] and ok = prems(4) [unfolded Cons sub_ok.simps]
    have s_nul: "s \<noteq> CHR 0x00" and prev: "spos > 0 \<Longrightarrow> sub ! (spos - 1) \<noteq> CHR 0x00"
      using prems(1) S unfolding nul_free_def by (metis less_imp_diff_less nth_mem)+
    have IH: "matches_loop sub topic (spos + 1) tpos'
        = (MOSQ_ERR_SUCCESS, Some (suffix_match ss (drop tpos' topic)))"
      if "tpos' \<le> length topic" "ss \<noteq> [] \<or> tpos' < length topic" for tpos'
      using less.hyps [of "spos + 1" tpos'] that S ok prems(1) by fastforce
    consider (equal) ts where "drop tpos topic = s # ts" | (differ) "char_at topic tpos \<noteq> s"
      using s_nul by (cases "drop tpos topic") (auto simp: char_at_drop)
    then show ?thesis
    proof cases
      case equal
      note T = drop_Cons_char_at [OF equal]
      have "ss = ''+'' \<Longrightarrow> s = CHR ''/''" using ok s_nul by auto
      with matches_loop_equal [OF Cons equal] IH [of "tpos + 1"] T show ?thesis
        unfolding Cons equal by auto
    next
      case differ
      then have "\<not> (drop tpos topic \<noteq> [] \<and> s = hd (drop tpos topic))"
        by (auto simp: char_at_drop split: list.splits)
      note step = this skip_level_drop [where topic = topic and tpos = tpos] prems(3)
      show ?thesis
      proof (cases "s = CHR ''+''")
        case True
        have "matches_loop sub topic spos tpos =
            (if skip_level topic tpos = length topic \<and> ss = [] then (MOSQ_ERR_SUCCESS, Some True)
             else matches_loop sub topic (spos + 1) (skip_level topic tpos))"
          by (rule matches_loop_plus) (use Cons differ True ok prev prems(3) in auto)
        moreover have "skip_level topic tpos = length topic \<longleftrightarrow>
            dropWhile (\<lambda>c. c \<noteq> CHR ''/'') (drop tpos topic) = []"
          using step by (metis drop_eq_Nil le_antisym order_refl)
        ultimately show ?thesis using True step IH [of "skip_level topic tpos"]
          unfolding Cons by (auto simp: Let_def simp del: dropWhile_eq_Nil_conv)
      next
        case False
        have "matches_loop sub topic spos tpos = (MOSQ_ERR_SUCCESS, Some (s = CHR ''#''))"
          by (rule matches_loop_other [OF Cons]) (use differ False ok prev prems(3) in auto)
        with False step show ?thesis unfolding Cons by auto
      qed
    qed
  qed
qed

section \<open>The matcher on levels\<close>

lemma levels_nonempty [simp]: "levels s \<noteq> []"
  by (cases s) auto

lemma levels_takeWhile:
  "levels s = takeWhile (\<lambda>c. c \<noteq> CHR ''/'') s
     # (case dropWhile (\<lambda>c. c \<noteq> CHR ''/'') s of [] \<Rightarrow> [] | _ # r \<Rightarrow> levels r)"
  by (induction s) auto

text \<open>
  What the matcher computes on levels: as \<open>levels_match\<close>, except that a \<open>#\<close> after the last
  topic level is honoured only when the level before it was matched literally.
\<close>

fun code_match :: "string list \<Rightarrow> string list \<Rightarrow> bool" where
  "code_match [] ts = False"
| "code_match (f # fs) [] = False"
| "code_match (f # fs) (t # ts) =
     (if f = ''#'' \<and> fs = [] then True
      else if f = ''+'' then (if fs = [] \<or> ts = [] then fs = [] \<and> ts = [] else code_match fs ts)
      else f = t \<and> (if ts = [] then fs = [] \<or> fs = [''#''] else code_match fs ts))"

lemma levels_eq_Nil_Cons: "levels s = [[]] \<longleftrightarrow> s = []" "levels s = [''#''] \<longleftrightarrow> s = ''#''"
proof -
  show "levels s = [[]] \<longleftrightarrow> s = []" by (cases s) auto
  show "levels s = [''#''] \<longleftrightarrow> s = ''#''"
    by (cases s; cases "tl s") (auto split: if_splits)
qed

lemma hd_levels_wild:
  assumes "sub_ok c s" and "c \<noteq> CHR ''/''" and "c \<noteq> CHR 0x00"
  shows "hd (levels s) \<noteq> ''+''" and "hd (levels s) \<noteq> ''#''"
  using assms by (cases s; auto)+

lemma code_match_Cons_same:
  assumes "s \<noteq> CHR ''+''" "s \<noteq> CHR ''#''" "hd fs \<noteq> ''+''" "hd fs \<noteq> ''#''" "fs \<noteq> []" "ts \<noteq> []"
  shows "code_match ((s # hd fs) # tl fs) ((s # hd ts) # tl ts) = code_match fs ts"
  using assms by (cases fs; cases ts) auto

lemma code_match_Nil_same:
  "fs \<noteq> [] \<Longrightarrow> ts \<noteq> [] \<Longrightarrow> code_match ([] # fs) ([] # ts) = code_match fs ts"
  by simp

lemma code_match_differ:
  assumes "s \<noteq> t" "s \<noteq> CHR ''+''" "s = CHR ''#'' \<Longrightarrow> ss = []"
  shows "code_match (levels (s # ss)) (levels (t # ts)) \<longleftrightarrow> s = CHR ''#''"
  using assms by (cases "s = CHR ''#''"; cases "s = CHR ''/''"; cases "t = CHR ''/''") simp_all

lemma code_match_empty_topic:
  assumes "sub_ok c ss"
  shows "code_match (levels ss) [[]] \<longleftrightarrow> ss \<in> {[], ''+'', ''/#'', ''#''}"
proof (cases ss)
  case (Cons s ss')
  consider "s = CHR ''/''" | "s = CHR ''+''" | "s = CHR ''#''"
    | "s \<noteq> CHR ''/''" "s \<noteq> CHR ''+''" "s \<noteq> CHR ''#''" by blast
  then show ?thesis
  proof cases
    case 1
    then show ?thesis using levels_eq_Nil_Cons(2) [of ss'] Cons by simp
  next
    case 2
    then have "ss' = [] \<or> hd ss' = CHR ''/''" using assms Cons by simp
    then show ?thesis using 2 Cons by (cases ss') simp_all
  next
    case 3
    then show ?thesis using assms Cons by simp
  qed (use Cons in simp)
qed simp

lemma suffix_match_empty_topic:
  assumes "sub_ok c ss"
  shows "suffix_match ss [] \<longleftrightarrow> ss \<in> {''+'', ''#''}"
proof (cases ss)
  case (Cons s ss')
  then show ?thesis using assms by (cases ss') auto
qed simp

lemma code_match_same:
  assumes "sub_ok s ss" "s \<noteq> CHR ''+''" "s \<noteq> CHR ''#''" "s \<noteq> CHR 0x00"
  shows "code_match (levels (s # ss)) (levels (s # ts)) = code_match (levels ss) (levels ts)"
proof (cases "s = CHR ''/''")
  case True
  then show ?thesis
    unfolding levels.simps by (simp only: if_True code_match_Nil_same levels_nonempty simp_thms)
next
  case False
  note hd_levels_wild [OF assms(1) False assms(4)]
  with assms(2,3) False code_match_Cons_same [of s "levels ss" "levels ts"] show ?thesis
    unfolding levels.simps by (simp only: if_False levels_nonempty simp_thms)
qed

lemma suffix_match_plus_levels:
  assumes ok: "ss = [] \<or> hd ss = CHR ''/''" and tail: "dropWhile (\<lambda>c. c \<noteq> CHR ''/'') ts = ts'"
    and IH: "\<And>ss2 ts2. ss = CHR ''/'' # ss2 \<Longrightarrow> ts' = CHR ''/'' # ts2 \<Longrightarrow>
      (ts2 = [] \<and> ss2 \<in> {[], ''+'', ''/#''}) \<or> suffix_match ss2 ts2
        \<longleftrightarrow> code_match (levels ss2) (levels ts2)"
  shows "(ts' = [] \<and> ss = []) \<or> suffix_match ss ts'
     \<longleftrightarrow> code_match (levels (CHR ''+'' # ss)) (levels ts)"
proof -
  let ?t = "takeWhile (\<lambda>c. c \<noteq> CHR ''/'') ts"
  have T: "levels ts = ?t # (case ts' of [] \<Rightarrow> [] | _ # r \<Rightarrow> levels r)"
    using levels_takeWhile [of ts] unfolding tail .
  have "ts' = [] \<or> hd ts' = CHR ''/''" 
    using hd_dropWhile [of "\<lambda>c. c \<noteq> CHR ''/''" ts] unfolding tail by blast
  then have T2: "ts' = [] \<or> ts' = CHR ''/'' # tl ts'" by (cases ts') auto
  have S: "ss = [] \<or> ss = CHR ''/'' # tl ss" using ok by (cases ss) auto
  show ?thesis
  proof (cases "ss = []")
    case True
    then show ?thesis using T T2 by (cases ts') simp_all
  next
    case ss: False
    show ?thesis
    proof (cases "ts' = []")
      case True
      then show ?thesis using S ss T by (cases ss) simp_all
    next
      case False
      define ss2 ts2 where "ss2 = tl ss" and "ts2 = tl ts'"
      with False ss S T2 have split: "ss = CHR ''/'' # ss2" "ts' = CHR ''/'' # ts2" by auto
      have "levels (CHR ''+'' # ss) = ''+'' # levels ss2" "levels ts = ?t # levels ts2"
        using T unfolding split by simp_all
      then show ?thesis using IH [OF split] unfolding split by simp
    qed
  qed
qed

lemma suffix_match_levels:
  assumes "sub_ok c ss" and "nul_free ss" and "plain_level ts"
  shows "(ts = [] \<and> ss \<in> {[], ''+'', ''/#''}) \<or> suffix_match ss ts
     \<longleftrightarrow> code_match (levels ss) (levels ts)"
  using assms
proof (induction "length ss" arbitrary: c ss ts rule: less_induct)
  case less
  show ?case
  proof (cases ss)
    case Nil
    then show ?thesis by (cases ts) auto
  next
    case (Cons s ss')
    note ok = less.prems(1) [unfolded Cons sub_ok.simps]
    consider (empty) "ts = []" | (same) ts' where "ts = s # ts'"
      | (plus) t ts' where "ts = t # ts'" "s \<noteq> t" "s = CHR ''+''"
      | (other) t ts' where "ts = t # ts'" "s \<noteq> t" "s \<noteq> CHR ''+''"
      by (cases ts) auto
    then show ?thesis
    proof cases
      case empty
      then show ?thesis
        using code_match_empty_topic [OF less.prems(1)] suffix_match_empty_topic [OF less.prems(1)]
        unfolding empty levels.simps by blast
    next
      case same
      then have "s \<noteq> CHR ''+''" "s \<noteq> CHR ''#''" "plain_level ts'"
        using less.prems(3) by (auto simp: plain_level_def)
      with ok less.prems(2) Cons have "(ts' = [] \<and> ss' \<in> {[], ''+'', ''/#''}) \<or> suffix_match ss' ts'
          \<longleftrightarrow> code_match (levels ss') (levels ts')"
        by (intro less.hyps [of ss' s]) auto
      moreover have "code_match (levels (s # ss')) (levels (s # ts')) = code_match (levels ss') (levels ts')"
        by (rule code_match_same) (use ok less.prems(2) Cons \<open>s \<noteq> CHR ''+''\<close> \<open>s \<noteq> CHR ''#''\<close> in auto)
      moreover have "suffix_match (s # ss') (s # ts') \<longleftrightarrow>
          (ts' = [] \<and> ss' \<in> {[], ''+'', ''/#''}) \<or> suffix_match ss' ts'"
        by simp
      ultimately show ?thesis unfolding Cons same by blast
    next
      case plus
      let ?ts' = "dropWhile (\<lambda>c. c \<noteq> CHR ''/'') ts"
      have "(?ts' = [] \<and> ss' = []) \<or> suffix_match ss' ?ts'
          \<longleftrightarrow> code_match (levels (CHR ''+'' # ss')) (levels ts)"
      proof (rule suffix_match_plus_levels)
        fix ss2 ts2
        assume split: "ss' = CHR ''/'' # ss2" "?ts' = CHR ''/'' # ts2"
        have "set (CHR ''/'' # ts2) \<subseteq> set ts" using set_dropWhileD split(2) by (metis subsetI)
        then have "plain_level ts2" using less.prems(3) by (auto simp: plain_level_def)
        then show "(ts2 = [] \<and> ss2 \<in> {[], ''+'', ''/#''}) \<or> suffix_match ss2 ts2
            \<longleftrightarrow> code_match (levels ss2) (levels ts2)"
          using less.hyps [of ss2 "CHR ''/''" ts2] ok less.prems(2) Cons split(1) by auto
      qed (use ok plus in auto)
      moreover have "suffix_match ss ts \<longleftrightarrow> (?ts' = [] \<and> ss' = []) \<or> suffix_match ss' ?ts'"
        using plus(2,3) unfolding Cons plus(1) by (simp add: Let_def)
      ultimately show ?thesis using plus(1,3) Cons by blast
    next
      case other
      then have "suffix_match ss ts \<longleftrightarrow> s = CHR ''#''" "s = CHR ''#'' \<Longrightarrow> ss' = []"
        using ok unfolding Cons by auto
      moreover have "code_match (levels ss) (levels ts) \<longleftrightarrow> s = CHR ''#'' \<and> ss' = []"
        using code_match_differ [of s t ss' ts'] other ok unfolding Cons by blast
      ultimately show ?thesis using other by blast
    qed
  qed
qed

section \<open>The level view of filters\<close>

lemma sub_ok_levels:
  "nul_free s \<Longrightarrow> sub_ok c s \<longleftrightarrow>
     (if c = CHR 0x00 \<or> c = CHR ''/''
      then valid_filter (levels s)
      else plain_level (hd (levels s)) \<and> valid_filter (tl (levels s)))"
proof (induction s arbitrary: c)
  case (Cons d r)
  have IH: "sub_ok e r \<longleftrightarrow> (if e = CHR 0x00 \<or> e = CHR ''/'' then valid_filter (levels r)
      else plain_level (hd (levels r)) \<and> valid_filter (tl (levels r)))" for e
    using Cons by simp
  obtain l ls where L: "levels r = l # ls" by (cases "levels r") simp_all
  have l: "l = [] \<longleftrightarrow> r = [] \<or> hd r = CHR ''/''" and e: "l = [] \<and> ls = [] \<longleftrightarrow> r = []"
    using L by (cases r; auto split: if_splits)+
  have "d \<noteq> CHR 0x00" using Cons.prems by simp
  then show ?case using IH [of d] l e L
    by (cases "d = CHR ''/''"; cases "d = CHR ''+''"; cases "d = CHR ''#''")
      (auto simp: plain_level_def)
qed (simp add: plain_level_def)

lemma plain_level_levels: "(\<forall>l \<in> set (levels s). plain_level l) \<longleftrightarrow> plain_level s"
proof (induction s)
  case (Cons c s)
  obtain l ls where "levels s = l # ls" by (cases "levels s") simp_all
  with Cons show ?case by (auto simp: plain_level_def)
qed (simp add: plain_level_def)

text \<open>
  The filters on which the matcher departs from \<open>levels_match\<close>: the last two levels are
  \<open>+\<close> and \<open>#\<close>, and the \<open>+\<close> takes the last topic level.
\<close>

definition plus_takes_last :: "string list \<Rightarrow> string list \<Rightarrow> bool" where
  "plus_takes_last fs ts \<longleftrightarrow>
     length fs = length ts + 1 \<and> drop (length ts - 1) fs = [''+'', ''#'']"

lemma code_match_levels_match:
  "valid_filter fs \<Longrightarrow> fs \<noteq> [] \<Longrightarrow> ts \<noteq> [] \<Longrightarrow>
     code_match fs ts \<longleftrightarrow> levels_match fs ts \<and> \<not> plus_takes_last fs ts"
proof (induction fs ts rule: code_match.induct)
  case (3 f fs t ts)
  show ?case
  proof (cases "fs = [] \<or> ts = []")
    case True
    then show ?thesis
      by (cases fs; cases ts) (auto simp: plus_takes_last_def length_Suc_conv split: if_splits)
  next
    case False
    then have "plus_takes_last (f # fs) (t # ts) \<longleftrightarrow> plus_takes_last fs ts"
      by (cases ts) (simp_all add: plus_takes_last_def)
    moreover have "code_match fs ts \<longleftrightarrow> levels_match fs ts \<and> \<not> plus_takes_last fs ts"
      using 3 False by (cases "f = ''+''") simp_all
    ultimately show ?thesis using False by auto
  qed
qed simp_all

lemma result_if:
  "(b \<Longrightarrow> \<exists>rc r. x = (rc, Some r)) \<Longrightarrow> (\<not> b \<Longrightarrow> \<exists>rc r. y = (rc, Some r))
     \<Longrightarrow> \<exists>rc r. (if b then x else y) = (rc, Some r :: bool option)"
  by simp

lemma matches_loop_result:
  assumes "nul_free sub" and "spos \<le> length sub" and "tpos \<le> length topic"
    and "spos < length sub \<or> tpos < length topic"
  shows "\<exists>rc r. matches_loop sub topic spos tpos = (rc, Some r)"
  using assms
proof (induction "length sub - spos" arbitrary: spos tpos rule: less_induct)
  case less
  note prems = less.prems
  have IH: "\<exists>rc r. matches_loop sub topic (spos + 1) tpos' = (rc, Some r)"
    if "spos < length sub" "tpos' \<le> length topic" "spos + 1 \<noteq> length sub \<or> tpos' \<noteq> length topic" for tpos'
    using less.hyps [of "spos + 1" tpos'] that prems(1) by auto
  have "tpos < length topic" if "spos < length sub" "char_at sub spos = char_at topic tpos"
    using char_at_eq_nul [OF prems(1), of spos] that prems(3) by (auto simp: char_at_def split: if_splits)
  moreover have "skip_level topic tpos \<le> length topic" by (rule skip_level_drop(2) [OF prems(3)])
  ultimately show ?case
    using prems(2-4) IH [of "tpos + 1"] IH [of "skip_level topic tpos"]
    unfolding matches_loop.simps [of sub topic spos tpos] Let_def
    by (intro result_if) (auto simp: Suc_le_eq)
qed

section \<open>Properties\<close>

text \<open>
  C8: The subscription filter check accepts exactly the filters whose wildcards fill whole levels, with
  \<open>#\<close> in the last level only, and whose length fits the two length bytes of the protocol; the
  publish check accepts exactly the wildcard-free topics of such a length.
\<close>

theorem topic_checks_exact:
  assumes "nul_free s"
  shows "(mosquitto_sub_topic_check s = MOSQ_ERR_SUCCESS
           \<longleftrightarrow> valid_filter (levels s) \<and> length s \<le> 65535)
     \<and> (mosquitto_pub_topic_check s = MOSQ_ERR_SUCCESS
           \<longleftrightarrow> (\<forall>l \<in> set (levels s). plain_level l) \<and> length s \<le> 65535)"
  using sub_topic_check_loop_eq [OF assms] pub_topic_check_loop_eq [of s] sub_ok_levels [OF assms]
  by (simp add: mosquitto_sub_topic_check_def mosquitto_pub_topic_check_def plain_level_levels)

theorem topic_checks_exact_witness:
  "valid_filter (levels ''sensors/+/#'') \<and> \<not> valid_filter (levels ''sensors/#/x'')
   \<and> mosquitto_sub_topic_check ''sensors/+/#'' = MOSQ_ERR_SUCCESS
   \<and> mosquitto_pub_topic_check ''sensors/+/#'' = MOSQ_ERR_INVAL"
  using topic_checks_exact [of "''sensors/+/#''"]
  by (simp add: nul_free_def plain_level_def mosquitto_pub_topic_check_def)

text \<open>
  C1: The matcher, on a valid filter and a valid topic, neither empty, succeeds and answers
  exactly the protocol's level-wise matching, with two differences that the statement makes explicit:
  a filter and a topic match only if both or neither start with a dollar, and a filter that ends in
  \<open>+/#\<close> does not match a topic whose last level is taken by that \<open>+\<close>.
\<close>

theorem topic_matches_exact:
  assumes "sub \<noteq> []" and "topic \<noteq> []" and "nul_free sub"
    and "mosquitto_sub_topic_check sub = MOSQ_ERR_SUCCESS"
    and "mosquitto_pub_topic_check topic = MOSQ_ERR_SUCCESS"
  shows "mosquitto_topic_matches_sub sub topic =
     (MOSQ_ERR_SUCCESS,
      Some (same_dollar sub topic \<and> levels_match (levels sub) (levels topic)
            \<and> \<not> plus_takes_last (levels sub) (levels topic)))"
proof -
  have ok: "sub_ok (CHR 0x00) sub" "valid_filter (levels sub)" "plain_level topic"
    using assms(4,5) sub_topic_check_loop_eq [OF assms(3)] sub_ok_levels [OF assms(3)]
    by (auto simp: mosquitto_sub_topic_check_def mosquitto_pub_topic_check_def
        pub_topic_check_loop_eq split: if_splits)
  have "matches_loop sub topic 0 0 = (MOSQ_ERR_SUCCESS, Some (suffix_match sub topic))"
    using matches_loop_suffix [OF assms(3), of 0 0 topic] ok assms(1) by simp
  moreover have "suffix_match sub topic \<longleftrightarrow>
      levels_match (levels sub) (levels topic) \<and> \<not> plus_takes_last (levels sub) (levels topic)"
    using suffix_match_levels [OF ok(1) assms(3) ok(3)] code_match_levels_match [OF ok(2)] assms(2)
    by simp
  ultimately show ?thesis using assms(1,2)
    by (auto simp: mosquitto_topic_matches_sub_def same_dollar_def)
qed

theorem topic_matches_exact_witness:
  "mosquitto_topic_matches_sub ''a/+/c/#'' ''a/b/c'' = (MOSQ_ERR_SUCCESS, Some True)
   \<and> mosquitto_topic_matches_sub ''foo/+/#'' ''foo/bar'' = (MOSQ_ERR_SUCCESS, Some False)
   \<and> levels_match (levels ''foo/+/#'') (levels ''foo/bar'')"
  using topic_matches_exact [of "''a/+/c/#''" "''a/b/c''"]
    topic_matches_exact [of "''foo/+/#''" "''foo/bar''"]
  by (simp add: nul_free_def same_dollar_def plus_takes_last_def mosquitto_sub_topic_check_def
      mosquitto_pub_topic_check_def)

text \<open>
  C9: For every filter and topic, valid or not, the matcher sets its result, so a caller that
  passes an uninitialised flag never reads it back unset.
\<close>

theorem topic_matches_result_set:
  assumes "nul_free sub"
  shows "\<exists>rc r. mosquitto_topic_matches_sub sub topic = (rc, Some r)"
  using matches_loop_result [OF assms, of 0 0 topic]
  by (auto simp: mosquitto_topic_matches_sub_def)

theorem topic_matches_result_set_witness:
  "\<exists>rc r. mosquitto_topic_matches_sub ''a+/#'' ''a'' = (rc, Some r)"
  by (rule topic_matches_result_set) (simp add: nul_free_def)

end
