(* ===== verification/Mosq_Broker.thy ===== *)
theory Mosq_Broker
  imports Mosq_Packet Mosq_Topic
begin

text \<open>
  The data of the broker: connections (\<open>struct mosquitto\<close> of \<open>mosquitto_internal.h\<close> as it is
  compiled for the broker), queued client messages, the message store, the subscription tree,
  access control lists, configuration and the database (\<open>mosquitto_broker.h\<close>).

  Pointers.  Connections and stored messages are shared, so they live in two heaps of the database,
  indexed by addresses (\<open>ctxid\<close>, \<open>storeid\<close>).  Lists the code links through \<open>next\<close> fields are lists.
  The subscription tree is a tree of values; the node pointers a connection keeps in
  \<open>context->subs\<close> are the paths of the nodes.  \<open>context->last_msg\<close> is kept as an explicit
  pointer state, because the code relies on it when it appends.

  The socket of a connection is a script: what the next calls of \<open>read\<close> and \<open>write\<close> return.
  Everything written is appended to \<open>ctx_sent\<close>.
\<close>

section \<open>The operating system\<close>

text \<open>\<open>EAGAIN\<close> and \<open>EWOULDBLOCK\<close> are one value; \<open>EOTHER\<close> stands for every other error number.\<close>

datatype errno = EAGAIN | ECONNRESET | EOTHER

text \<open>
  What one call of \<open>read\<close> finds: bytes that have arrived (no bytes is the end of the
  stream), or an error.  What one call of \<open>write\<close> does: accept up to so many bytes, or fail.
\<close>

datatype net_read_event = RBytes "byte list" | RError errno
datatype net_write_event = WBytes nat | WError errno

section \<open>Messages and bridges\<close>

type_synonym ctxid = nat
type_synonym storeid = nat
type_synonym u64 = "64 word"

record mosquitto_message =
  will_topic :: string
  will_payload :: "byte list"
  will_qos :: int
  will_retain :: bool

record mosquitto_client_msg =
  cmsg_store :: storeid
  cmsg_timestamp :: int
  cmsg_mid :: u16
  cmsg_qos :: int
  cmsg_retain :: bool
  cmsg_direction :: mosquitto_msg_direction
  cmsg_state :: mosquitto_msg_state
  cmsg_dup :: bool

text \<open>The state of a pointer to the last message of a list.\<close>

datatype last_ptr = LastNull | LastValid | LastDangling

record mosquitto_msg_store =
  store_db_id :: u64
  store_source_id :: string
  store_dest_ids :: "string list"
  store_ref_count :: int
  store_topic :: "string option"
  store_payload :: "byte list"
  store_source_mid :: u16
  store_mid :: u16
  store_qos :: int
  store_retain :: bool

datatype mqtt3_bridge_direction = bd_out | bd_in | bd_both
datatype mosquitto_bridge_start_type = bst_automatic | bst_lazy | bst_manual | bst_once

record mqtt3_bridge_topic =
  bt_qos :: int
  bt_direction :: mqtt3_bridge_direction
  bt_local_prefix :: "string option"
  bt_remote_prefix :: "string option"
  bt_local_topic :: string
  bt_remote_topic :: string

record mqtt3_bridge =
  br_topics :: "mqtt3_bridge_topic list"
  br_topic_remapping :: bool
  br_start_type :: mosquitto_bridge_start_type
  br_idle_timeout :: int
  br_threshold :: int
  br_lazy_reconnect :: bool
  br_notifications :: bool
  br_notification_topic :: "string option"
  br_remote_clientid :: string
  br_local_clientid :: "string option"
  br_local_username :: "string option"
  br_local_password :: "string option"
  br_remote_username :: "string option"
  br_remote_password :: "string option"
  br_attempt_unsubscribe :: bool
  br_try_private :: bool
  br_try_private_accepted :: bool

section \<open>Access control\<close>

record mosquitto_acl =
  acl_topic :: string
  acl_access :: u32
  acl_ucount :: nat
  acl_ccount :: nat

record mosquitto_acl_user =
  acl_username :: "string option"
  acl_acl :: "mosquitto_acl list"

text \<open>An entry of the password table; the password is the decoded hash, with its salt.\<close>

record mosquitto_unpwd =
  unpwd_username :: string
  unpwd_password :: "byte list option"
  unpwd_salt :: "byte list"

section \<open>Connections\<close>

text \<open>
  The share of one connection in the global counters \<open>g_bytes_sent\<close>, \<open>g_msgs_sent\<close>,
  \<open>g_pub_msgs_sent\<close>, \<open>g_bytes_received\<close>, \<open>g_msgs_received\<close>, \<open>g_pub_msgs_received\<close>,
  \<open>g_pub_bytes_sent\<close> and \<open>g_pub_bytes_received\<close>.
\<close>

record net_stats =
  g_bytes_sent :: u64
  g_msgs_sent :: u64
  g_pub_msgs_sent :: u64
  g_bytes_received :: u64
  g_msgs_received :: u64
  g_pub_msgs_received :: u64
  g_pub_bytes_sent :: u64
  g_pub_bytes_received :: u64

text \<open>
  \<open>ctx_aborted\<close> records that an \<open>assert\<close> has failed or that freed memory has been written
  while the connection was served; the theorems show when it stays unset.  \<open>ctx_out_packet\<close> is
  the list behind \<open>out_packet\<close>, whose last element is \<open>out_packet_last\<close>.
\<close>

record mosquitto =
  ctx_sock :: int
  ctx_protocol :: mosquitto_protocol
  ctx_address :: "string option"
  ctx_id :: "string option"
  ctx_username :: "string option"
  ctx_password :: "string option"
  ctx_keepalive :: u16
  ctx_last_mid :: u16
  ctx_state :: mosquitto_client_state
  ctx_last_msg_in :: int
  ctx_next_msg_out :: int
  ctx_ping_t :: int
  ctx_in_packet :: mosquitto_packet
  ctx_current_out_packet :: "mosquitto_packet option"
  ctx_out_packet :: "mosquitto_packet list"
  ctx_will :: "mosquitto_message option"
  ctx_clean_session :: bool
  ctx_is_dropping :: bool
  ctx_is_bridge :: bool
  ctx_bridge :: "mqtt3_bridge option"
  ctx_msgs :: "mosquitto_client_msg list"
  ctx_last_msg :: last_ptr
  ctx_msg_count :: int
  ctx_msg_count12 :: int
  ctx_acl_list :: "mosquitto_acl_user option"
  ctx_listener :: "nat option"
  ctx_disconnect_t :: int
  ctx_subs :: "string list option list"
  ctx_net_in :: "net_read_event list"
  ctx_net_out :: "net_write_event list"
  ctx_sent :: "byte list"
  ctx_stats :: net_stats
  ctx_aborted :: bool

definition zero_stats :: net_stats where
  "zero_stats = \<lparr>g_bytes_sent = 0, g_msgs_sent = 0, g_pub_msgs_sent = 0, g_bytes_received = 0,
     g_msgs_received = 0, g_pub_msgs_received = 0, g_pub_bytes_sent = 0, g_pub_bytes_received = 0\<rparr>"

text \<open>A connection as \<open>calloc\<close> returns it, on a socket that has nothing to read and takes nothing.\<close>

definition context_calloc :: mosquitto where
  "context_calloc = \<lparr>ctx_sock = 0, ctx_protocol = mosq_p_invalid, ctx_address = None, ctx_id = None,
     ctx_username = None, ctx_password = None, ctx_keepalive = 0, ctx_last_mid = 0,
     ctx_state = mosq_cs_new, ctx_last_msg_in = 0, ctx_next_msg_out = 0, ctx_ping_t = 0,
     ctx_in_packet = packet_calloc, ctx_current_out_packet = None, ctx_out_packet = [],
     ctx_will = None, ctx_clean_session = False, ctx_is_dropping = False, ctx_is_bridge = False,
     ctx_bridge = None, ctx_msgs = [], ctx_last_msg = LastNull, ctx_msg_count = 0,
     ctx_msg_count12 = 0, ctx_acl_list = None, ctx_listener = None, ctx_disconnect_t = 0,
     ctx_subs = [], ctx_net_in = [], ctx_net_out = [], ctx_sent = [], ctx_stats = zero_stats,
     ctx_aborted = False\<rparr>"

abbreviation INVALID_SOCKET :: int where "INVALID_SOCKET \<equiv> -1"

section \<open>The subscription tree\<close>

text \<open>
  A node: its level, the subscriptions that end here (connection and granted QoS), the
  children, the retained message, and whether its \<open>parent\<close> pointer is set.  The two nodes that
  \<open>mqtt3_db_open\<close> makes have no parent; every other node has one.
\<close>

datatype subhier = Subhier (sh_topic: string) (sh_subs: "(ctxid \<times> int) list")
  (sh_children: "subhier list") (sh_retained: "storeid option") (sh_has_parent: bool)

section \<open>Configuration and database\<close>

record mqtt3_listener =
  lst_mount_point :: "string option"
  lst_use_username_as_clientid :: bool

record mqtt3_config =
  cfg_allow_anonymous :: bool
  cfg_allow_duplicate_messages :: bool
  cfg_allow_zero_length_clientid :: bool
  cfg_auth_plugin_deny_special_chars :: bool
  cfg_auto_id_prefix :: string
  cfg_clientid_prefixes :: "string option"
  cfg_listeners :: "mqtt3_listener list"
  cfg_message_size_limit :: u32
  cfg_queue_qos0_messages :: bool
  cfg_upgrade_outgoing_qos :: bool

text \<open>
  \<open>db_contexts\<close> and \<open>db_stores\<close> are the heaps.  \<open>db_msg_store\<close> is the list of the stored messages
  that have not been freed, \<open>db_next_store\<close> the next address.  \<open>db_max_inflight\<close> and
  \<open>db_max_queued\<close> are the static variables of \<open>database.c\<close>.  \<open>db_aborted\<close> records that a freed
  message has been used.
\<close>

record mosquitto_db =
  db_last_db_id :: u64
  db_subs :: "subhier list"
  db_unpwd :: "mosquitto_unpwd list"
  db_acl_list :: "mosquitto_acl_user list"
  db_acl_patterns :: "mosquitto_acl list"
  db_contexts :: "ctxid \<Rightarrow> mosquitto"
  db_contexts_by_id :: "(string \<times> ctxid) list"
  db_contexts_by_sock :: "ctxid list"
  db_ll_for_free :: "ctxid list"
  db_bridges :: "ctxid option list"
  db_stores :: "storeid \<Rightarrow> mosquitto_msg_store"
  db_msg_store :: "storeid list"
  db_next_store :: storeid
  db_msg_store_count :: int
  db_persistence_changes :: int
  db_subscription_count :: int
  db_retained_count :: int
  db_client_count :: "nat \<Rightarrow> int"
  db_max_inflight :: int
  db_max_queued :: int
  db_msgs_dropped :: u64
  db_connection_count :: u32
  db_aborted :: bool

text \<open>
  What the broker takes from outside while it serves one event: the allocator, the clock
  (\<open>mosquitto_time()\<close> and \<open>time(NULL)\<close>), the configuration, the outcomes of \<open>rand()\<close>, the digest of
  a password with a salt (OpenSSL), and the functions of an authentication plugin, if one is loaded.
\<close>

record auth_plugin =
  plugin_acl_check :: "string \<Rightarrow> string option \<Rightarrow> string \<Rightarrow> u32 \<Rightarrow> int"
  plugin_unpwd_check :: "string option \<Rightarrow> string option \<Rightarrow> int"

record mosq_env =
  env_malloc :: allocator
  env_now :: int
  env_config :: mqtt3_config
  env_rand :: "nat \<Rightarrow> nat"
  env_pw_digest :: "string \<Rightarrow> byte list \<Rightarrow> byte list"
  env_auth_plugin :: "auth_plugin option"

text \<open>A concrete environment: memory is zeroed and never short, no plugin, a permissive configuration.\<close>

definition plain_config :: mqtt3_config where
  "plain_config = \<lparr>cfg_allow_anonymous = True, cfg_allow_duplicate_messages = False,
     cfg_allow_zero_length_clientid = True, cfg_auth_plugin_deny_special_chars = True,
     cfg_auto_id_prefix = [], cfg_clientid_prefixes = None, cfg_listeners = [],
     cfg_message_size_limit = 0, cfg_queue_qos0_messages = False, cfg_upgrade_outgoing_qos = False\<rparr>"

definition plain_env :: mosq_env where
  "plain_env = \<lparr>env_malloc = (\<lambda>n. Some (replicate n 0)), env_now = 1000, env_config = plain_config,
     env_rand = (\<lambda>i. i), env_pw_digest = (\<lambda>pw salt. bytes_of_string pw @ salt), env_auth_plugin = None\<rparr>"

text \<open>The mount point of a connection: that of its listener, if it has one.\<close>

definition mount_point :: "mosq_env \<Rightarrow> mosquitto \<Rightarrow> string option" where
  "mount_point e m = Option.bind (ctx_listener m)
     (\<lambda>l. if l < length (cfg_listeners (env_config e))
          then lst_mount_point (cfg_listeners (env_config e) ! l) else None)"

text \<open>Access to the two heaps.\<close>

definition upd_ctx :: "ctxid \<Rightarrow> (mosquitto \<Rightarrow> mosquitto) \<Rightarrow> mosquitto_db \<Rightarrow> mosquitto_db" where
  "upd_ctx c f db = db\<lparr>db_contexts := (db_contexts db)(c := f (db_contexts db c))\<rparr>"

definition upd_store ::
    "storeid \<Rightarrow> (mosquitto_msg_store \<Rightarrow> mosquitto_msg_store) \<Rightarrow> mosquitto_db \<Rightarrow> mosquitto_db" where
  "upd_store s f db = db\<lparr>db_stores := (db_stores db)(s := f (db_stores db s))\<rparr>"

text \<open>The database before anything is in it: \<open>memset(db, 0, ...)\<close>.\<close>

definition store_calloc :: mosquitto_msg_store where
  "store_calloc = \<lparr>store_db_id = 0, store_source_id = [], store_dest_ids = [], store_ref_count = 0,
     store_topic = None, store_payload = [], store_source_mid = 0, store_mid = 0, store_qos = 0,
     store_retain = False\<rparr>"

definition db_calloc :: mosquitto_db where
  "db_calloc = \<lparr>db_last_db_id = 0, db_subs = [], db_unpwd = [], db_acl_list = [], db_acl_patterns = [],
     db_contexts = (\<lambda>_. context_calloc), db_contexts_by_id = [], db_contexts_by_sock = [],
     db_ll_for_free = [], db_bridges = [], db_stores = (\<lambda>_. store_calloc), db_msg_store = [],
     db_next_store = 0, db_msg_store_count = 0, db_persistence_changes = 0,
     db_subscription_count = 0, db_retained_count = 0, db_client_count = (\<lambda>_. 0),
     db_max_inflight = 20, db_max_queued = 100, db_msgs_dropped = 0, db_connection_count = 0,
     db_aborted = False\<rparr>"

lemma upd_ctx_sel [simp]:
  "db_contexts (upd_ctx c f db) = (db_contexts db)(c := f (db_contexts db c))"
  "db_stores (upd_ctx c f db) = db_stores db" "db_msg_store (upd_ctx c f db) = db_msg_store db"
  "db_next_store (upd_ctx c f db) = db_next_store db" "db_subs (upd_ctx c f db) = db_subs db"
  "db_contexts_by_id (upd_ctx c f db) = db_contexts_by_id db"
  "db_contexts_by_sock (upd_ctx c f db) = db_contexts_by_sock db"
  "db_ll_for_free (upd_ctx c f db) = db_ll_for_free db" "db_bridges (upd_ctx c f db) = db_bridges db"
  "db_unpwd (upd_ctx c f db) = db_unpwd db" "db_acl_list (upd_ctx c f db) = db_acl_list db"
  "db_acl_patterns (upd_ctx c f db) = db_acl_patterns db"
  "db_max_inflight (upd_ctx c f db) = db_max_inflight db" "db_max_queued (upd_ctx c f db) = db_max_queued db"
  "db_msg_store_count (upd_ctx c f db) = db_msg_store_count db"
  "db_last_db_id (upd_ctx c f db) = db_last_db_id db" "db_msgs_dropped (upd_ctx c f db) = db_msgs_dropped db"
  "db_subscription_count (upd_ctx c f db) = db_subscription_count db"
  "db_retained_count (upd_ctx c f db) = db_retained_count db"
  "db_persistence_changes (upd_ctx c f db) = db_persistence_changes db"
  "db_client_count (upd_ctx c f db) = db_client_count db"
  "db_connection_count (upd_ctx c f db) = db_connection_count db" "db_aborted (upd_ctx c f db) = db_aborted db"
  by (simp_all add: upd_ctx_def)

lemma upd_store_sel [simp]:
  "db_stores (upd_store s g db) = (db_stores db)(s := g (db_stores db s))"
  "db_contexts (upd_store s g db) = db_contexts db" "db_msg_store (upd_store s g db) = db_msg_store db"
  "db_next_store (upd_store s g db) = db_next_store db" "db_subs (upd_store s g db) = db_subs db"
  "db_contexts_by_id (upd_store s g db) = db_contexts_by_id db"
  "db_contexts_by_sock (upd_store s g db) = db_contexts_by_sock db"
  "db_ll_for_free (upd_store s g db) = db_ll_for_free db" "db_bridges (upd_store s g db) = db_bridges db"
  "db_unpwd (upd_store s g db) = db_unpwd db" "db_acl_list (upd_store s g db) = db_acl_list db"
  "db_acl_patterns (upd_store s g db) = db_acl_patterns db"
  "db_max_inflight (upd_store s g db) = db_max_inflight db" "db_max_queued (upd_store s g db) = db_max_queued db"
  "db_msg_store_count (upd_store s g db) = db_msg_store_count db"
  "db_last_db_id (upd_store s g db) = db_last_db_id db" "db_msgs_dropped (upd_store s g db) = db_msgs_dropped db"
  "db_subscription_count (upd_store s g db) = db_subscription_count db"
  "db_retained_count (upd_store s g db) = db_retained_count db"
  "db_persistence_changes (upd_store s g db) = db_persistence_changes db"
  "db_client_count (upd_store s g db) = db_client_count db"
  "db_connection_count (upd_store s g db) = db_connection_count db"
  "db_aborted (upd_store s g db) = db_aborted db"
  by (simp_all add: upd_store_def)

end
