(* ===== verification/Mosq_Net.thy ===== *)
theory Mosq_Net
  imports Mosq_Broker "HOL-Library.Sublist"
begin

text \<open>
  The socket layer of a connection (\<open>net_mosq.c\<close>, \<open>util_mosq.c\<close>): queueing and writing
  outgoing packets under partial writes, reading an incoming packet that may arrive in pieces,
  and generating message identifiers.
\<close>

section \<open>Reading and writing the socket\<close>

datatype net_read_result = RLen "byte list" | RFail errno
datatype net_write_result = WLen nat | WFail errno

text \<open>
  \<open>read\<close> returns at most \<open>count\<close> of the bytes that have arrived and leaves the others; an exhausted
  script is a socket with nothing to read.
\<close>

definition mosquitto_net_read :: "mosquitto \<Rightarrow> nat \<Rightarrow> net_read_result \<times> mosquitto" where
  "mosquitto_net_read m count =
     (case ctx_net_in m of
        [] \<Rightarrow> (RFail EAGAIN, m)
      | RError err # evs \<Rightarrow> (RFail err, m\<lparr>ctx_net_in := evs\<rparr>)
      | RBytes bs # evs \<Rightarrow>
          (RLen (take count bs),
           m\<lparr>ctx_net_in := (if drop count bs = [] then evs else RBytes (drop count bs) # evs)\<rparr>))"

definition mosquitto_net_write :: "mosquitto \<Rightarrow> byte list \<Rightarrow> net_write_result \<times> mosquitto" where
  "mosquitto_net_write m buf =
     (case ctx_net_out m of
        [] \<Rightarrow> (WFail EAGAIN, m)
      | WError err # evs \<Rightarrow> (WFail err, m\<lparr>ctx_net_out := evs\<rparr>)
      | WBytes n # evs \<Rightarrow>
          (WLen (min n (length buf)),
           m\<lparr>ctx_net_out := evs, ctx_sent := ctx_sent m @ take n buf\<rparr>))"

text \<open>The return code of a failed socket call.\<close>

fun errno_rc :: "errno \<Rightarrow> int" where
  "errno_rc EAGAIN = MOSQ_ERR_SUCCESS"
| "errno_rc ECONNRESET = MOSQ_ERR_CONN_LOST"
| "errno_rc EOTHER = MOSQ_ERR_ERRNO"

section \<open>Outgoing packets\<close>

text \<open>
  Move the head of the queue to \<open>current_out_packet\<close>.
\<close>

definition next_out_packet :: "mosquitto \<Rightarrow> mosquitto" where
  "next_out_packet m =
     (case ctx_out_packet m of
        [] \<Rightarrow> m\<lparr>ctx_current_out_packet := None\<rparr>
      | p # ps \<Rightarrow> m\<lparr>ctx_current_out_packet := Some p, ctx_out_packet := ps\<rparr>)"

text \<open>The bytes of a packet that \<open>write\<close> is offered.\<close>

definition pkt_unsent :: "mosquitto_packet \<Rightarrow> byte list" where
  "pkt_unsent p = take (unat (pkt_to_process p)) (drop (unat (pkt_pos p)) (pkt_payload p))"

definition add_stats :: "(net_stats \<Rightarrow> net_stats) \<Rightarrow> mosquitto \<Rightarrow> mosquitto" where
  "add_stats f m = m\<lparr>ctx_stats := f (ctx_stats m)\<rparr>"

text \<open>
  The two nested loops of \<open>_mosquitto_packet_write\<close>: while there is a current packet, write
  what is left of it; once it is written, count it, free it and take the next one.  A write of no
  bytes leaves \<open>errno\<close> at 0, which the code reports as \<open>MOSQ_ERR_ERRNO\<close>.
\<close>

function packet_write_loop :: "mosq_env \<Rightarrow> mosquitto \<Rightarrow> int \<times> mosquitto" where
  "packet_write_loop e m =
     (case ctx_current_out_packet m of
        None \<Rightarrow> (MOSQ_ERR_SUCCESS, m)
      | Some packet \<Rightarrow>
          if pkt_to_process packet > 0 then
            (case mosquitto_net_write m (pkt_unsent packet) of
               (WLen n, m) \<Rightarrow>
                 if n > 0 then
                   let packet = packet\<lparr>pkt_to_process := pkt_to_process packet - of_nat n,
                                       pkt_pos := pkt_pos packet + of_nat n\<rparr>
                   in packet_write_loop e
                        (add_stats (\<lambda>s. s\<lparr>g_bytes_sent := g_bytes_sent s + of_nat n\<rparr>)
                          (m\<lparr>ctx_current_out_packet := Some packet\<rparr>))
                 else (MOSQ_ERR_ERRNO, m)
             | (WFail err, m) \<Rightarrow> (errno_rc err, m))
          else
            let m = add_stats (\<lambda>s. s\<lparr>g_msgs_sent := g_msgs_sent s + 1,
                      g_pub_msgs_sent := (if pkt_command packet AND 0xF6 = PUBLISH
                                          then g_pub_msgs_sent s + 1 else g_pub_msgs_sent s)\<rparr>) m;
                m = next_out_packet m
            in packet_write_loop e (m\<lparr>ctx_next_msg_out := env_now e + int (unat (ctx_keepalive m))\<rparr>))"
  by pat_completeness auto

lemma pkt_unsent_length: "length (pkt_unsent p) \<le> unat (pkt_to_process p)"
  by (simp add: pkt_unsent_def)

lemma net_write_fields:
  assumes "mosquitto_net_write m buf = (r, m')"
  shows "ctx_current_out_packet m' = ctx_current_out_packet m" and "ctx_out_packet m' = ctx_out_packet m"
    and "r = WLen n \<Longrightarrow> n \<le> length buf"
  using assms by (auto simp: mosquitto_net_write_def split: list.splits net_write_event.splits)

lemma unat_sub_less_u32: "0 < n \<Longrightarrow> n \<le> unat (w :: u32) \<Longrightarrow> unat (w - of_nat n) = unat w - n"
proof -
  assume "0 < n" "n \<le> unat w"
  then have "unat (of_nat n :: u32) = n" using u32_lt [of w] unat_of_nat_u32 by simp
  with \<open>n \<le> unat w\<close> show ?thesis by (simp add: unat_sub word_le_nat_alt)
qed

text \<open>Each turn of the loop finishes a packet or shortens the current one.\<close>

definition write_order :: "(mosquitto \<times> mosquitto) set" where
  "write_order = measures [\<lambda>m. length (ctx_out_packet m) + (if ctx_current_out_packet m = None then 0 else 1),
     \<lambda>m. case ctx_current_out_packet m of None \<Rightarrow> 0 | Some p \<Rightarrow> unat (pkt_to_process p)]"

lemma write_order_wf: "wf write_order"
  by (simp add: write_order_def)

lemma write_order_partial:
  assumes "ctx_current_out_packet m = Some p" and "0 < n"
    and W: "mosquitto_net_write m (pkt_unsent p) = (WLen n, m')"
  shows "(add_stats f (m'\<lparr>ctx_current_out_packet := Some (p\<lparr>pkt_to_process := pkt_to_process p - of_nat n,
      pkt_pos := pos\<rparr>)\<rparr>), m) \<in> write_order"
proof -
  have "n \<le> unat (pkt_to_process p)"
    using net_write_fields(3) [OF W] pkt_unsent_length [of p] by simp
  with assms unat_sub_less_u32 [of n "pkt_to_process p"] net_write_fields(1,2) [OF W]
  show ?thesis by (simp add: write_order_def add_stats_def)
qed

lemma write_order_next:
  assumes "ctx_current_out_packet m = Some p"
  shows "((next_out_packet (add_stats f m))\<lparr>ctx_next_msg_out := t\<rparr>, m) \<in> write_order"
  using assms by (auto simp: write_order_def next_out_packet_def add_stats_def split: list.splits)

termination packet_write_loop
proof (relation "inv_image write_order snd")
  fix e m packet r m' n packet'
  assume "ctx_current_out_packet m = Some packet" "0 < pkt_to_process packet"
    "(r, m') = mosquitto_net_write m (pkt_unsent packet)" "r = WLen n" "0 < n"
    "packet' = packet\<lparr>pkt_to_process := pkt_to_process packet - of_nat n,
         pkt_pos := pkt_pos packet + of_nat n\<rparr>"
  then show "((e, add_stats (\<lambda>s. s\<lparr>g_bytes_sent := g_bytes_sent s + of_nat n\<rparr>)
             (m'\<lparr>ctx_current_out_packet := Some packet'\<rparr>)), e, m) \<in> inv_image write_order snd"
    using write_order_partial [of m packet n m'] by simp
qed (use write_order_wf write_order_next in \<open>auto intro: wf_inv_image\<close>)

declare packet_write_loop.simps [simp del]

definition mosquitto_packet_write :: "mosq_env \<Rightarrow> mosquitto \<Rightarrow> int \<times> mosquitto" where
  "mosquitto_packet_write e m =
     (if ctx_sock m = INVALID_SOCKET then (MOSQ_ERR_NO_CONN, m)
      else let m = (if ctx_out_packet m \<noteq> [] \<and> ctx_current_out_packet m = None
                    then next_out_packet m else m)
           in if ctx_state m = mosq_cs_connect_pending then (MOSQ_ERR_SUCCESS, m)
              else packet_write_loop e m)"

definition mosquitto_packet_queue ::
    "mosq_env \<Rightarrow> mosquitto \<Rightarrow> mosquitto_packet \<Rightarrow> int \<times> mosquitto" where
  "mosquitto_packet_queue e m packet =
     (let packet = packet\<lparr>pkt_pos := 0, pkt_to_process := pkt_packet_length packet\<rparr>
      in mosquitto_packet_write e (m\<lparr>ctx_out_packet := ctx_out_packet m @ [packet]\<rparr>))"

section \<open>Incoming packets\<close>

text \<open>
  \<open>_mosquitto_packet_read\<close> in three stages, each of which may end the call with a return
  code (\<open>Some rc\<close>) or fall through to the next (\<open>None\<close>).
\<close>

definition upd_in :: "(mosquitto_packet \<Rightarrow> mosquitto_packet) \<Rightarrow> mosquitto \<Rightarrow> mosquitto" where
  "upd_in f m = m\<lparr>ctx_in_packet := f (ctx_in_packet m)\<rparr>"

definition count_received :: "nat \<Rightarrow> mosquitto \<Rightarrow> mosquitto" where
  "count_received n = add_stats (\<lambda>s. s\<lparr>g_bytes_received := g_bytes_received s + of_nat n\<rparr>)"

definition packet_read_command :: "mosquitto \<Rightarrow> int option \<times> mosquitto" where
  "packet_read_command m =
     (if pkt_command (ctx_in_packet m) \<noteq> 0 then (None, m)
      else case mosquitto_net_read m 1 of
             (RFail err, m) \<Rightarrow> (Some (errno_rc err), m)
           | (RLen [], m) \<Rightarrow> (Some MOSQ_ERR_CONN_LOST, m)
           | (RLen (b # _), m) \<Rightarrow>
               (let m = count_received 1 (upd_in (pkt_command_update (\<lambda>_. b)) m)
                in if ctx_bridge m = None \<and> ctx_state m = mosq_cs_new \<and> b AND 0xF0 \<noteq> CONNECT
                   then (Some MOSQ_ERR_PROTOCOL, m) else (None, m)))"

text \<open>
  The bytes of the remaining length.  \<open>remaining_count\<close> counts down from 0 while the length
  is being read; more than four bytes are a protocol error.
\<close>

function remaining_length_loop :: "mosquitto \<Rightarrow> int option \<times> mosquitto" where
  "remaining_length_loop m =
     (case mosquitto_net_read m 1 of
        (RFail err, m) \<Rightarrow> (Some (errno_rc err), m)
      | (RLen [], m) \<Rightarrow> (Some MOSQ_ERR_CONN_LOST, m)
      | (RLen (b # _), m) \<Rightarrow>
          (let m = upd_in (\<lambda>p. p\<lparr>pkt_remaining_count := pkt_remaining_count p - 1\<rparr>) m
           in if pkt_remaining_count (ctx_in_packet m) < -4 then (Some MOSQ_ERR_PROTOCOL, m)
              else let m = count_received 1 (upd_in
                         (\<lambda>p. p\<lparr>pkt_remaining_length := pkt_remaining_length p
                                    + ucast (b AND 127) * pkt_remaining_mult p,
                                 pkt_remaining_mult := pkt_remaining_mult p * 128\<rparr>) m)
                   in if b AND 128 \<noteq> 0 then remaining_length_loop m else (None, m)))"
  by pat_completeness auto

lemma net_read_fields:
  assumes "mosquitto_net_read m count = (r, m')"
  shows "ctx_in_packet m' = ctx_in_packet m" and "r = RLen bs \<Longrightarrow> length bs \<le> count"
  using assms by (auto simp: mosquitto_net_read_def split: list.splits net_read_event.splits)

lemma upd_in_fields [simp]:
  "ctx_in_packet (upd_in f m) = f (ctx_in_packet m)"
  "ctx_in_packet (count_received n m) = ctx_in_packet m"
  by (simp_all add: upd_in_def count_received_def add_stats_def)

termination remaining_length_loop
proof (relation "measure (\<lambda>m. nat (5 + pkt_remaining_count (ctx_in_packet m)))")
  fix m r m1 rl b bs m2 m3
  assume 1: "(r, m1) = mosquitto_net_read m 1"
    and 2: "m2 = upd_in (\<lambda>p. p\<lparr>pkt_remaining_count := pkt_remaining_count p - 1\<rparr>) m1"
      "\<not> pkt_remaining_count (ctx_in_packet m2) < -4"
    and 3: "m3 = count_received 1 (upd_in (\<lambda>p. p\<lparr>pkt_remaining_length := pkt_remaining_length p
             + ucast (b AND 127) * pkt_remaining_mult p,
           pkt_remaining_mult := pkt_remaining_mult p * 128\<rparr>) m2)"
  from 1 have "ctx_in_packet m1 = ctx_in_packet m" using net_read_fields(1) [of m 1 r m1] by simp
  with 2 3 show "(m3, m) \<in> measure (\<lambda>m. nat (5 + pkt_remaining_count (ctx_in_packet m)))" by simp
qed simp

declare remaining_length_loop.simps [simp del]

definition packet_read_remaining_length :: "mosq_env \<Rightarrow> mosquitto \<Rightarrow> int option \<times> mosquitto" where
  "packet_read_remaining_length e m =
     (if pkt_remaining_count (ctx_in_packet m) > 0 then (None, m)
      else case remaining_length_loop m of
             (Some rc, m) \<Rightarrow> (Some rc, m)
           | (None, m) \<Rightarrow>
               (let m = upd_in (\<lambda>p. p\<lparr>pkt_remaining_count := - pkt_remaining_count p\<rparr>) m;
                    len = pkt_remaining_length (ctx_in_packet m)
                in if len > 0
                   then case env_malloc e (unat len) of
                          None \<Rightarrow> (Some MOSQ_ERR_NOMEM, upd_in (pkt_payload_update (\<lambda>_. [])) m)
                        | Some buf \<Rightarrow> (None, upd_in (\<lambda>p. p\<lparr>pkt_payload := buf, pkt_to_process := len\<rparr>) m)
                   else (None, m)))"

text \<open>
  The rest of the packet.  A read at the end of the stream leaves \<open>errno\<close> at 0, which this
  loop reports as \<open>MOSQ_ERR_ERRNO\<close>.
\<close>

function packet_read_payload :: "mosq_env \<Rightarrow> mosquitto \<Rightarrow> int option \<times> mosquitto" where
  "packet_read_payload e m =
     (let p = ctx_in_packet m in
      if pkt_to_process p > 0 then
        (case mosquitto_net_read m (unat (pkt_to_process p)) of
           (RLen bs, m) \<Rightarrow>
             if bs \<noteq> [] then
               packet_read_payload e (count_received (length bs) (upd_in
                 (\<lambda>p. p\<lparr>pkt_payload := take (unat (pkt_pos p)) (pkt_payload p) @ bs
                          @ drop (unat (pkt_pos p) + length bs) (pkt_payload p),
                        pkt_to_process := pkt_to_process p - of_nat (length bs),
                        pkt_pos := pkt_pos p + of_nat (length bs)\<rparr>) m))
             else (Some MOSQ_ERR_ERRNO, m)
         | (RFail err, m) \<Rightarrow>
             (Some (errno_rc err),
              if err = EAGAIN \<and> pkt_to_process p > 1000 then m\<lparr>ctx_last_msg_in := env_now e\<rparr> else m))
      else (None, m))"
  by pat_completeness auto

termination packet_read_payload
proof (relation "measure (\<lambda>(e, m). unat (pkt_to_process (ctx_in_packet m)))")
  fix e m p r m1 bs
  assume 1: "p = ctx_in_packet m" "0 < pkt_to_process p"
    "(r, m1) = mosquitto_net_read m (unat (pkt_to_process p))" "r = RLen bs" "bs \<noteq> []"
  then have R: "mosquitto_net_read m (unat (pkt_to_process p)) = (RLen bs, m1)" by simp
  have "0 < length bs" "length bs \<le> unat (pkt_to_process p)"
    using net_read_fields(2) [OF R] 1(5) by simp_all
  then have "unat (pkt_to_process p) - length bs < unat (pkt_to_process p)" by linarith
  with \<open>0 < length bs\<close> \<open>length bs \<le> unat (pkt_to_process p)\<close> 1 net_read_fields(1) [OF R]
    unat_sub_less_u32 [of "length bs" "pkt_to_process p"]
  show "((e, count_received (length bs) (upd_in
         (\<lambda>p. p\<lparr>pkt_payload := take (unat (pkt_pos p)) (pkt_payload p) @ bs
                  @ drop (unat (pkt_pos p) + length bs) (pkt_payload p),
                pkt_to_process := pkt_to_process p - of_nat (length bs),
                pkt_pos := pkt_pos p + of_nat (length bs)\<rparr>) m1)), e, m)
      \<in> measure (\<lambda>(e, m). unat (pkt_to_process (ctx_in_packet m)))"
    by simp
qed simp

declare packet_read_payload.simps [simp del]

text \<open>
  The part of \<open>_mosquitto_packet_read\<close> before the packet is handled: \<open>Some rc\<close> if the call
  returns early, \<open>None\<close> when the packet is complete, with its position reset for the handler.
\<close>

definition packet_read_fill :: "mosq_env \<Rightarrow> mosquitto \<Rightarrow> int option \<times> mosquitto" where
  "packet_read_fill e m =
     (if ctx_sock m = INVALID_SOCKET then (Some MOSQ_ERR_NO_CONN, m)
      else if ctx_state m = mosq_cs_connect_pending then (Some MOSQ_ERR_SUCCESS, m)
      else case packet_read_command m of
             (Some rc, m) \<Rightarrow> (Some rc, m)
           | (None, m) \<Rightarrow>
               (case packet_read_remaining_length e m of
                  (Some rc, m) \<Rightarrow> (Some rc, m)
                | (None, m) \<Rightarrow>
                    (case packet_read_payload e m of
                       (Some rc, m) \<Rightarrow> (Some rc, m)
                     | (None, m) \<Rightarrow>
                         (None, add_stats (\<lambda>s. s\<lparr>g_msgs_received := g_msgs_received s + 1,
                            g_pub_msgs_received := (if pkt_command (ctx_in_packet m) AND 0xF5 = PUBLISH
                              then g_pub_msgs_received s + 1 else g_pub_msgs_received s)\<rparr>)
                           (upd_in (pkt_pos_update (\<lambda>_. 0)) m)))))"

section \<open>Message identifiers\<close>

definition mosquitto_mid_generate :: "mosquitto \<Rightarrow> u16 \<times> mosquitto" where
  "mosquitto_mid_generate m =
     (let last_mid = ctx_last_mid m + 1;
          last_mid = (if last_mid = 0 then last_mid + 1 else last_mid)
      in (last_mid, m\<lparr>ctx_last_mid := last_mid\<rparr>))"


section \<open>The byte stream\<close>

text \<open>
  The bytes that are queued but not yet written, in the order in which they will be, and the
  invariant of the queue: the position and the count of every packet span its buffer.
\<close>

definition pending :: "mosquitto \<Rightarrow> byte list" where
  "pending m = (case ctx_current_out_packet m of None \<Rightarrow> [] | Some p \<Rightarrow> pkt_unsent p)
     @ concat (map pkt_unsent (ctx_out_packet m))"

definition out_ready :: "mosquitto_packet \<Rightarrow> bool" where
  "out_ready p \<longleftrightarrow> unat (pkt_pos p) + unat (pkt_to_process p) = length (pkt_payload p)
     \<and> length (pkt_payload p) < 4294967296"

definition net_wf :: "mosquitto \<Rightarrow> bool" where
  "net_wf m \<longleftrightarrow> (\<forall>p \<in> set_option (ctx_current_out_packet m) \<union> set (ctx_out_packet m). out_ready p)"

definition stream :: "mosquitto \<Rightarrow> byte list" where
  "stream m = ctx_sent m @ pending m"

text \<open>Everything of a connection that sending does not touch.\<close>

definition send_frame :: "mosquitto \<Rightarrow> mosquitto" where
  "send_frame m = m\<lparr>ctx_current_out_packet := None, ctx_out_packet := [], ctx_net_out := [],
     ctx_sent := [], ctx_stats := zero_stats, ctx_next_msg_out := 0\<rparr>"

text \<open>The effect of sending: the stream grows by \<open>bs\<close> and nothing else changes.\<close>

definition streams :: "mosquitto \<Rightarrow> byte list \<Rightarrow> mosquitto \<Rightarrow> bool" where
  "streams m bs m' \<longleftrightarrow> net_wf m' \<and> stream m' = stream m @ bs \<and> send_frame m' = send_frame m
     \<and> prefix (ctx_sent m) (ctx_sent m')"

lemma streams_refl [simp]: "net_wf m \<Longrightarrow> streams m [] m"
  by (simp add: streams_def)

lemma streams_trans: "\<lbrakk>streams m xs m'; streams m' ys m''\<rbrakk> \<Longrightarrow> streams m (xs @ ys) m''"
  by (auto simp: streams_def)

lemma out_ready_sent:
  assumes "out_ready p" and "0 < n" and "n \<le> length (pkt_unsent p)"
  defines "q \<equiv> p\<lparr>pkt_to_process := pkt_to_process p - of_nat n, pkt_pos := pkt_pos p + of_nat n\<rparr>"
  shows "out_ready q" and "pkt_unsent q = drop n (pkt_unsent p)"
proof -
  have n: "n \<le> unat (pkt_to_process p)" using assms(3) pkt_unsent_length [of p] by simp
  then have "unat (of_nat n :: u32) = n" using u32_lt [of "pkt_to_process p"] unat_of_nat_u32 by simp
  moreover have "unat (pkt_pos p) + n < 4294967296" using assms(1) n by (simp add: out_ready_def)
  ultimately have pos: "unat (pkt_pos p + of_nat n) = unat (pkt_pos p) + n"
    using unat_add_u32 [of "pkt_pos p" "of_nat n"] by simp
  note left = unat_sub_less_u32 [OF assms(2) n]
  show "out_ready q" using assms(1) pos left n by (simp add: q_def out_ready_def)
  show "pkt_unsent q = drop n (pkt_unsent p)"
    using pos left by (simp add: q_def pkt_unsent_def drop_take add.commute)
qed

lemma pkt_unsent_done: "\<not> 0 < pkt_to_process p \<Longrightarrow> pkt_unsent p = []"
  by (simp add: pkt_unsent_def word_less_nat_alt)

lemma streams_next_out_packet:
  assumes "net_wf m" and "\<And>p. ctx_current_out_packet m = Some p \<Longrightarrow> pkt_unsent p = []"
  shows "streams m [] (next_out_packet m)"
  using assms
  by (cases "ctx_out_packet m"; cases "ctx_current_out_packet m")
    (auto simp: streams_def net_wf_def stream_def pending_def send_frame_def next_out_packet_def)

lemma streams_add_stats: "net_wf m \<Longrightarrow> streams m [] (add_stats f m)"
  by (simp add: streams_def net_wf_def stream_def pending_def send_frame_def add_stats_def)

lemma streams_next_msg_out: "net_wf m \<Longrightarrow> streams m [] (m\<lparr>ctx_next_msg_out := t\<rparr>)"
  by (simp add: streams_def net_wf_def stream_def pending_def send_frame_def)

lemma streams_write:
  assumes wf: "net_wf m" and cur: "ctx_current_out_packet m = Some p"
    and W: "mosquitto_net_write m (pkt_unsent p) = (WLen n, m')" and n: "0 < n"
  shows "streams m [] (m'\<lparr>ctx_current_out_packet :=
     Some (p\<lparr>pkt_to_process := pkt_to_process p - of_nat n, pkt_pos := pkt_pos p + of_nat n\<rparr>)\<rparr>)"
proof -
  have "n \<le> length (pkt_unsent p)" using net_write_fields(3) [OF W] by simp
  moreover have "out_ready p" using wf cur by (simp add: net_wf_def)
  ultimately have q: "out_ready (p\<lparr>pkt_to_process := pkt_to_process p - of_nat n, pkt_pos := pkt_pos p + of_nat n\<rparr>)"
    "pkt_unsent (p\<lparr>pkt_to_process := pkt_to_process p - of_nat n, pkt_pos := pkt_pos p + of_nat n\<rparr>)
      = drop n (pkt_unsent p)" using out_ready_sent n by blast+
  obtain k evs where "ctx_net_out m = WBytes k # evs" "n = min k (length (pkt_unsent p))"
      "m' = m\<lparr>ctx_net_out := evs, ctx_sent := ctx_sent m @ take k (pkt_unsent p)\<rparr>"
    using W by (auto simp: mosquitto_net_write_def split: list.splits net_write_event.splits)
  moreover from this have "take k (pkt_unsent p) = take n (pkt_unsent p)" by (simp add: min_def)
  ultimately show ?thesis using wf cur q
    by (simp add: streams_def net_wf_def stream_def pending_def send_frame_def)
qed

lemma streams_fail:
  "net_wf m \<Longrightarrow> mosquitto_net_write m buf = (r, m') \<Longrightarrow> (\<And>n. r = WLen n \<Longrightarrow> n = 0) \<Longrightarrow> streams m [] m'"
  by (auto simp: mosquitto_net_write_def streams_def net_wf_def stream_def pending_def send_frame_def
      min_def split: list.splits net_write_event.splits if_splits)

text \<open>
  One turn of the loop: part of the current packet is written, or the socket takes nothing,
  or the packet is done.
\<close>

lemma packet_write_partial:
  assumes wf: "net_wf m" and cur: "ctx_current_out_packet m = Some p" and "0 < pkt_to_process p"
    and W: "mosquitto_net_write m (pkt_unsent p) = (WLen n, m1)" and n: "0 < n"
  obtains m' k evs where "packet_write_loop e m = packet_write_loop e m'" and "streams m [] m'"
    and "(m', m) \<in> write_order" and "ctx_net_out m = WBytes k # evs" and "ctx_net_out m' = evs"
    and "ctx_current_out_packet m' \<noteq> None" and "length (pending m') < length (pending m)"
proof -
  let ?q = "p\<lparr>pkt_to_process := pkt_to_process p - of_nat n, pkt_pos := pkt_pos p + of_nat n\<rparr>"
  let ?f = "\<lambda>s. s\<lparr>g_bytes_sent := g_bytes_sent s + of_nat n\<rparr>"
  let ?m2 = "add_stats ?f (m1\<lparr>ctx_current_out_packet := Some ?q\<rparr>)"
  obtain k evs where k: "ctx_net_out m = WBytes k # evs" "n = min k (length (pkt_unsent p))"
      "m1 = m\<lparr>ctx_net_out := evs, ctx_sent := ctx_sent m @ take k (pkt_unsent p)\<rparr>"
    using W by (auto simp: mosquitto_net_write_def split: list.splits net_write_event.splits)
  have S: "streams m [] (m1\<lparr>ctx_current_out_packet := Some ?q\<rparr>)" by (rule streams_write [OF wf cur W n])
  show thesis
  proof (rule that)
    show "packet_write_loop e m = packet_write_loop e ?m2"
      using cur assms(3) W n by (subst packet_write_loop.simps) (simp add: Let_def)
    show "streams m [] ?m2" using streams_trans [OF S streams_add_stats] S by (simp add: streams_def)
    show "(?m2, m) \<in> write_order" by (rule write_order_partial [OF cur n W])
    have "out_ready p" using wf cur by (simp add: net_wf_def)
    then show "length (pending ?m2) < length (pending m)"
      using out_ready_sent(2) [OF _ n] k n cur by (simp add: pending_def add_stats_def)
  qed (use k in \<open>simp_all add: add_stats_def\<close>)
qed

lemma packet_write_blocked:
  assumes wf: "net_wf m" and cur: "ctx_current_out_packet m = Some p" and "0 < pkt_to_process p"
    and W: "mosquitto_net_write m (pkt_unsent p) = (r, m1)" and stop: "\<And>n. r = WLen n \<Longrightarrow> n = 0"
  shows "\<exists>rc. packet_write_loop e m = (rc, m1)" and "streams m [] m1" and "pending m \<noteq> []"
    and "ctx_net_out m = WBytes k # evs \<Longrightarrow> k = 0"
proof -
  have "out_ready p" using wf cur by (simp add: net_wf_def)
  then have ne: "0 < length (pkt_unsent p)"
    using assms(3) by (simp add: pkt_unsent_def out_ready_def word_less_nat_alt)
  then show "pending m \<noteq> []" using cur by (simp add: pending_def)
  show "streams m [] m1" by (rule streams_fail [OF wf W stop])
  show "\<exists>rc. packet_write_loop e m = (rc, m1)"
    using cur assms(3) W stop by (subst packet_write_loop.simps) (auto split: net_write_result.splits)
  show "k = 0" if "ctx_net_out m = WBytes k # evs"
    using that W stop ne by (auto simp: mosquitto_net_write_def min_def split: if_splits)
qed

lemma packet_write_next:
  assumes wf: "net_wf m" and cur: "ctx_current_out_packet m = Some p" and fin: "\<not> 0 < pkt_to_process p"
  obtains m' where "packet_write_loop e m = packet_write_loop e m'" and "streams m [] m'"
    and "(m', m) \<in> write_order" and "ctx_net_out m' = ctx_net_out m" and "pending m' = pending m"
    and "ctx_current_out_packet m' = None \<Longrightarrow> ctx_out_packet m' = []"
proof -
  let ?f = "\<lambda>s. s\<lparr>g_msgs_sent := g_msgs_sent s + 1, g_pub_msgs_sent :=
      (if pkt_command p AND 0xF6 = PUBLISH then g_pub_msgs_sent s + 1 else g_pub_msgs_sent s)\<rparr>"
  let ?m2 = "next_out_packet (add_stats ?f m)"
  let ?m3 = "?m2\<lparr>ctx_next_msg_out := env_now e + int (unat (ctx_keepalive ?m2))\<rparr>"
  note S = streams_add_stats [OF wf, of ?f]
  have S2: "streams m [] ?m2"
    using streams_trans [OF S streams_next_out_packet] S pkt_unsent_done [OF fin] cur
    by (simp add: streams_def add_stats_def)
  show thesis
  proof (rule that)
    show "packet_write_loop e m = packet_write_loop e ?m3"
      using cur fin by (subst packet_write_loop.simps) (simp add: Let_def)
    show "streams m [] ?m3" using streams_trans [OF S2 streams_next_msg_out] S2 by (simp add: streams_def)
    show "(?m3, m) \<in> write_order" by (rule write_order_next [OF cur])
  qed (use cur pkt_unsent_done [OF fin] in
      \<open>auto simp: pending_def next_out_packet_def add_stats_def split: list.splits\<close>)
qed

lemma packet_write_turn:
  assumes wf: "net_wf m"
  obtains (finished) "packet_write_loop e m = (MOSQ_ERR_SUCCESS, m)" and "ctx_current_out_packet m = None"
  | (blocked) rc m' where "packet_write_loop e m = (rc, m')" and "streams m [] m'"
      and "\<And>k evs. ctx_net_out m = WBytes k # evs \<Longrightarrow> k = 0" and "pending m \<noteq> []"
  | (partial) k evs m' where "packet_write_loop e m = packet_write_loop e m'" and "streams m [] m'"
      and "(m', m) \<in> write_order" and "ctx_net_out m = WBytes k # evs" and "ctx_net_out m' = evs"
      and "ctx_current_out_packet m' \<noteq> None" and "length (pending m') < length (pending m)"
  | (next_packet) m' where "packet_write_loop e m = packet_write_loop e m'" and "streams m [] m'"
      and "(m', m) \<in> write_order" and "ctx_net_out m' = ctx_net_out m" and "pending m' = pending m"
      and "ctx_current_out_packet m' = None \<Longrightarrow> ctx_out_packet m' = []"
proof (cases "ctx_current_out_packet m")
  case None
  then show ?thesis using finished by (simp add: packet_write_loop.simps)
next
  case (Some p)
  obtain r m1 where W: "mosquitto_net_write m (pkt_unsent p) = (r, m1)" by fastforce
  consider (part) n where "0 < pkt_to_process p" "r = WLen n" "0 < n"
    | (stop) "0 < pkt_to_process p" "\<And>n. r = WLen n \<Longrightarrow> n = 0" | (fin) "\<not> 0 < pkt_to_process p"
    by blast
  then show ?thesis
  proof cases
    case part
    then show ?thesis using packet_write_partial [OF wf Some _ W [unfolded part(2)], of e] partial by blast
  next
    case stop
    then show ?thesis using packet_write_blocked [OF wf Some stop(1) W stop(2)] blocked by blast
  next
    case fin
    then show ?thesis using packet_write_next [OF wf Some, of e] next_packet by blast
  qed
qed

lemma packet_write_loop_streams: "net_wf m \<Longrightarrow> streams m [] (snd (packet_write_loop e m))"
proof (induction m rule: wf_induct_rule [OF write_order_wf])
  case (1 m)
  show ?case
  proof (rule packet_write_turn [OF \<open>net_wf m\<close>, of e])
    fix k evs m'
    assume "packet_write_loop e m = packet_write_loop e m'" "streams m [] m'" "(m', m) \<in> write_order"
    with 1 streams_trans [of m "[]" m' "[]"] show ?thesis by (simp add: streams_def)
  next
    fix m'
    assume "packet_write_loop e m = packet_write_loop e m'" "streams m [] m'" "(m', m) \<in> write_order"
    with 1 streams_trans [of m "[]" m' "[]"] show ?thesis by (simp add: streams_def)
  qed (use \<open>net_wf m\<close> in simp_all)
qed

lemma packet_write_streams:
  assumes "net_wf m" shows "streams m [] (snd (mosquitto_packet_write e m))"
proof -
  let ?m = "if ctx_out_packet m \<noteq> [] \<and> ctx_current_out_packet m = None then next_out_packet m else m"
  have S: "streams m [] ?m" using assms by (auto intro!: streams_next_out_packet)
  then have "streams ?m [] (snd (packet_write_loop e ?m))" using packet_write_loop_streams by (simp add: streams_def)
  from streams_trans [OF S this] S assms show ?thesis by (simp add: mosquitto_packet_write_def Let_def)
qed

text \<open>Progress: a socket that keeps taking bytes empties the queue.\<close>

lemma packet_write_loop_drains:
  "\<lbrakk>net_wf m; ctx_current_out_packet m = None \<Longrightarrow> ctx_out_packet m = [];
    \<forall>ev \<in> set (ctx_net_out m). \<exists>n > 0. ev = WBytes n; length (pending m) \<le> length (ctx_net_out m)\<rbrakk>
   \<Longrightarrow> fst (packet_write_loop e m) = MOSQ_ERR_SUCCESS \<and> pending (snd (packet_write_loop e m)) = []"
proof (induction m rule: wf_induct_rule [OF write_order_wf])
  case (1 m)
  show ?case
  proof (rule packet_write_turn [OF 1(2), of e])
    fix k evs m'
    assume t: "packet_write_loop e m = packet_write_loop e m'" "streams m [] m'" "(m', m) \<in> write_order"
      "ctx_net_out m = WBytes k # evs" "ctx_net_out m' = evs" "ctx_current_out_packet m' \<noteq> None"
      "length (pending m') < length (pending m)"
    then show ?thesis using 1(1) [OF t(3)] 1(4,5) by (auto simp: streams_def)
  next
    fix m'
    assume t: "packet_write_loop e m = packet_write_loop e m'" "streams m [] m'" "(m', m) \<in> write_order"
      "ctx_net_out m' = ctx_net_out m" "pending m' = pending m"
      "ctx_current_out_packet m' = None \<Longrightarrow> ctx_out_packet m' = []"
    then show ?thesis using 1(1) [OF t(3)] 1(4,5) by (simp add: streams_def)
  next
    fix rc m'
    assume t: "\<And>k evs. ctx_net_out m = WBytes k # evs \<Longrightarrow> k = 0" "pending m \<noteq> []"
    with 1(4,5) show ?thesis by (cases "ctx_net_out m") auto
  qed (use 1(3) in \<open>simp add: pending_def\<close>)
qed

section \<open>Queueing a packet\<close>

text \<open>
  The interface the send functions rely on: queueing a complete packet extends the byte
  stream of a connection by the bytes of the packet, whatever the socket does.
\<close>

locale packet_stream =
  fixes good :: "'s \<Rightarrow> bool" and grows :: "'s \<Rightarrow> byte list \<Rightarrow> 's \<Rightarrow> bool"
    and complete :: "'p \<Rightarrow> bool" and content :: "'p \<Rightarrow> byte list" and queue :: "'s \<Rightarrow> 'p \<Rightarrow> int \<times> 's"
  assumes queue_grows: "\<lbrakk>good m; complete p\<rbrakk> \<Longrightarrow> grows m (content p) (snd (queue m p))"
    and grows_good: "grows m bs m' \<Longrightarrow> good m'"
    and grows_trans: "\<lbrakk>grows m xs m'; grows m' ys m''\<rbrakk> \<Longrightarrow> grows m (xs @ ys) m''"
    and grows_refl: "good m \<Longrightarrow> grows m [] m"
begin

fun queue_all :: "'s \<Rightarrow> 'p list \<Rightarrow> 's" where
  "queue_all m [] = m"
| "queue_all m (p # ps) = queue_all (snd (queue m p)) ps"

lemma queue_all_grows:
  "\<lbrakk>good m; \<forall>p \<in> set ps. complete p\<rbrakk> \<Longrightarrow> grows m (concat (map content ps)) (queue_all m ps)"
proof (induction ps arbitrary: m)
  case Nil
  then show ?case by (simp add: grows_refl)
next
  case (Cons p ps)
  then have g: "grows m (content p) (snd (queue m p))" by (simp add: queue_grows)
  with Cons show ?case using grows_trans [OF g] grows_good [OF g] by simp
qed

end

definition pkt_complete :: "mosquitto_packet \<Rightarrow> bool" where
  "pkt_complete p \<longleftrightarrow> length (pkt_payload p) = unat (pkt_packet_length p)"

lemma packet_queue_streams:
  assumes wf: "net_wf m" and p: "pkt_complete p"
  shows "streams m (pkt_payload p) (snd (mosquitto_packet_queue e m p))"
proof -
  let ?p = "p\<lparr>pkt_pos := 0, pkt_to_process := pkt_packet_length p\<rparr>"
  let ?m = "m\<lparr>ctx_out_packet := ctx_out_packet m @ [?p]\<rparr>"
  have "streams m (pkt_payload p) ?m"
    using wf p u32_lt [of "pkt_packet_length p"]
    by (auto simp: streams_def net_wf_def stream_def pending_def send_frame_def pkt_unsent_def
        pkt_complete_def out_ready_def)
  from streams_trans [OF this packet_write_streams] this show ?thesis
    by (simp add: mosquitto_packet_queue_def Let_def streams_def)
qed

interpretation conn_stream: packet_stream net_wf streams pkt_complete pkt_payload "mosquitto_packet_queue e" for e
proof (unfold_locales)
  show "streams m (pkt_payload p) (snd (mosquitto_packet_queue e m p))"
    if "net_wf m" "pkt_complete p" for m p using that by (rule packet_queue_streams)
qed (use streams_trans in \<open>auto simp: streams_def\<close>)

section \<open>The cycle of identifiers\<close>

lemma mid_generate_unat:
  "unat (fst (mosquitto_mid_generate m)) = unat (ctx_last_mid m) mod 65535 + 1"
proof (cases "ctx_last_mid m + 1 = 0")
  case True
  then have "ctx_last_mid m = - 1" by (simp add: eq_neg_iff_add_eq_0)
  then show ?thesis by (simp add: mosquitto_mid_generate_def Let_def unsigned_minus_1_eq_mask mask_eq_exp_minus_1)
next
  case False
  then have "1 + ctx_last_mid m \<noteq> 0" by (simp add: add.commute)
  then have "unat (ctx_last_mid m + 1) = unat (ctx_last_mid m) + 1"
    using unatSuc [of "ctx_last_mid m"] by (simp add: add.commute)
  moreover from this have "unat (ctx_last_mid m) < 65535" using u16_lt [of "ctx_last_mid m + 1"] by simp
  ultimately show ?thesis using False by (simp add: mosquitto_mid_generate_def Let_def)
qed

text \<open>The identifiers that the next \<open>n\<close> calls return.\<close>

fun mid_sequence :: "nat \<Rightarrow> mosquitto \<Rightarrow> u16 list" where
  "mid_sequence 0 m = []"
| "mid_sequence (Suc n) m = (let (mid, m') = mosquitto_mid_generate m in mid # mid_sequence n m')"

lemma mid_sequence_unat:
  "map unat (mid_sequence n m) = map (\<lambda>k. (unat (ctx_last_mid m) + k) mod 65535 + 1) [0..<n]"
proof (induction n arbitrary: m)
  case (Suc n)
  let ?m = "snd (mosquitto_mid_generate m)"
  have "ctx_last_mid ?m = fst (mosquitto_mid_generate m)" by (simp add: mosquitto_mid_generate_def Let_def)
  then have last: "unat (ctx_last_mid ?m) = unat (ctx_last_mid m) mod 65535 + 1" by (simp add: mid_generate_unat)
  have "map unat (mid_sequence n ?m) = map (\<lambda>k. (unat (ctx_last_mid m) + Suc k) mod 65535 + 1) [0..<n]"
    unfolding Suc.IH last by (simp add: mod_add_left_eq add.assoc) (metis (no_types, lifting) add_Suc_right mod_Suc_eq mod_add_left_eq)
  then have "map unat (mid_sequence n ?m) = map (\<lambda>k. (unat (ctx_last_mid m) + k) mod 65535 + 1) (map Suc [0..<n])"
    by simp
  moreover have "mid_sequence (Suc n) m = fst (mosquitto_mid_generate m) # mid_sequence n ?m"
    by (simp add: case_prod_unfold Let_def)
  ultimately show ?case by (simp add: mid_generate_unat map_Suc_upt upt_conv_Cons del: upt_Suc)
qed simp

lemma add_mod_inj:
  assumes "i < n" "j < n" "(a + i) mod n = (a + j) mod (n :: nat)"
  shows "i = j"
proof -
  have "i = j" if "i \<le> j" "j < n" "(a + i) mod n = (a + j) mod n" for i j
  proof -
    have "n dvd (a + j) - (a + i)" using that mod_eq_dvd_iff_nat [of "a + i" "a + j" n] by simp
    then have "n dvd j - i" by simp
    moreover have "j - i < n" using that(2) by simp
    ultimately have "j - i = 0" using nat_dvd_not_less by blast
    then show ?thesis using that(1) by simp
  qed
  from this [of i j] this [of j i] assms show ?thesis by (cases "i \<le> j") auto
qed

lemma mid_sequence_distinct:
  assumes "n \<le> 65535" shows "distinct (mid_sequence n m) \<and> 0 \<notin> set (mid_sequence n m)"
proof -
  have "inj_on (\<lambda>k. (unat (ctx_last_mid m) + k) mod 65535 + 1) {0..<n}"
  proof (rule inj_onI)
    fix i j
    assume "i \<in> {0..<n}" "j \<in> {0..<n}"
      and eq: "(unat (ctx_last_mid m) + i) mod 65535 + 1 = (unat (ctx_last_mid m) + j) mod 65535 + 1"
    then have "i < 65535" "j < 65535" using assms by auto
    then show "i = j" by (rule add_mod_inj) (use eq in \<open>rule add_right_imp_eq\<close>)
  qed
  then have "distinct (map unat (mid_sequence n m))"
    unfolding mid_sequence_unat distinct_map by simp
  moreover have "unat mid \<noteq> 0" if "mid \<in> set (mid_sequence n m)" for mid
  proof -
    have "unat mid \<in> set (map unat (mid_sequence n m))" using that by simp
    then show ?thesis unfolding mid_sequence_unat by auto
  qed
  ultimately show ?thesis unfolding distinct_map by (metis unsigned_0)
qed

section \<open>Properties\<close>

text \<open>
  C10: Generated message identifiers are never 0 and go round in a cycle of 65535: the next
  65535 identifiers of a connection are pairwise different.
\<close>

theorem mid_generate_cycle:
  "distinct (mid_sequence 65535 m) \<and> 0 \<notin> set (mid_sequence 65535 m)"
  by (rule mid_sequence_distinct) simp

text \<open>
  C2: Outgoing packets form one byte stream.  However the socket accepts the bytes (in pieces,
  not at all, or with errors), after queueing any number of packets the bytes written so far
  followed by the bytes still queued are what they were before followed by the packets in the
  order in which they were queued, and nothing that was written is written again.
\<close>

theorem packet_queue_fifo:
  assumes "net_wf m" and "\<forall>p \<in> set ps. pkt_complete p"
    and "m' = fold (\<lambda>p m. snd (mosquitto_packet_queue e m p)) ps m"
  shows "ctx_sent m' @ pending m' = ctx_sent m @ pending m @ concat (map pkt_payload ps)
     \<and> prefix (ctx_sent m) (ctx_sent m') \<and> net_wf m'"
proof -
  have "conn_stream.queue_all e m ps = m'"
    unfolding assms(3) by (induction ps arbitrary: m) simp_all
  then show ?thesis using conn_stream.queue_all_grows [OF assms(1,2), of e]
    by (simp add: streams_def stream_def)
qed

theorem packet_queue_fifo_witness:
  "ctx_sent (fold (\<lambda>p m. snd (mosquitto_packet_queue plain_env m p))
      [packet_calloc\<lparr>pkt_payload := [0xD0, 0], pkt_packet_length := 2\<rparr>] context_calloc)
    @ pending (fold (\<lambda>p m. snd (mosquitto_packet_queue plain_env m p))
      [packet_calloc\<lparr>pkt_payload := [0xD0, 0], pkt_packet_length := 2\<rparr>] context_calloc) = [0xD0, 0]"
  using packet_queue_fifo [of context_calloc
      "[packet_calloc\<lparr>pkt_payload := [0xD0, 0], pkt_packet_length := 2\<rparr>]" _ plain_env, OF _ _ refl]
  by (simp add: net_wf_def pkt_complete_def context_calloc_def pending_def)

text \<open>
  C5: Progress.  On a connection that is past connecting, if every write accepts at least one
  byte and there are as many writes as bytes queued, one call of \<open>_mosquitto_packet_write\<close>
  succeeds and leaves nothing queued.
\<close>

theorem packet_write_drains:
  assumes "net_wf m" and "ctx_sock m \<noteq> INVALID_SOCKET" and "ctx_state m \<noteq> mosq_cs_connect_pending"
    and "\<forall>ev \<in> set (ctx_net_out m). \<exists>n > 0. ev = WBytes n" and "length (pending m) \<le> length (ctx_net_out m)"
  shows "fst (mosquitto_packet_write e m) = MOSQ_ERR_SUCCESS \<and> pending (snd (mosquitto_packet_write e m)) = []
     \<and> ctx_sent (snd (mosquitto_packet_write e m)) = ctx_sent m @ pending m"
proof -
  let ?m = "if ctx_out_packet m \<noteq> [] \<and> ctx_current_out_packet m = None then next_out_packet m else m"
  have S: "streams m [] ?m" using assms(1) by (auto intro!: streams_next_out_packet)
  have "pending ?m = pending m" "ctx_net_out ?m = ctx_net_out m" "ctx_state ?m = ctx_state m"
    "ctx_current_out_packet ?m = None \<Longrightarrow> ctx_out_packet ?m = []"
    by (cases "ctx_out_packet m"; cases "ctx_current_out_packet m"; simp add: next_out_packet_def pending_def)+
  then have "fst (packet_write_loop e ?m) = MOSQ_ERR_SUCCESS \<and> pending (snd (packet_write_loop e ?m)) = []"
    using packet_write_loop_drains [of ?m e] S assms(4,5) by (simp only: streams_def) 
  moreover have "mosquitto_packet_write e m = packet_write_loop e ?m"
    using assms(2,3) \<open>ctx_state ?m = ctx_state m\<close> by (simp add: mosquitto_packet_write_def Let_def)
  ultimately show ?thesis using packet_write_streams [OF assms(1), of e] by (simp add: streams_def stream_def)
qed

theorem packet_write_drains_witness:
  "pending (snd (mosquitto_packet_write plain_env (context_calloc\<lparr>
     ctx_out_packet := [packet_calloc\<lparr>pkt_payload := [0xD0, 0], pkt_packet_length := 2, pkt_to_process := 2\<rparr>],
     ctx_net_out := [WBytes 1, WBytes 5]\<rparr>))) = []"
  using packet_write_drains [of "context_calloc\<lparr>
     ctx_out_packet := [packet_calloc\<lparr>pkt_payload := [0xD0, 0], pkt_packet_length := 2, pkt_to_process := 2\<rparr>],
     ctx_net_out := [WBytes 1, WBytes 5]\<rparr>" plain_env]
  by (simp add: net_wf_def out_ready_def pending_def pkt_unsent_def context_calloc_def packet_calloc_def)

end
