(* ===== verification/Mosq_Net_In.thy ===== *)
theory Mosq_Net_In
  imports Mosq_Net
begin

text \<open>
  What reading a packet computes: however the bytes of a packet are cut into pieces by the
  network, and however many calls of \<open>_mosquitto_packet_read\<close> they take, the packet is the one
  that an automaton fed with single bytes builds.
\<close>

section \<open>The byte automaton\<close>

definition in_digit :: "mosquitto_packet \<Rightarrow> byte \<Rightarrow> mosquitto_packet" where
  "in_digit p b = p\<lparr>pkt_remaining_count := pkt_remaining_count p - 1,
     pkt_remaining_length := pkt_remaining_length p + ucast (b AND 127) * pkt_remaining_mult p,
     pkt_remaining_mult := pkt_remaining_mult p * 128\<rparr>"

definition in_header_end :: "allocator \<Rightarrow> mosquitto_packet \<Rightarrow> mosquitto_packet" where
  "in_header_end malloc p =
     (let p = p\<lparr>pkt_remaining_count := - pkt_remaining_count p\<rparr>; len = pkt_remaining_length p
      in if len > 0
         then case malloc (unat len) of
                None \<Rightarrow> p\<lparr>pkt_payload := []\<rparr>
              | Some buf \<Rightarrow> p\<lparr>pkt_payload := buf, pkt_to_process := len\<rparr>
         else p)"

definition in_body :: "mosquitto_packet \<Rightarrow> byte \<Rightarrow> mosquitto_packet" where
  "in_body p b = p\<lparr>pkt_payload := (pkt_payload p)[unat (pkt_pos p) := b],
     pkt_to_process := pkt_to_process p - 1, pkt_pos := pkt_pos p + 1\<rparr>"

definition in_step :: "allocator \<Rightarrow> mosquitto_packet \<Rightarrow> byte \<Rightarrow> mosquitto_packet" where
  "in_step malloc p b =
     (if pkt_command p = 0 then p\<lparr>pkt_command := b\<rparr>
      else if pkt_remaining_count p \<le> 0
      then (if b AND 128 \<noteq> 0 then in_digit p b else in_header_end malloc (in_digit p b))
      else in_body p b)"

text \<open>A packet is complete when its header has been read and no byte is missing.\<close>

definition in_complete :: "mosquitto_packet \<Rightarrow> bool" where
  "in_complete p \<longleftrightarrow> pkt_command p \<noteq> 0 \<and> 0 < pkt_remaining_count p \<and> pkt_to_process p = 0"

text \<open>The bytes a socket still has to deliver.\<close>

fun event_bytes :: "net_read_event \<Rightarrow> byte list" where
  "event_bytes (RBytes bs) = bs"
| "event_bytes (RError err) = []"

definition net_input :: "mosquitto \<Rightarrow> byte list" where
  "net_input m = concat (map event_bytes (ctx_net_in m))"

section \<open>The three stages\<close>

lemma net_read_input:
  assumes "mosquitto_net_read m count = (r, m')"
  shows "r = RLen bs \<Longrightarrow> net_input m = bs @ net_input m'" and "r = RFail err \<Longrightarrow> net_input m = net_input m'"
  using assms
  by (auto simp: mosquitto_net_read_def net_input_def split: list.splits net_read_event.splits if_splits)

lemma in_packet_add_stats [simp]: "ctx_in_packet (add_stats f m) = ctx_in_packet m"
  by (simp add: add_stats_def)

lemma net_input_upd [simp]:
  "net_input (upd_in f m) = net_input m" "net_input (count_received n m) = net_input m"
  "net_input (add_stats g m) = net_input m"
  by (simp_all add: net_input_def upd_in_def count_received_def add_stats_def)

text \<open>A socket on which every read delivers bytes until none are left.\<close>

definition delivering :: "mosquitto \<Rightarrow> bool" where
  "delivering m \<longleftrightarrow> (\<forall>ev \<in> set (ctx_net_in m). \<exists>bs. ev = RBytes bs \<and> bs \<noteq> [])"

lemma delivering_upd [simp]:
  "delivering (upd_in f m) = delivering m" "delivering (count_received n m) = delivering m"
  by (simp_all add: delivering_def upd_in_def count_received_def add_stats_def)

lemma net_read_delivering:
  assumes "delivering m" and "mosquitto_net_read m count = (r, m')"
  shows "delivering m'" and "0 < count \<Longrightarrow> net_input m \<noteq> [] \<Longrightarrow> \<exists>bs. bs \<noteq> [] \<and> r = RLen bs"
  using assms
  by (auto simp: delivering_def mosquitto_net_read_def net_input_def
      split: list.splits net_read_event.splits if_splits)

text \<open>One digit of the remaining length.\<close>

lemma remaining_length_loop_byte:
  assumes R: "mosquitto_net_read m 1 = (RLen [b], m1)"
  obtains m2 m3 where "net_input m = b # net_input m2" and "net_input m2 = net_input m3"
    and "ctx_in_packet m3 = in_digit (ctx_in_packet m) b" and "delivering m \<Longrightarrow> delivering m3"
    and "remaining_length_loop m =
        (if pkt_remaining_count (ctx_in_packet m) - 1 < -4 then (Some MOSQ_ERR_PROTOCOL, m2)
         else if b AND 128 \<noteq> 0 then remaining_length_loop m3 else (None, m3))"
proof -
  let ?m2 = "upd_in (\<lambda>p. p\<lparr>pkt_remaining_count := pkt_remaining_count p - 1\<rparr>) m1"
  let ?m3 = "count_received 1 (upd_in (\<lambda>p. p\<lparr>pkt_remaining_length := pkt_remaining_length p
      + ucast (b AND 127) * pkt_remaining_mult p, pkt_remaining_mult := pkt_remaining_mult p * 128\<rparr>) ?m2)"
  have in1: "ctx_in_packet m1 = ctx_in_packet m" by (rule net_read_fields(1) [OF R])
  show thesis
  proof (rule that [of ?m2 ?m3])
    show "remaining_length_loop m =
        (if pkt_remaining_count (ctx_in_packet m) - 1 < -4 then (Some MOSQ_ERR_PROTOCOL, ?m2)
         else if b AND 128 \<noteq> 0 then remaining_length_loop ?m3 else (None, ?m3))"
      by (subst remaining_length_loop.simps) (simp add: R [unfolded One_nat_def] in1 Let_def)
  qed (use in1 net_read_input(1) [OF R] net_read_delivering(1) [OF _ R] in \<open>simp_all add: in_digit_def\<close>)
qed

lemma remaining_length_loop_stop:
  assumes R: "mosquitto_net_read m 1 = (res, m1)" and "\<nexists>b. res = RLen [b]"
  shows "\<exists>rc. remaining_length_loop m = (Some rc, m1)" and "net_input m = net_input m1"
    and "ctx_in_packet m1 = ctx_in_packet m"
proof -
  have nil: "bs = []" if "res = RLen bs" for bs
    using net_read_fields(2) [OF R that] assms(2) that by (cases bs) auto
  then show "\<exists>rc. remaining_length_loop m = (Some rc, m1)"
    using R by (subst remaining_length_loop.simps) (auto split: net_read_result.splits)
  show "net_input m = net_input m1"
    using nil net_read_input [OF R] by (cases res) auto
qed (rule net_read_fields(1) [OF R])

text \<open>
  The digits one run of the loop takes: all but the last carry the continuation bit, and the
  last does exactly when the loop is left because no byte is available.
\<close>

definition digits_taken :: "int option \<Rightarrow> byte list \<Rightarrow> bool" where
  "digits_taken r ds \<longleftrightarrow> (r = None \<and> ds \<noteq> [] \<and> (\<forall>d \<in> set (butlast ds). d AND 128 \<noteq> 0) \<and> last ds AND 128 = 0)
     \<or> (r = Some MOSQ_ERR_SUCCESS \<and> (\<forall>d \<in> set ds. d AND 128 \<noteq> 0))"

lemma digits_taken_Cons: "b AND 128 \<noteq> 0 \<Longrightarrow> digits_taken r ds \<Longrightarrow> digits_taken r (b # ds)"
  by (auto simp: digits_taken_def)

lemma remaining_length_loop_digits:
  assumes "remaining_length_loop m = (r, m')" and "r = None \<or> r = Some MOSQ_ERR_SUCCESS"
  shows "\<exists>ds. net_input m = ds @ net_input m' \<and> digits_taken r ds
     \<and> ctx_in_packet m' = foldl in_digit (ctx_in_packet m) ds"
  using assms
proof (induction "nat (5 + pkt_remaining_count (ctx_in_packet m))" arbitrary: m rule: less_induct)
  case less
  obtain res m1 where R: "mosquitto_net_read m 1 = (res, m1)" by fastforce
  show ?case
  proof (cases "\<exists>b. res = RLen [b]")
    case False
    with remaining_length_loop_stop [OF R] less.prems show ?thesis
      by (intro exI [of _ "[]"]) (auto simp: digits_taken_def)
  next
    case True
    then obtain b where b: "res = RLen [b]" by blast
    obtain m2 m3 where step: "net_input m = b # net_input m2" "net_input m2 = net_input m3"
      "ctx_in_packet m3 = in_digit (ctx_in_packet m) b"
      "remaining_length_loop m =
        (if pkt_remaining_count (ctx_in_packet m) - 1 < -4 then (Some MOSQ_ERR_PROTOCOL, m2)
         else if b AND 128 \<noteq> 0 then remaining_length_loop m3 else (None, m3))"
      using remaining_length_loop_byte [OF R [unfolded b]] by blast
    then have few: "\<not> pkt_remaining_count (ctx_in_packet m) - 1 < -4" using less.prems by auto
    show ?thesis
    proof (cases "b AND 128 = 0")
      case True
      with step few less.prems show ?thesis by (intro exI [of _ "[b]"]) (auto simp: digits_taken_def)
    next
      case False
      have "nat (5 + pkt_remaining_count (ctx_in_packet m3)) < nat (5 + pkt_remaining_count (ctx_in_packet m))"
        using step(3) few by (simp add: in_digit_def)
      from less.hyps [OF this] step few False less.prems obtain ds where "net_input m3 = ds @ net_input m'"
        "digits_taken r ds" "ctx_in_packet m' = foldl in_digit (ctx_in_packet m3) ds" by auto
      with step False digits_taken_Cons show ?thesis by (intro exI [of _ "b # ds"]) auto
    qed
  qed
qed

lemma list_write:
  "i < length xs \<Longrightarrow> take (i + 1) (xs[i := b]) @ bs @ drop (i + 1 + length bs) (xs[i := b])
     = take i xs @ (b # bs) @ drop (i + length (b # bs)) xs"
  by (simp add: take_Suc_conv_app_nth)

text \<open>A chunk of the body, written at once, is its bytes written one by one.\<close>

lemma in_body_chunk:
  assumes "unat (pkt_pos p) + unat (pkt_to_process p) = length (pkt_payload p)"
    and "length (pkt_payload p) < 4294967296" and "length bs \<le> unat (pkt_to_process p)"
  shows "foldl in_body p bs = p\<lparr>pkt_payload := take (unat (pkt_pos p)) (pkt_payload p) @ bs
        @ drop (unat (pkt_pos p) + length bs) (pkt_payload p),
      pkt_to_process := pkt_to_process p - of_nat (length bs), pkt_pos := pkt_pos p + of_nat (length bs)\<rparr>"
  using assms
proof (induction bs arbitrary: p)
  case (Cons b bs)
  let ?q = "in_body p b"
  have pos: "unat (pkt_pos p + 1) = unat (pkt_pos p) + 1"
    using unat_add_u32 [of "pkt_pos p" 1] Cons.prems by simp
  have left: "unat (pkt_to_process p - 1) = unat (pkt_to_process p) - 1"
    using unat_sub_less_u32 [of 1 "pkt_to_process p"] Cons.prems by simp
  have q: "unat (pkt_pos ?q) = unat (pkt_pos p) + 1" "unat (pkt_to_process ?q) = unat (pkt_to_process p) - 1"
    "pkt_payload ?q = (pkt_payload p)[unat (pkt_pos p) := b]"
    using pos left by (simp_all add: in_body_def)
  have "unat (pkt_pos ?q) + unat (pkt_to_process ?q) = length (pkt_payload ?q)"
    "length (pkt_payload ?q) < 4294967296" "length bs \<le> unat (pkt_to_process ?q)"
    using Cons.prems unfolding q by simp_all
  note IH = Cons.IH [OF this]
  have i: "unat (pkt_pos p) < length (pkt_payload p)" using Cons.prems by simp
  have "foldl in_body p (b # bs) = ?q\<lparr>pkt_payload := take (unat (pkt_pos p)) (pkt_payload p) @ (b # bs)
        @ drop (unat (pkt_pos p) + length (b # bs)) (pkt_payload p),
      pkt_to_process := pkt_to_process ?q - of_nat (length bs), pkt_pos := pkt_pos ?q + of_nat (length bs)\<rparr>"
    unfolding foldl_Cons IH q list_write [OF i] ..
  also have "\<dots> = p\<lparr>pkt_payload := take (unat (pkt_pos p)) (pkt_payload p) @ (b # bs)
        @ drop (unat (pkt_pos p) + length (b # bs)) (pkt_payload p),
      pkt_to_process := pkt_to_process p - of_nat (length (b # bs)),
      pkt_pos := pkt_pos p + of_nat (length (b # bs))\<rparr>"
    by (simp add: in_body_def algebra_simps)
  finally show ?case .
qed simp


text \<open>The invariant of a packet that is being read.\<close>

definition in_span :: "mosquitto_packet \<Rightarrow> bool" where
  "in_span p \<longleftrightarrow> unat (pkt_pos p) + unat (pkt_to_process p) = length (pkt_payload p)
     \<and> length (pkt_payload p) = unat (pkt_remaining_length p)"

lemma in_body_chunk_span:
  assumes "in_span p" and "length bs \<le> unat (pkt_to_process p)"
  shows "in_span (foldl in_body p bs)"
    and "unat (pkt_to_process (foldl in_body p bs)) = unat (pkt_to_process p) - length bs"
    and "pkt_command (foldl in_body p bs) = pkt_command p"
    and "pkt_remaining_count (foldl in_body p bs) = pkt_remaining_count p"
    and "pkt_remaining_length (foldl in_body p bs) = pkt_remaining_length p"
proof -
  have len: "length (pkt_payload p) < 4294967296" using assms(1) u32_lt by (simp add: in_span_def)
  note eq = in_body_chunk [OF _ len assms(2)]
  have "length bs < 4294967296" using assms(2) u32_lt [of "pkt_to_process p"] by simp
  then have n: "unat (of_nat (length bs) :: u32) = length bs" by (rule unat_of_nat_u32)
  have pos: "unat (pkt_pos p + of_nat (length bs)) = unat (pkt_pos p) + length bs"
    using unat_add_u32 [of "pkt_pos p" "of_nat (length bs)"] assms len n by (simp add: in_span_def)
  have left: "unat (pkt_to_process p - of_nat (length bs)) = unat (pkt_to_process p) - length bs"
    using unat_sub_less_u32 [of "length bs" "pkt_to_process p"] assms(2) by (cases "bs = []") auto
  show "in_span (foldl in_body p bs)"
    "unat (pkt_to_process (foldl in_body p bs)) = unat (pkt_to_process p) - length bs"
    "pkt_command (foldl in_body p bs) = pkt_command p"
    "pkt_remaining_count (foldl in_body p bs) = pkt_remaining_count p"
    "pkt_remaining_length (foldl in_body p bs) = pkt_remaining_length p"
    using assms eq pos left by (simp_all add: in_span_def)
qed

text \<open>One turn of the payload loop.\<close>

lemma packet_read_payload_turn:
  assumes span: "in_span (ctx_in_packet m)"
  obtains (complete) "packet_read_payload e m = (None, m)" and "pkt_to_process (ctx_in_packet m) = 0"
  | (chunk) bs m' where "packet_read_payload e m = packet_read_payload e m'" and "bs \<noteq> []"
      and "net_input m = bs @ net_input m'" and "length bs \<le> unat (pkt_to_process (ctx_in_packet m))"
      and "ctx_in_packet m' = foldl in_body (ctx_in_packet m) bs"
      and "delivering m \<Longrightarrow> delivering m'"
  | (stop) rc m' where "packet_read_payload e m = (Some rc, m')" and "net_input m = net_input m'"
      and "ctx_in_packet m' = ctx_in_packet m" and "0 < pkt_to_process (ctx_in_packet m)"
      and "delivering m \<Longrightarrow> net_input m = []"
proof (cases "0 < pkt_to_process (ctx_in_packet m)")
  case False
  then have "pkt_to_process (ctx_in_packet m) = 0" by (simp add: word_gt_0)
  then show ?thesis using complete by (simp add: packet_read_payload.simps)
next
  case True
  let ?p = "ctx_in_packet m"
  obtain res m1 where R: "mosquitto_net_read m (unat (pkt_to_process ?p)) = (res, m1)" by fastforce
  note in1 = net_read_fields(1) [OF R]
  show ?thesis
  proof (cases "\<exists>bs. res = RLen bs \<and> bs \<noteq> []")
    case bs: True
    then obtain bs where bs: "res = RLen bs" "bs \<noteq> []" by blast
    have len: "length bs \<le> unat (pkt_to_process ?p)" using net_read_fields(2) [OF R bs(1)] .
    let ?m2 = "count_received (length bs) (upd_in
       (\<lambda>p. p\<lparr>pkt_payload := take (unat (pkt_pos p)) (pkt_payload p) @ bs
                @ drop (unat (pkt_pos p) + length bs) (pkt_payload p),
              pkt_to_process := pkt_to_process p - of_nat (length bs),
              pkt_pos := pkt_pos p + of_nat (length bs)\<rparr>) m1)"
    have "ctx_in_packet ?m2 = foldl in_body ?p bs"
      using in_body_chunk [OF _ _ len] span u32_lt [of "pkt_remaining_length ?p"] in1 by (simp add: in_span_def)
    moreover have "packet_read_payload e m = packet_read_payload e ?m2"
      using True R bs by (subst packet_read_payload.simps) (simp add: Let_def)
    ultimately show ?thesis
      using chunk [of ?m2 bs] bs len net_read_input(1) [OF R bs(1)] net_read_delivering(1) [OF _ R] by simp
  next
    case False
    then have "net_input m = net_input m1" using net_read_input [OF R] by (cases res) auto
    moreover have "\<exists>rc m'. packet_read_payload e m = (Some rc, m') \<and> net_input m' = net_input m1
        \<and> ctx_in_packet m' = ctx_in_packet m1"
      using True R False by (subst packet_read_payload.simps)
        (auto simp: Let_def net_input_def split: net_read_result.splits)
    moreover have "delivering m \<Longrightarrow> net_input m = []"
      using net_read_delivering(2) [OF _ R] True False by (auto simp: word_less_nat_alt)
    ultimately show ?thesis using stop True in1 by metis
  qed
qed


lemma packet_read_payload_bytes:
  assumes "packet_read_payload e m = (r, m')" and "in_span (ctx_in_packet m)"
  shows "\<exists>bs. net_input m = bs @ net_input m' \<and> length bs \<le> unat (pkt_to_process (ctx_in_packet m))
     \<and> ctx_in_packet m' = foldl in_body (ctx_in_packet m) bs
     \<and> (r = None \<longleftrightarrow> length bs = unat (pkt_to_process (ctx_in_packet m)))
     \<and> (delivering m \<longrightarrow> r = None \<or> net_input m' = [])"
  using assms
proof (induction "unat (pkt_to_process (ctx_in_packet m))" arbitrary: m rule: less_induct)
  case less
  show ?case
  proof (rule packet_read_payload_turn [OF less.prems(2), of e])
    assume "packet_read_payload e m = (None, m)" "pkt_to_process (ctx_in_packet m) = 0"
    then show ?thesis using less.prems(1) by (intro exI [of _ "[]"]) auto
  next
    fix rc m1
    assume "packet_read_payload e m = (Some rc, m1)" "net_input m = net_input m1"
      "ctx_in_packet m1 = ctx_in_packet m" "0 < pkt_to_process (ctx_in_packet m)"
      "delivering m \<Longrightarrow> net_input m = []"
    then show ?thesis using less.prems(1) by (intro exI [of _ "[]"]) (auto simp: word_less_nat_alt)
  next
    fix bs m1
    assume turn: "packet_read_payload e m = packet_read_payload e m1" "bs \<noteq> []"
      "net_input m = bs @ net_input m1" "length bs \<le> unat (pkt_to_process (ctx_in_packet m))"
      "ctx_in_packet m1 = foldl in_body (ctx_in_packet m) bs" "delivering m \<Longrightarrow> delivering m1"
    note span = in_body_chunk_span(1,2) [OF less.prems(2) turn(4), folded turn(5)]
    have "0 < length bs" using turn(2) by simp
    then have "unat (pkt_to_process (ctx_in_packet m1)) < unat (pkt_to_process (ctx_in_packet m))"
      unfolding span(2) using turn(4) by linarith
    from less.hyps [OF this] turn(1) less.prems(1) span(1)
    obtain cs where "net_input m1 = cs @ net_input m'" "length cs \<le> unat (pkt_to_process (ctx_in_packet m1))"
      "ctx_in_packet m' = foldl in_body (ctx_in_packet m1) cs"
      "r = None \<longleftrightarrow> length cs = unat (pkt_to_process (ctx_in_packet m1))"
      "delivering m1 \<longrightarrow> r = None \<or> net_input m' = []" by auto
    then show ?thesis using turn span(2) by (intro exI [of _ "bs @ cs"]) auto
  qed
qed

section \<open>Reading refines the automaton\<close>

lemma foldl_in_digit_fields [simp]:
  "pkt_command (foldl in_digit p ds) = pkt_command p"
  "pkt_remaining_count (foldl in_digit p ds) = pkt_remaining_count p - int (length ds)"
  "pkt_payload (foldl in_digit p ds) = pkt_payload p" "pkt_pos (foldl in_digit p ds) = pkt_pos p"
  "pkt_to_process (foldl in_digit p ds) = pkt_to_process p"
  by (induction ds arbitrary: p) (auto simp: in_digit_def)

lemma in_step_digits:
  "\<lbrakk>pkt_command p \<noteq> 0; pkt_remaining_count p \<le> 0; \<forall>d \<in> set ds. d AND 128 \<noteq> 0\<rbrakk>
     \<Longrightarrow> foldl (in_step malloc) p ds = foldl in_digit p ds"
proof (induction ds arbitrary: p)
  case (Cons d ds)
  have "in_step malloc p d = in_digit p d" using Cons.prems by (simp add: in_step_def)
  moreover have "pkt_command (in_digit p d) \<noteq> 0" "pkt_remaining_count (in_digit p d) \<le> 0"
    using Cons.prems by (simp_all add: in_digit_def)
  ultimately show ?case using Cons by simp
qed simp

lemma in_step_header:
  assumes "pkt_command p \<noteq> 0" and "pkt_remaining_count p \<le> 0" and "digits_taken None ds"
  shows "foldl (in_step malloc) p ds = in_header_end malloc (foldl in_digit p ds)"
proof -
  obtain es d where ds: "ds = es @ [d]" using assms(3)
    by (cases ds rule: rev_cases) (auto simp: digits_taken_def)
  then have "foldl (in_step malloc) p es = foldl in_digit p es" "d AND 128 = 0"
    using in_step_digits [OF assms(1,2), of es] assms(3) by (auto simp: digits_taken_def)
  then show ?thesis using assms(1,2) ds by (simp add: in_step_def)
qed

lemma in_step_body:
  "\<lbrakk>pkt_command p \<noteq> 0; 0 < pkt_remaining_count p\<rbrakk> \<Longrightarrow> foldl (in_step malloc) p bs = foldl in_body p bs"
proof (induction bs arbitrary: p)
  case (Cons b bs)
  have "in_step malloc p b = in_body p b" using Cons.prems by (simp add: in_step_def)
  moreover have "pkt_command (in_body p b) \<noteq> 0" "0 < pkt_remaining_count (in_body p b)"
    using Cons.prems by (simp_all add: in_body_def)
  ultimately show ?case using Cons by simp
qed simp

text \<open>A packet at rest between two calls: no header yet, or a span of the body still to come.\<close>

definition in_ok :: "mosquitto_packet \<Rightarrow> bool" where
  "in_ok p \<longleftrightarrow> (if 0 < pkt_remaining_count p then pkt_command p \<noteq> 0 \<and> in_span p
     else pkt_to_process p = 0 \<and> pkt_pos p = 0 \<and> pkt_payload p = [])"

text \<open>Bytes taken from the socket by one stage, and what they make of the packet.\<close>

definition in_takes :: "mosq_env \<Rightarrow> mosquitto \<Rightarrow> byte list \<Rightarrow> mosquitto \<Rightarrow> bool" where
  "in_takes e m bs m' \<longleftrightarrow> net_input m = bs @ net_input m' \<and> in_ok (ctx_in_packet m')
     \<and> ctx_in_packet m' = foldl (in_step (env_malloc e)) (ctx_in_packet m) bs"

lemma in_takes_trans: "\<lbrakk>in_takes e m xs m'; in_takes e m' ys m''\<rbrakk> \<Longrightarrow> in_takes e m (xs @ ys) m''"
  by (auto simp: in_takes_def)

lemma packet_read_command_takes:
  assumes C: "packet_read_command m = (r, m')" and r: "r = None \<or> r = Some MOSQ_ERR_SUCCESS"
    and ok: "in_ok (ctx_in_packet m)"
    and cmd: "pkt_command (ctx_in_packet m) = 0 \<Longrightarrow> net_input m \<noteq> [] \<Longrightarrow> hd (net_input m) \<noteq> 0"
  shows "\<exists>bs. in_takes e m bs m' \<and> (r = None \<longleftrightarrow> pkt_command (ctx_in_packet m') \<noteq> 0)"
proof (cases "pkt_command (ctx_in_packet m) = 0")
  case False
  then show ?thesis using C ok by (intro exI [of _ "[]"]) (auto simp: packet_read_command_def in_takes_def)
next
  case True
  obtain res m1 where R: "mosquitto_net_read m 1 = (res, m1)" by fastforce
  have in1: "ctx_in_packet m1 = ctx_in_packet m" by (rule net_read_fields(1) [OF R])
  show ?thesis
  proof (cases res)
    case (RFail err)
    then show ?thesis using C R True in1 ok net_read_input(2) [OF R RFail]
      by (intro exI [of _ "[]"]) (auto simp: packet_read_command_def in_takes_def)
  next
    case (RLen bs)
    then have "bs \<noteq> []" using C R True r by (auto simp: packet_read_command_def)
    then obtain b where b: "bs = [b]" using net_read_fields(2) [OF R RLen] by (cases bs) auto
    then have ni: "net_input m = b # net_input m1" using net_read_input(1) [OF R RLen] by simp
    then have "b \<noteq> 0" using cmd True by simp
    moreover have "ctx_in_packet m' = (ctx_in_packet m)\<lparr>pkt_command := b\<rparr>" "net_input m' = net_input m1" "r = None"
      using C R RLen b True in1 r by (auto simp: packet_read_command_def Let_def split: if_splits)
    ultimately show ?thesis using ni ok True
      by (intro exI [of _ "[b]"]) (auto simp: in_takes_def in_step_def in_ok_def in_span_def)
  qed
qed


lemma in_header_end_ok:
  assumes "malloc_ok malloc" and "in_ok p" and "pkt_command p \<noteq> 0" and "pkt_remaining_count p \<le> 0"
    and "ds \<noteq> []" and "q = foldl in_digit p ds"
    and "0 < pkt_remaining_length q \<Longrightarrow> malloc (unat (pkt_remaining_length q)) \<noteq> None"
  shows "in_ok (in_header_end malloc q)" and "0 < pkt_remaining_count (in_header_end malloc q)"
    and "pkt_command (in_header_end malloc q) \<noteq> 0"
proof -
  have "0 < - pkt_remaining_count q" using assms(4,5,6) by (simp add: Suc_le_eq [symmetric] flip: length_greater_0_conv)
  moreover have "pkt_command q \<noteq> 0" "pkt_pos q = 0" "pkt_payload q = []" "pkt_to_process q = 0"
    using assms(2-4,6) by (auto simp: in_ok_def)
  ultimately show "in_ok (in_header_end malloc q)" "0 < pkt_remaining_count (in_header_end malloc q)"
    "pkt_command (in_header_end malloc q) \<noteq> 0"
    using assms(1,7)
    by (auto simp: in_header_end_def Let_def in_ok_def in_span_def malloc_ok_def word_gt_0
        split: option.splits)
qed

lemma packet_read_remaining_length_takes:
  assumes L: "packet_read_remaining_length e m = (r, m')" and r: "r = None \<or> r = Some MOSQ_ERR_SUCCESS"
    and ok: "in_ok (ctx_in_packet m)" and cmd: "pkt_command (ctx_in_packet m) \<noteq> 0"
    and malloc: "malloc_ok (env_malloc e)"
  shows "\<exists>bs. in_takes e m bs m' \<and> pkt_command (ctx_in_packet m') \<noteq> 0
     \<and> (r = None \<longleftrightarrow> 0 < pkt_remaining_count (ctx_in_packet m'))"
proof (cases "0 < pkt_remaining_count (ctx_in_packet m)")
  case True
  then show ?thesis using L ok cmd
    by (intro exI [of _ "[]"]) (auto simp: packet_read_remaining_length_def in_takes_def)
next
  case False
  obtain q m1 where D: "remaining_length_loop m = (q, m1)" by fastforce
  then have q: "q = None \<or> q = Some MOSQ_ERR_SUCCESS"
    using L False r by (cases q) (auto simp: packet_read_remaining_length_def)
  from remaining_length_loop_digits [OF D q]
  obtain ds where ds: "net_input m = ds @ net_input m1" "digits_taken q ds"
    "ctx_in_packet m1 = foldl in_digit (ctx_in_packet m) ds" by blast
  show ?thesis
  proof (cases q)
    case (Some rc)
    with ds(2) have "foldl (in_step (env_malloc e)) (ctx_in_packet m) ds = foldl in_digit (ctx_in_packet m) ds"
      using in_step_digits [OF cmd] False by (auto simp: digits_taken_def)
    moreover have "r = Some rc" "m' = m1" using L False D Some by (auto simp: packet_read_remaining_length_def)
    ultimately show ?thesis using ds ok cmd False
      by (intro exI [of _ ds]) (auto simp: in_takes_def in_ok_def)
  next
    case None
    let ?p = "foldl in_digit (ctx_in_packet m) ds"
    have mal: "0 < pkt_remaining_length ?p \<Longrightarrow> env_malloc e (unat (pkt_remaining_length ?p)) \<noteq> None"
      and res: "r = None" "ctx_in_packet m' = in_header_end (env_malloc e) ?p" "net_input m' = net_input m1"
      using L False D None ds(3) r
      by (auto simp: packet_read_remaining_length_def in_header_end_def Let_def split: option.splits if_splits)
    note en = in_header_end_ok [OF malloc ok cmd _ _ refl mal]
    have "ds \<noteq> []" using ds(2) None by (simp add: digits_taken_def)
    then show ?thesis using en res ds(1) in_step_header [OF cmd _ ds(2) [unfolded None]] False
      by (intro exI [of _ ds]) (auto simp: in_takes_def)
  qed
qed

lemma packet_read_payload_takes:
  assumes P: "packet_read_payload e m = (r, m')" and ok: "in_ok (ctx_in_packet m)"
    and cmd: "0 < pkt_remaining_count (ctx_in_packet m)"
  shows "\<exists>bs. in_takes e m bs m' \<and> (r = None \<longleftrightarrow> in_complete (ctx_in_packet m'))"
proof -
  have span: "in_span (ctx_in_packet m)" "pkt_command (ctx_in_packet m) \<noteq> 0"
    using ok cmd by (auto simp: in_ok_def)
  from packet_read_payload_bytes [OF P span(1)] obtain bs where
    bs: "net_input m = bs @ net_input m'" "length bs \<le> unat (pkt_to_process (ctx_in_packet m))"
      "ctx_in_packet m' = foldl in_body (ctx_in_packet m) bs"
      "r = None \<longleftrightarrow> length bs = unat (pkt_to_process (ctx_in_packet m))" by blast
  note step = in_body_chunk_span [OF span(1) bs(2), folded bs(3)]
  have "pkt_to_process (ctx_in_packet m') = 0 \<longleftrightarrow> r = None"
    using step(2) bs(2,4) by (metis diff_is_0_eq le_antisym unat_eq_zero order_refl)
  then show ?thesis using bs step in_step_body [OF span(2) cmd] cmd span(2)
    by (intro exI [of _ bs]) (auto simp: in_takes_def in_ok_def in_complete_def)
qed

lemma packet_read_fill_stages:
  assumes "ctx_sock m \<noteq> INVALID_SOCKET" "ctx_state m \<noteq> mosq_cs_connect_pending"
    and C: "packet_read_command m = (None, m1)" and L: "packet_read_remaining_length e m1 = (None, m2)"
    and P: "packet_read_payload e m2 = (r, m3)"
  shows "\<exists>m'. packet_read_fill e m = (r, m') \<and> net_input m' = net_input m3
     \<and> ctx_in_packet m' = (if r = None then (ctx_in_packet m3)\<lparr>pkt_pos := 0\<rparr> else ctx_in_packet m3)"
proof (cases r)
  case None
  then show ?thesis using assms by (simp add: packet_read_fill_def)
next
  case (Some rc)
  then show ?thesis using assms by (simp add: packet_read_fill_def)
qed

lemma packet_read_fill_takes:
  assumes F: "packet_read_fill e m = (r, m')" and r: "r = None \<or> r = Some MOSQ_ERR_SUCCESS"
    and ok: "in_ok (ctx_in_packet m)" and malloc: "malloc_ok (env_malloc e)"
    and cmd: "pkt_command (ctx_in_packet m) = 0 \<Longrightarrow> net_input m \<noteq> [] \<Longrightarrow> hd (net_input m) \<noteq> 0"
  shows "\<exists>bs p. net_input m = bs @ net_input m' \<and> p = foldl (in_step (env_malloc e)) (ctx_in_packet m) bs
     \<and> in_ok p \<and> (r = None \<longrightarrow> in_complete p \<and> ctx_in_packet m' = p\<lparr>pkt_pos := 0\<rparr>)
     \<and> (r = Some MOSQ_ERR_SUCCESS \<longrightarrow> ctx_in_packet m' = p)"
proof (cases "ctx_sock m = INVALID_SOCKET \<or> ctx_state m = mosq_cs_connect_pending")
  case True
  then have "r = Some MOSQ_ERR_SUCCESS" "m' = m" using F r by (auto simp: packet_read_fill_def split: if_splits)
  then show ?thesis using ok by (intro exI [of _ "[]"]) auto
next
  case False
  obtain r1 m1 where C: "packet_read_command m = (r1, m1)" by fastforce
  obtain r2 m2 where L: "packet_read_remaining_length e m1 = (r2, m2)" by fastforce
  obtain r3 m3 where P: "packet_read_payload e m2 = (r3, m3)" by fastforce
  have "r1 = None \<or> r1 = Some MOSQ_ERR_SUCCESS" using F False C r
    by (cases r1) (auto simp: packet_read_fill_def)
  from packet_read_command_takes [OF C this ok cmd, of e] obtain xs where
    xs: "in_takes e m xs m1" "r1 = None \<longleftrightarrow> pkt_command (ctx_in_packet m1) \<noteq> 0" by blast
  show ?thesis
  proof (cases r1)
    case (Some rc)
    then have "m' = m1" "r = Some rc" using F False C by (auto simp: packet_read_fill_def)
    then show ?thesis using xs(1) r by (intro exI [of _ xs]) (auto simp: in_takes_def)
  next
    case None
    have "r2 = None \<or> r2 = Some MOSQ_ERR_SUCCESS" using F False C L r None
      by (cases r2) (auto simp: packet_read_fill_def)
    from packet_read_remaining_length_takes [OF L this _ _ malloc] xs None obtain ys where
      ys: "in_takes e m (xs @ ys) m2" "pkt_command (ctx_in_packet m2) \<noteq> 0"
        "r2 = None \<longleftrightarrow> 0 < pkt_remaining_count (ctx_in_packet m2)"
      using in_takes_trans by (metis in_takes_def)
    show ?thesis
    proof (cases r2)
      case (Some rc)
      then have "m' = m2" "r = Some rc" using F False C L None by (auto simp: packet_read_fill_def)
      then show ?thesis using ys(1) r by (intro exI [of _ "xs @ ys"]) (auto simp: in_takes_def)
    next
      case None2: None
      have "in_ok (ctx_in_packet m2)" "0 < pkt_remaining_count (ctx_in_packet m2)"
        using ys None2 unfolding in_takes_def by blast+
      from packet_read_payload_takes [OF P this] obtain zs where
        zs: "in_takes e m2 zs m3" "r3 = None \<longleftrightarrow> in_complete (ctx_in_packet m3)" by blast
      note all = in_takes_trans [OF ys(1) zs(1)]
      have "r = r3" "net_input m' = net_input m3"
        "ctx_in_packet m' = (if r3 = None then (ctx_in_packet m3)\<lparr>pkt_pos := 0\<rparr> else ctx_in_packet m3)"
        using packet_read_fill_stages [OF _ _ C [unfolded None] L [unfolded None2] P] False F by auto
      then show ?thesis using all zs(2) by (intro exI [of _ "(xs @ ys) @ zs"]) (auto simp: in_takes_def)
    qed
  qed
qed

section \<open>A frame on the wire\<close>

lemma remaining_length_loop_frame:
  "\<lbrakk>delivering m; net_input m = ds @ rest; rl_wf ds; int (length ds) \<le> 4 + pkt_remaining_count (ctx_in_packet m)\<rbrakk>
   \<Longrightarrow> \<exists>m'. remaining_length_loop m = (None, m') \<and> net_input m' = rest \<and> delivering m'
         \<and> ctx_in_packet m' = foldl in_digit (ctx_in_packet m) ds"
proof (induction ds arbitrary: m)
  case (Cons d ds)
  obtain res m1 where R: "mosquitto_net_read m 1 = (res, m1)" by fastforce
  obtain bs where "bs \<noteq> []" "res = RLen bs" using net_read_delivering(2) [OF Cons.prems(1) R] Cons.prems(2) by auto
  then have "res = RLen [d]" using net_read_fields(2) [OF R] net_read_input(1) [OF R] Cons.prems(2)
    by (cases bs) auto
  then obtain m2 m3 where step: "net_input m = d # net_input m2" "net_input m2 = net_input m3"
    "ctx_in_packet m3 = in_digit (ctx_in_packet m) d" "delivering m \<Longrightarrow> delivering m3"
    "remaining_length_loop m =
      (if pkt_remaining_count (ctx_in_packet m) - 1 < -4 then (Some MOSQ_ERR_PROTOCOL, m2)
       else if d AND 128 \<noteq> 0 then remaining_length_loop m3 else (None, m3))"
    using remaining_length_loop_byte [of m d m1] R by blast
  have few: "\<not> pkt_remaining_count (ctx_in_packet m) - 1 < -4" using Cons.prems(4) by simp
  show ?case
  proof (cases "ds = []")
    case True
    then show ?thesis using step few Cons.prems by auto
  next
    case False
    then have "d AND 128 \<noteq> 0" "rl_wf ds" using Cons.prems(3) by (simp_all add: rl_wf_Cons)
    moreover have "\<exists>m'. remaining_length_loop m3 = (None, m') \<and> net_input m' = rest \<and> delivering m'
        \<and> ctx_in_packet m' = foldl in_digit (ctx_in_packet m3) ds"
      by (rule Cons.IH) (use step Cons.prems \<open>rl_wf ds\<close> in \<open>auto simp: in_digit_def\<close>)
    ultimately show ?thesis using step few by auto
  qed
qed simp

lemma foldl_in_digit_length:
  "pkt_remaining_length (foldl in_digit p ds)
     = pkt_remaining_length p + pkt_remaining_mult p * of_nat (rl_value ds)"
proof (induction ds arbitrary: p)
  case (Cons d ds)
  have "ucast (d AND 127) = (of_nat (unat (d AND 127)) :: u32)" by simp
  then show ?case using Cons [of "in_digit p d"] by (simp add: in_digit_def algebra_simps)
qed simp

text \<open>The state in which \<open>_mosquitto_packet_cleanup\<close> leaves the incoming packet.\<close>

definition in_fresh :: "mosquitto_packet \<Rightarrow> bool" where
  "in_fresh p \<longleftrightarrow> pkt_command p = 0 \<and> pkt_remaining_count p = 0 \<and> pkt_remaining_mult p = 1
     \<and> pkt_remaining_length p = 0 \<and> pkt_payload p = [] \<and> pkt_to_process p = 0 \<and> pkt_pos p = 0"

lemma packet_cleanup_fresh [simp]: "in_fresh (mosquitto_packet_cleanup p)"
  by (simp add: in_fresh_def mosquitto_packet_cleanup_def)

lemma packet_read_command_frame:
  assumes "delivering m" and "net_input m = cmd # rest" and "pkt_command (ctx_in_packet m) = 0"
    and "ctx_bridge m = None \<Longrightarrow> ctx_state m = mosq_cs_new \<Longrightarrow> cmd AND 0xF0 = CONNECT"
  shows "\<exists>m'. packet_read_command m = (None, m') \<and> net_input m' = rest \<and> delivering m'
     \<and> ctx_in_packet m' = (ctx_in_packet m)\<lparr>pkt_command := cmd\<rparr>"
proof -
  obtain res m1 where R: "mosquitto_net_read m 1 = (res, m1)" by fastforce
  obtain bs where "bs \<noteq> []" "res = RLen bs" using net_read_delivering(2) [OF assms(1) R] assms(2) by auto
  then have "res = RLen [cmd]" and ni: "net_input m1 = rest"
    using net_read_fields(2) [OF R] net_read_input(1) [OF R] assms(2) by (cases bs; auto)+
  moreover have "ctx_bridge m1 = ctx_bridge m" "ctx_state m1 = ctx_state m"
    using R by (auto simp: mosquitto_net_read_def split: list.splits net_read_event.splits)
  ultimately show ?thesis
    using R assms(3,4) net_read_fields(1) [OF R] net_read_delivering(1) [OF assms(1) R]
    by (auto simp: packet_read_command_def Let_def count_received_def upd_in_def add_stats_def
        net_input_def delivering_def)
qed

lemma packet_read_remaining_length_frame:
  assumes "delivering m" and "net_input m = remaining_bytes_loop 5 len @ rest"
    and "pkt_remaining_count (ctx_in_packet m) = 0" "pkt_remaining_mult (ctx_in_packet m) = 1"
      "pkt_remaining_length (ctx_in_packet m) = 0"
    and len: "unat len \<le> MQTT_MAX_PAYLOAD" and "0 < len \<Longrightarrow> env_malloc e (unat len) \<noteq> None"
  shows "\<exists>m' p. packet_read_remaining_length e m = (None, m') \<and> net_input m' = rest \<and> delivering m'
     \<and> p = foldl in_digit (ctx_in_packet m) (remaining_bytes_loop 5 len) \<and> pkt_remaining_length p = len
     \<and> ctx_in_packet m' = in_header_end (env_malloc e) p"
proof -
  let ?ds = "remaining_bytes_loop 5 len"
  have "length ?ds \<le> Suc 3" by (rule loop_length) (use len in simp)
  moreover have "rl_wf ?ds" by (rule loop_wf) (use len in simp_all)
  ultimately obtain m' where m': "remaining_length_loop m = (None, m')" "net_input m' = rest" "delivering m'"
    "ctx_in_packet m' = foldl in_digit (ctx_in_packet m) ?ds"
    using remaining_length_loop_frame [OF assms(1,2)] assms(3) by auto
  have "rl_value ?ds = unat len" by (rule loop_value) (use len in simp)
  then have "pkt_remaining_length (foldl in_digit (ctx_in_packet m) ?ds) = len"
    using assms(4,5) by (simp add: foldl_in_digit_length)
  then show ?thesis using m' assms(3,7)
    by (auto simp: packet_read_remaining_length_def in_header_end_def Let_def split: option.splits)
qed

lemma foldl_in_body_full:
  assumes "in_span p" and "pkt_pos p = 0" and "length bs = unat (pkt_to_process p)"
  shows "pkt_payload (foldl in_body p bs) = bs"
proof -
  have "length (pkt_payload p) = length bs" using assms by (simp add: in_span_def)
  moreover have "length (pkt_payload p) < 4294967296" using assms(1) u32_lt by (simp add: in_span_def)
  ultimately show ?thesis using assms in_body_chunk [of p bs] by (simp add: in_span_def)
qed

lemma packet_read_frame:
  assumes malloc: "malloc_ok (env_malloc e)" "\<And>n. env_malloc e n \<noteq> None"
    and conn: "ctx_sock m \<noteq> INVALID_SOCKET" "ctx_state m \<noteq> mosq_cs_connect_pending"
    and new: "ctx_bridge m = None \<Longrightarrow> ctx_state m = mosq_cs_new \<Longrightarrow> cmd AND 0xF0 = CONNECT"
    and fresh: "in_fresh (ctx_in_packet m)" and cmd: "cmd \<noteq> 0" and deliv: "delivering m"
    and input: "net_input m = fixed_header cmd len @ body @ rest"
    and len: "unat len \<le> MQTT_MAX_PAYLOAD" "length body = unat len"
  shows "\<exists>m'. packet_read_fill e m = (None, m') \<and> net_input m' = rest
     \<and> pkt_command (ctx_in_packet m') = cmd \<and> pkt_rest (ctx_in_packet m') = body \<and> in_wf (ctx_in_packet m')"
proof -
  note f = fresh [unfolded in_fresh_def]
  have "\<exists>m'. packet_read_command m = (None, m') \<and> net_input m' = remaining_bytes_loop 5 len @ body @ rest
      \<and> delivering m' \<and> ctx_in_packet m' = (ctx_in_packet m)\<lparr>pkt_command := cmd\<rparr>"
    by (rule packet_read_command_frame [OF deliv _ _ new]) (use input f in \<open>simp_all add: fixed_header_def\<close>)
  then obtain m1 where C: "packet_read_command m = (None, m1)" and m1: "net_input m1 = remaining_bytes_loop 5 len @ body @ rest"
    "delivering m1" "ctx_in_packet m1 = (ctx_in_packet m)\<lparr>pkt_command := cmd\<rparr>" by blast
  have "\<exists>m' p. packet_read_remaining_length e m1 = (None, m') \<and> net_input m' = body @ rest \<and> delivering m'
      \<and> p = foldl in_digit (ctx_in_packet m1) (remaining_bytes_loop 5 len) \<and> pkt_remaining_length p = len
      \<and> ctx_in_packet m' = in_header_end (env_malloc e) p"
    by (rule packet_read_remaining_length_frame [OF m1(2,1) _ _ _ len(1) malloc(2)]) (use m1(3) f in simp_all)
  then obtain m2 p where L: "packet_read_remaining_length e m1 = (None, m2)" and m2: "net_input m2 = body @ rest"
    "delivering m2" "p = foldl in_digit (ctx_in_packet m1) (remaining_bytes_loop 5 len)"
    "pkt_remaining_length p = len" "ctx_in_packet m2 = in_header_end (env_malloc e) p" by blast
  let ?q = "ctx_in_packet m2"
  have p: "pkt_pos p = 0" "pkt_payload p = []" "pkt_to_process p = 0" "pkt_command p = cmd"
    using m2(3) m1(3) f by simp_all
  obtain buf where buf: "env_malloc e (unat len) = Some buf" "length buf = unat len"
    using malloc(1) malloc(2) [of "unat len"] unfolding malloc_ok_def by blast
  have q: "in_span ?q" "pkt_pos ?q = 0" "pkt_to_process ?q = len" "pkt_command ?q = cmd" "pkt_remaining_length ?q = len"
    using m2(4,5) p buf by (auto simp: in_header_end_def in_span_def Let_def word_gt_0)
  obtain r m3 where P: "packet_read_payload e m2 = (r, m3)" by fastforce
  from packet_read_payload_bytes [OF P q(1)] obtain bs where bs: "net_input m2 = bs @ net_input m3"
    "length bs \<le> unat len" "ctx_in_packet m3 = foldl in_body ?q bs" "r = None \<longleftrightarrow> length bs = unat len"
    "r = None \<or> net_input m3 = []" using q(3) m2(2) by auto
  then have "length bs = unat len" using m2(1) len(2) by auto
  then have "bs = body" "net_input m3 = rest" "r = None" using bs(1,4) m2(1) len(2) by auto
  then have p3: "pkt_payload (ctx_in_packet m3) = body" "pkt_command (ctx_in_packet m3) = cmd"
    "pkt_remaining_length (ctx_in_packet m3) = len"
    using bs(3) foldl_in_body_full [OF q(1,2), of body] in_body_chunk_span [OF q(1), of body] q len(2) by simp_all
  obtain m' where "packet_read_fill e m = (None, m')" "net_input m' = rest"
    "ctx_in_packet m' = (ctx_in_packet m3)\<lparr>pkt_pos := 0\<rparr>"
    using packet_read_fill_stages [OF conn C L P] \<open>r = None\<close> \<open>net_input m3 = rest\<close> by auto
  then show ?thesis using p3 len by (simp add: in_wf_def pkt_rest_def)
qed

section \<open>Properties\<close>

text \<open>A connection on which a PINGREQ and the start of another packet arrive in three pieces.\<close>

definition ping_conn :: mosquitto where
  "ping_conn = context_calloc\<lparr>ctx_sock := 5, ctx_state := mosq_cs_connected,
     ctx_in_packet := mosquitto_packet_cleanup packet_calloc,
     ctx_net_in := [RBytes [0xC0], RBytes [0], RBytes [0xC0]]\<rparr>"

declare packet_read_fill_def [net_simps] packet_read_command_def [net_simps]
  mosquitto_net_read_def [net_simps] packet_read_remaining_length_def [net_simps]
  remaining_length_loop.simps [net_simps] packet_read_payload.simps [net_simps] upd_in_def [net_simps]
  count_received_def [net_simps] add_stats_def [net_simps] context_calloc_def [net_simps]
  packet_calloc_def [net_simps] mosquitto_packet_cleanup_def [net_simps]

lemma remaining_bytes_0: "remaining_bytes_loop 5 0 = [0]"
  by (simp add: eval_nat_numeral)

lemma ping_conn_read: "fst (packet_read_fill plain_env ping_conn) = None"
  by (simp add: ping_conn_def net_simps Let_def)

lemma plain_env_malloc: "malloc_ok (env_malloc plain_env)" "env_malloc plain_env n \<noteq> None"
  by (simp_all add: malloc_ok_def plain_env_def)



text \<open>
  C4: A frame that arrives on the socket (a command byte, the encoded remaining length and as
  many bytes as it says) is read completely in one call when the bytes are there, in pieces of
  any size: the handler gets the command and the body, and the bytes behind the frame stay on
  the socket for the next packet.
\<close>

theorem packet_read_delivers_frame:
  assumes "malloc_ok (env_malloc e)" "\<And>n. env_malloc e n \<noteq> None"
    and "ctx_sock m \<noteq> INVALID_SOCKET" "ctx_state m \<noteq> mosq_cs_connect_pending"
    and "ctx_bridge m = None \<Longrightarrow> ctx_state m = mosq_cs_new \<Longrightarrow> cmd AND 0xF0 = CONNECT"
    and "in_fresh (ctx_in_packet m)" and "cmd \<noteq> 0" and "delivering m"
    and "net_input m = fixed_header cmd len @ body @ rest"
    and "unat len \<le> MQTT_MAX_PAYLOAD" and "length body = unat len"
  shows "\<exists>m'. packet_read_fill e m = (None, m') \<and> net_input m' = rest
     \<and> pkt_command (ctx_in_packet m') = cmd \<and> pkt_rest (ctx_in_packet m') = body \<and> in_wf (ctx_in_packet m')"
  using packet_read_frame [OF assms] .

theorem packet_read_delivers_frame_witness:
  "\<exists>m'. packet_read_fill plain_env ping_conn = (None, m') \<and> net_input m' = [0xC0]
     \<and> pkt_command (ctx_in_packet m') = PINGREQ \<and> pkt_rest (ctx_in_packet m') = [] \<and> in_wf (ctx_in_packet m')"
  by (rule packet_read_delivers_frame [where len = 0])
    (simp_all add: plain_env_malloc ping_conn_def delivering_def net_input_def fixed_header_def
      remaining_bytes_0 context_calloc_def)

end
