(* ===== verification/Mosq_Send.thy ===== *)
theory Mosq_Send
  imports Mosq_Net_In
begin

text \<open>
  The packets a connection sends (\<open>send_mosq.c\<close>, \<open>send_server.c\<close>, \<open>send_client_mosq.c\<close>).  Every
  send function sets up a packet, allocates its buffer, writes the fields and queues it.  A failed
  assertion or a write outside the buffer sets \<open>ctx_aborted\<close>.  The fixed-size packet structure
  itself is always obtained; the buffer comes from the allocator of the environment.
\<close>

section \<open>Building and queueing\<close>

text \<open>A store to \<open>payload[pos + i]\<close> without a check by the code.\<close>

definition pkt_poke :: "nat \<Rightarrow> byte \<Rightarrow> mosquitto_packet \<Rightarrow> mosquitto_packet option" where
  "pkt_poke i b packet =
     (if unat (pkt_pos packet) + i < length (pkt_payload packet)
      then Some (packet\<lparr>pkt_payload := (pkt_payload packet)[unat (pkt_pos packet) + i := b]\<rparr>)
      else None)"

definition queue_or_abort ::
    "mosq_env \<Rightarrow> mosquitto \<Rightarrow> mosquitto_packet option \<Rightarrow> int \<times> mosquitto" where
  "queue_or_abort e m packet =
     (case packet of
        None \<Rightarrow> (MOSQ_ERR_ERRNO, m\<lparr>ctx_aborted := True\<rparr>)
      | Some packet \<Rightarrow> mosquitto_packet_queue e m packet)"

definition send_packet :: "mosq_env \<Rightarrow> mosquitto \<Rightarrow> mosquitto_packet
    \<Rightarrow> (mosquitto_packet \<Rightarrow> mosquitto_packet option) \<Rightarrow> int \<times> mosquitto" where
  "send_packet e m packet put_fields =
     (case mosquitto_packet_alloc (env_malloc e) packet of
        (rc, packet) \<Rightarrow> if rc \<noteq> 0 then (rc, m) else queue_or_abort e m (put_fields packet))"

definition new_packet :: "u8 \<Rightarrow> u32 \<Rightarrow> mosquitto_packet" where
  "new_packet command remaining_length =
     packet_calloc\<lparr>pkt_command := command, pkt_remaining_length := remaining_length\<rparr>"

definition strlen16 :: "byte list \<Rightarrow> u16" where
  "strlen16 s = of_nat (length s)"

section \<open>The send functions\<close>

definition mosquitto_send_simple_command :: "mosq_env \<Rightarrow> mosquitto \<Rightarrow> u8 \<Rightarrow> int \<times> mosquitto" where
  "mosquitto_send_simple_command e m command = send_packet e m (new_packet command 0) Some"

definition mosquitto_send_command_with_mid ::
    "mosq_env \<Rightarrow> mosquitto \<Rightarrow> u8 \<Rightarrow> u16 \<Rightarrow> bool \<Rightarrow> int \<times> mosquitto" where
  "mosquitto_send_command_with_mid e m command mid dup =
     send_packet e m (new_packet (if dup then command OR 8 else command) 2)
       (\<lambda>packet. Option.bind (pkt_poke 0 (MOSQ_MSB mid) packet) (pkt_poke 1 (MOSQ_LSB mid)))"

definition mosquitto_send_pingreq :: "mosq_env \<Rightarrow> mosquitto \<Rightarrow> int \<times> mosquitto" where
  "mosquitto_send_pingreq e m =
     (case mosquitto_send_simple_command e m PINGREQ of
        (rc, m) \<Rightarrow> (rc, if rc = MOSQ_ERR_SUCCESS then m\<lparr>ctx_ping_t := env_now e\<rparr> else m))"

definition mosquitto_send_pingresp :: "mosq_env \<Rightarrow> mosquitto \<Rightarrow> int \<times> mosquitto" where
  "mosquitto_send_pingresp e m = mosquitto_send_simple_command e m PINGRESP"

definition mosquitto_send_puback :: "mosq_env \<Rightarrow> mosquitto \<Rightarrow> u16 \<Rightarrow> int \<times> mosquitto" where
  "mosquitto_send_puback e m mid = mosquitto_send_command_with_mid e m PUBACK mid False"

definition mosquitto_send_pubcomp :: "mosq_env \<Rightarrow> mosquitto \<Rightarrow> u16 \<Rightarrow> int \<times> mosquitto" where
  "mosquitto_send_pubcomp e m mid = mosquitto_send_command_with_mid e m PUBCOMP mid False"

definition mosquitto_send_pubrec :: "mosq_env \<Rightarrow> mosquitto \<Rightarrow> u16 \<Rightarrow> int \<times> mosquitto" where
  "mosquitto_send_pubrec e m mid = mosquitto_send_command_with_mid e m PUBREC mid False"

definition mosquitto_send_pubrel :: "mosq_env \<Rightarrow> mosquitto \<Rightarrow> u16 \<Rightarrow> int \<times> mosquitto" where
  "mosquitto_send_pubrel e m mid = mosquitto_send_command_with_mid e m (PUBREL OR 2) mid False"

definition publish_command :: "int \<Rightarrow> bool \<Rightarrow> bool \<Rightarrow> u8" where
  "publish_command qos retain dup =
     PUBLISH OR push_bit 3 (of_bool dup) OR push_bit 1 (of_int qos) OR of_bool retain"

definition mosquitto_send_real_publish :: "mosq_env \<Rightarrow> mosquitto \<Rightarrow> u16 \<Rightarrow> string \<Rightarrow> u32 \<Rightarrow> byte list
    \<Rightarrow> int \<Rightarrow> bool \<Rightarrow> bool \<Rightarrow> int \<times> mosquitto" where
  "mosquitto_send_real_publish e m mid topic payloadlen payload qos retain dup =
     (let packetlen = 2 + of_nat (length topic) + payloadlen;
          packetlen = (if qos > 0 then packetlen + 2 else packetlen);
          topic = bytes_of_string topic
      in send_packet e m ((new_packet (publish_command qos retain dup) packetlen)\<lparr>pkt_mid := mid\<rparr>)
           (\<lambda>packet.
              Option.bind (mosquitto_write_string packet topic (strlen16 topic)) (\<lambda>packet.
              Option.bind (if qos > 0 then mosquitto_write_uint16 packet mid else Some packet) (\<lambda>packet.
              if payloadlen \<noteq> 0 then mosquitto_write_bytes packet payload payloadlen else Some packet))))"

text \<open>
  The loop over the topics of a bridge in \<open>_mosquitto_send_publish\<close>: an error of the matcher ends
  it, the first mapping whose local pattern matches gives the remote topic.
\<close>

definition map_topic :: "string option \<Rightarrow> string option \<Rightarrow> string \<Rightarrow> string" where
  "map_topic remove add topic =
     (let topic = (case remove of
                     None \<Rightarrow> topic
                   | Some p \<Rightarrow> if take (length p) topic = p then drop (length p) topic else topic)
      in case add of None \<Rightarrow> topic | Some p \<Rightarrow> p @ topic)"

fun bridge_map_out :: "mqtt3_bridge_topic list \<Rightarrow> string \<Rightarrow> string option cres" where
  "bridge_map_out [] topic = Ok None"
| "bridge_map_out (cur_topic # topics) topic =
     (if (bt_direction cur_topic = bd_both \<or> bt_direction cur_topic = bd_out)
         \<and> (bt_remote_prefix cur_topic \<noteq> None \<or> bt_local_prefix cur_topic \<noteq> None)
      then case mosquitto_topic_matches_sub (bt_local_topic cur_topic) topic of
             (rc, match) \<Rightarrow>
               if rc \<noteq> 0 then Err rc
               else if match = Some True
               then Ok (Some (map_topic (bt_local_prefix cur_topic) (bt_remote_prefix cur_topic) topic))
               else bridge_map_out topics topic
      else bridge_map_out topics topic)"

definition publish_counted :: "mosq_env \<Rightarrow> mosquitto \<Rightarrow> u16 \<Rightarrow> u32 \<Rightarrow> byte list
    \<Rightarrow> int \<Rightarrow> bool \<Rightarrow> bool \<Rightarrow> string \<Rightarrow> int \<times> mosquitto" where
  "publish_counted e m mid payloadlen payload qos retain dup topic =
     mosquitto_send_real_publish e
       (add_stats (\<lambda>s. s\<lparr>g_pub_bytes_sent := g_pub_bytes_sent s + ucast payloadlen\<rparr>) m)
       mid topic payloadlen payload qos retain dup"

definition publish_remapped :: "mosq_env \<Rightarrow> mosquitto \<Rightarrow> u16 \<Rightarrow> u32 \<Rightarrow> byte list
    \<Rightarrow> int \<Rightarrow> bool \<Rightarrow> bool \<Rightarrow> string \<Rightarrow> int \<times> mosquitto" where
  "publish_remapped e m mid payloadlen payload qos retain dup topic =
     (case ctx_bridge m of
        None \<Rightarrow> publish_counted e m mid payloadlen payload qos retain dup topic
      | Some bridge \<Rightarrow>
          if br_topics bridge \<noteq> [] \<and> br_topic_remapping bridge
          then case bridge_map_out (br_topics bridge) topic of
                 Err rc \<Rightarrow> (rc, m)
               | Abort \<Rightarrow> (MOSQ_ERR_ERRNO, m\<lparr>ctx_aborted := True\<rparr>)
               | Ok None \<Rightarrow> publish_counted e m mid payloadlen payload qos retain dup topic
               | Ok (Some mapped_topic) \<Rightarrow>
                   publish_counted e m mid payloadlen payload qos retain dup mapped_topic
          else publish_counted e m mid payloadlen payload qos retain dup topic)"

definition mosquitto_send_publish :: "mosq_env \<Rightarrow> mosquitto \<Rightarrow> u16 \<Rightarrow> string option \<Rightarrow> u32 \<Rightarrow> byte list
    \<Rightarrow> int \<Rightarrow> bool \<Rightarrow> bool \<Rightarrow> int \<times> mosquitto" where
  "mosquitto_send_publish e m mid topic_arg payloadlen payload qos retain dup =
     (case topic_arg of
        None \<Rightarrow> (MOSQ_ERR_ERRNO, m\<lparr>ctx_aborted := True\<rparr>)
      | Some topic \<Rightarrow>
          if ctx_sock m = INVALID_SOCKET then (MOSQ_ERR_NO_CONN, m)
          else case mount_point e m of
                 Some mount \<Rightarrow>
                   if length mount < length topic
                   then publish_remapped e m mid payloadlen payload qos retain dup (drop (length mount) topic)
                   else (MOSQ_ERR_SUCCESS, m)
               | None \<Rightarrow> publish_remapped e m mid payloadlen payload qos retain dup topic)"

definition mosquitto_send_connack :: "mosq_env \<Rightarrow> mosquitto \<Rightarrow> u8 \<Rightarrow> u8 \<Rightarrow> int \<times> mosquitto" where
  "mosquitto_send_connack e m ack result =
     send_packet e m (new_packet CONNACK 2)
       (\<lambda>packet. Option.bind (pkt_poke 0 ack packet) (pkt_poke 1 result))"

definition mosquitto_send_suback ::
    "mosq_env \<Rightarrow> mosquitto \<Rightarrow> u16 \<Rightarrow> u32 \<Rightarrow> byte list \<Rightarrow> int \<times> mosquitto" where
  "mosquitto_send_suback e m mid payloadlen payload =
     send_packet e m (new_packet SUBACK (2 + payloadlen))
       (\<lambda>packet.
          Option.bind (mosquitto_write_uint16 packet mid) (\<lambda>packet.
          if payloadlen \<noteq> 0 then mosquitto_write_bytes packet payload payloadlen else Some packet))"

definition mosquitto_send_disconnect :: "mosq_env \<Rightarrow> mosquitto \<Rightarrow> int \<times> mosquitto" where
  "mosquitto_send_disconnect e m = mosquitto_send_simple_command e m DISCONNECT"

definition mosquitto_send_subscribe ::
    "mosq_env \<Rightarrow> mosquitto \<Rightarrow> string \<Rightarrow> u8 \<Rightarrow> int \<times> mosquitto" where
  "mosquitto_send_subscribe e m topic topic_qos =
     (let topic = bytes_of_string topic in
      case mosquitto_packet_alloc (env_malloc e)
             (new_packet (SUBSCRIBE OR 2) (2 + 2 + of_nat (length topic) + 1)) of
        (rc, packet) \<Rightarrow>
          if rc \<noteq> 0 then (rc, m)
          else case mosquitto_mid_generate m of
                 (local_mid, m) \<Rightarrow>
                   queue_or_abort e m
                     (Option.bind (mosquitto_write_uint16 packet local_mid) (\<lambda>packet.
                      Option.bind (mosquitto_write_string packet topic (strlen16 topic)) (\<lambda>packet.
                      mosquitto_write_byte packet topic_qos))))"

definition mosquitto_send_unsubscribe :: "mosq_env \<Rightarrow> mosquitto \<Rightarrow> string \<Rightarrow> int \<times> mosquitto" where
  "mosquitto_send_unsubscribe e m topic =
     (let topic = bytes_of_string topic in
      case mosquitto_packet_alloc (env_malloc e)
             (new_packet (UNSUBSCRIBE OR 2) (2 + 2 + of_nat (length topic))) of
        (rc, packet) \<Rightarrow>
          if rc \<noteq> 0 then (rc, m)
          else case mosquitto_mid_generate m of
                 (local_mid, m) \<Rightarrow>
                   queue_or_abort e m
                     (Option.bind (mosquitto_write_uint16 packet local_mid) (\<lambda>packet.
                      mosquitto_write_string packet topic (strlen16 topic))))"


section \<open>What is sent\<close>

text \<open>
  The outcome of a send function that is meant to send \<open>bs\<close>: the stream of the connection
  grows by exactly these bytes, or nothing happens because there is no memory.
\<close>

definition sends :: "mosq_env \<Rightarrow> mosquitto \<Rightarrow> byte list \<Rightarrow> int \<times> mosquitto \<Rightarrow> bool" where
  "sends e m bs r \<longleftrightarrow>
     (if env_malloc e (length bs) = None then r = (MOSQ_ERR_NOMEM, m) else streams m bs (snd r))"

lemma alloc_size:
  assumes "unat n \<le> MQTT_MAX_PAYLOAD"
  shows "unat (n + 1 + of_nat (length (remaining_bytes_loop 5 n))) = length (fixed_header c n) + unat n"
proof -
  let ?l = "length (remaining_bytes_loop 5 n)"
  have l: "?l \<le> 4" using loop_length_5 [of n] loop_length [of n 3 5] assms by simp
  then have "unat (1 + of_nat ?l :: u32) = 1 + ?l" by (simp add: unat_add_u32 unat_of_nat_u32)
  then show ?thesis using l assms unat_add_u32 [of n "1 + of_nat ?l"]
    by (simp add: fixed_header_def add.assoc)
qed

lemma puts_complete:
  assumes "out_packet.puts p bs q" and "pkt_room p = length bs"
  shows "pkt_complete q \<and> pkt_payload q = pkt_written p @ bs"
proof -
  have q: "out_wf q" "pkt_written q = pkt_written p @ bs" "pkt_room q = 0"
    using assms by (simp_all add: out_packet.puts_def)
  then have "unat (pkt_pos q) = length (pkt_payload q)" by (simp add: out_wf_def pkt_room_def)
  with q show ?thesis by (simp add: pkt_complete_def out_wf_def pkt_written_def)
qed

lemma update_last_two: "length xs = i + 2 \<Longrightarrow> xs[i := a, Suc i := b] = take i xs @ [a, b]"
  by (rule nth_equalityI) (auto simp: nth_append nth_list_update less_Suc_eq)

lemma pokes_complete:
  assumes "out_wf p" and "pkt_room p = 2"
  shows "\<exists>q. Option.bind (pkt_poke 0 a p) (pkt_poke 1 b) = Some q
     \<and> pkt_complete q \<and> pkt_payload q = pkt_written p @ [a, b]"
proof -
  let ?i = "unat (pkt_pos p)"
  have len: "length (pkt_payload p) = ?i + 2" using assms by (simp add: out_wf_def pkt_room_def)
  then have "(pkt_payload p)[?i := a, Suc ?i := b] = take ?i (pkt_payload p) @ [a, b]"
    by (rule update_last_two)
  then show ?thesis using assms len
    by (simp add: pkt_poke_def pkt_complete_def pkt_written_def out_wf_def)
qed

lemma send_packet_sends:
  assumes malloc: "malloc_ok (env_malloc e)" and wf: "net_wf m"
    and len: "unat (pkt_remaining_length p) \<le> MQTT_MAX_PAYLOAD"
    and bs: "length bs = unat (pkt_remaining_length p)"
    and put: "\<And>q. out_wf q \<Longrightarrow> pkt_room q = unat (pkt_remaining_length p) \<Longrightarrow>
       \<exists>q'. put_fields q = Some q' \<and> pkt_complete q' \<and> pkt_payload q' = pkt_written q @ bs"
  shows "sends e m (fixed_header (pkt_command p) (pkt_remaining_length p) @ bs) (send_packet e m p put_fields)"
proof -
  obtain rc q where A: "mosquitto_packet_alloc (env_malloc e) p = (rc, q)" by fastforce
  let ?bs = "fixed_header (pkt_command p) (pkt_remaining_length p) @ bs"
  have rc: "rc = (if env_malloc e (length ?bs) = None then MOSQ_ERR_NOMEM else MOSQ_ERR_SUCCESS)"
    using A len bs mosquitto_packet_alloc_rc [of "env_malloc e" p] alloc_size [OF len, of "pkt_command p"] by simp
  show ?thesis
  proof (cases "rc = 0")
    case True
    note ok = mosquitto_packet_alloc_ok [OF malloc len A [unfolded True]]
    from put [OF ok(1,3)] obtain q' where "put_fields q = Some q'" "pkt_complete q'"
      "pkt_payload q' = fixed_header (pkt_command p) (pkt_remaining_length p) @ bs" unfolding ok(2) by blast
    then show ?thesis using A True rc packet_queue_streams [OF wf, of q' e]
      by (auto simp: send_packet_def queue_or_abort_def sends_def split: if_splits)
  next
    case False
    then show ?thesis using A rc by (simp add: send_packet_def sends_def split: if_splits)
  qed
qed


text \<open>The bytes of the packets.\<close>

lemma fixed_header_small: "unat n < 128 \<Longrightarrow> fixed_header c n = [c, ucast n]"
proof -
  assume "unat n < 128"
  then have "n div 128 = 0" "n mod 128 = n" by (simp_all add: unat_eq_zero [symmetric] unat_div word_arith_nat_mod)
  then show ?thesis by (simp add: fixed_header_def eval_nat_numeral)
qed

lemma send_simple_command_sends:
  assumes "malloc_ok (env_malloc e)" and "net_wf m"
  shows "sends e m [command, 0] (mosquitto_send_simple_command e m command)"
proof -
  have "sends e m (fixed_header command 0 @ []) (mosquitto_send_simple_command e m command)"
    unfolding mosquitto_send_simple_command_def
    using send_packet_sends [OF assms, of "new_packet command 0" "[]" Some]
    by (auto simp: new_packet_def pkt_complete_def out_wf_def pkt_room_def pkt_written_def)
  then show ?thesis by (simp add: fixed_header_small)
qed

lemma send_command_with_mid_sends:
  assumes "malloc_ok (env_malloc e)" and "net_wf m"
  shows "sends e m ([if dup then command OR 8 else command, 2] @ enc_uint16 mid)
     (mosquitto_send_command_with_mid e m command mid dup)"
proof -
  let ?c = "if dup then command OR 8 else command"
  have "sends e m (fixed_header ?c 2 @ enc_uint16 mid) (mosquitto_send_command_with_mid e m command mid dup)"
    unfolding mosquitto_send_command_with_mid_def
    using send_packet_sends [OF assms, of "new_packet ?c 2" "enc_uint16 mid"]
      pokes_complete [of _ "MOSQ_MSB mid" "MOSQ_LSB mid"] by (simp add: new_packet_def enc_uint16_def)
  then show ?thesis by (simp add: fixed_header_small)
qed

lemma send_connack_sends:
  assumes "malloc_ok (env_malloc e)" and "net_wf m"
  shows "sends e m [CONNACK, 2, ack, result] (mosquitto_send_connack e m ack result)"
proof -
  have "sends e m (fixed_header CONNACK 2 @ [ack, result]) (mosquitto_send_connack e m ack result)"
    unfolding mosquitto_send_connack_def
    using send_packet_sends [OF assms, of "new_packet CONNACK 2" "[ack, result]"]
      pokes_complete [of _ ack result] by (simp add: new_packet_def)
  then show ?thesis by (simp add: fixed_header_small)
qed

text \<open>The variable header and payload of a PUBLISH.\<close>

definition publish_body :: "string \<Rightarrow> int \<Rightarrow> u16 \<Rightarrow> byte list \<Rightarrow> byte list" where
  "publish_body topic qos mid payload =
     enc_string (bytes_of_string topic) @ (if qos > 0 then enc_uint16 mid else []) @ payload"

lemma publish_fields_put:
  assumes "out_wf q" and "pkt_room q = length (publish_body topic qos mid payload)"
    and "length topic < 65536" and "length payload = unat payloadlen"
  defines "t \<equiv> bytes_of_string topic"
  shows "\<exists>q'. Option.bind (mosquitto_write_string q t (strlen16 t)) (\<lambda>packet.
      Option.bind (if qos > 0 then mosquitto_write_uint16 packet mid else Some packet) (\<lambda>packet.
      if payloadlen \<noteq> 0 then mosquitto_write_bytes packet payload payloadlen else Some packet)) = Some q'
    \<and> pkt_complete q' \<and> pkt_payload q' = pkt_written q @ publish_body topic qos mid payload"
proof -
  let ?midbytes = "if qos > 0 then enc_uint16 mid else []"
  have room: "pkt_room q = 2 + length topic + length ?midbytes + length payload"
    using assms(2) by (simp add: publish_body_def)
  have n: "unat (strlen16 t) = length topic" using assms(3) by (simp add: strlen16_def t_def unat_of_nat_u16)
  obtain q1 where q1: "mosquitto_write_string q t (strlen16 t) = Some q1" "out_packet.puts q (enc_string t) q1"
    using mosquitto_write_string_ok [OF assms(1), of "strlen16 t" t] room n
    by (auto simp: enc_string_def enc_uint16_def strlen16_def t_def)
  note r1 = out_packet.puts_good [OF q1(2)]
  obtain q2 where q2: "(if qos > 0 then mosquitto_write_uint16 q1 mid else Some q1) = Some q2"
      "out_packet.puts q1 ?midbytes q2"
    using mosquitto_write_uint16_ok [of q1 mid] r1 room
    by (cases "qos > 0") (auto simp: enc_uint16_def out_packet.puts_def t_def)
  note r2 = out_packet.puts_good [OF q2(2)]
  obtain q3 where q3: "(if payloadlen \<noteq> 0 then mosquitto_write_bytes q2 payload payloadlen else Some q2) = Some q3"
      "out_packet.puts q2 payload q3"
    using out_packet.put_block_puts [of q2 payloadlen payload] r1 r2 room assms(4)
    by (cases "payloadlen = 0") (auto simp: out_packet.puts_def t_def)
  have "out_packet.puts q (publish_body topic qos mid payload) q3"
    using out_packet.puts_trans [OF out_packet.puts_trans [OF q1(2) q2(2)] q3(2)]
    by (simp add: publish_body_def t_def)
  from puts_complete [OF this assms(2)] q1 q2 q3 show ?thesis by auto
qed

lemma send_real_publish_sends:
  assumes "malloc_ok (env_malloc e)" and "net_wf m" and "length topic < 65536"
    and "length payload = unat payloadlen"
    and len: "length (publish_body topic qos mid payload) \<le> MQTT_MAX_PAYLOAD"
  shows "sends e m (fixed_header (publish_command qos retain dup) (of_nat (length (publish_body topic qos mid payload)))
       @ publish_body topic qos mid payload)
     (mosquitto_send_real_publish e m mid topic payloadlen payload qos retain dup)"
proof -
  let ?n = "of_nat (length (publish_body topic qos mid payload)) :: u32"
  have "payloadlen = of_nat (length payload)" using assms(4) by simp
  then have n: "?n = (if qos > 0 then 2 + of_nat (length topic) + payloadlen + 2
      else 2 + of_nat (length topic) + payloadlen)"
    by (simp add: publish_body_def)
  have un: "unat ?n = length (publish_body topic qos mid payload)" using len by (simp add: unat_of_nat_u32)
  show ?thesis
    unfolding mosquitto_send_real_publish_def Let_def n [symmetric]
    using send_packet_sends [OF assms(1,2), of "(new_packet (publish_command qos retain dup) ?n)\<lparr>pkt_mid := mid\<rparr>"]
      publish_fields_put [OF _ _ assms(3,4), of _ qos mid] un len
    by (simp add: new_packet_def)
qed

section \<open>What sending leaves alone\<close>

text \<open>Everything of a connection but its outgoing queue, its counters and the abort flag.\<close>

definition conn_frame :: "mosquitto \<Rightarrow> mosquitto" where
  "conn_frame m = (send_frame m)\<lparr>ctx_aborted := False\<rparr>"

lemma conn_frame_upd [simp]:
  "conn_frame (m\<lparr>ctx_current_out_packet := a\<rparr>) = conn_frame m"
  "conn_frame (m\<lparr>ctx_out_packet := b\<rparr>) = conn_frame m"
  "conn_frame (m\<lparr>ctx_net_out := c\<rparr>) = conn_frame m"
  "conn_frame (m\<lparr>ctx_sent := d\<rparr>) = conn_frame m"
  "conn_frame (m\<lparr>ctx_next_msg_out := f\<rparr>) = conn_frame m"
  "conn_frame (m\<lparr>ctx_aborted := g\<rparr>) = conn_frame m"
  "conn_frame (add_stats h m) = conn_frame m"
  "conn_frame (next_out_packet m) = conn_frame m"
  by (simp_all add: conn_frame_def send_frame_def add_stats_def next_out_packet_def split: list.splits)

lemma net_write_conn_frame: "conn_frame (snd (mosquitto_net_write m buf)) = conn_frame m"
  by (simp add: mosquitto_net_write_def split: list.splits net_write_event.splits)

lemma packet_write_loop_conn_frame [simp]: "conn_frame (snd (packet_write_loop e m)) = conn_frame m"
proof (induction m rule: wf_induct_rule [OF write_order_wf])
  case (1 m)
  show ?case
  proof (cases "ctx_current_out_packet m")
    case None
    then show ?thesis by (simp add: packet_write_loop.simps)
  next
    case (Some p)
    obtain r m1 where W: "mosquitto_net_write m (pkt_unsent p) = (r, m1)" by fastforce
    then have m1: "conn_frame m1 = conn_frame m" using net_write_conn_frame [of m "pkt_unsent p"] by simp
    show ?thesis
    proof (cases "0 < pkt_to_process p")
      case True
      show ?thesis
      proof (cases "\<exists>n. r = WLen n \<and> 0 < n")
        case True
        then obtain n where r: "r = WLen n" "0 < n" by blast
        from 1 [OF write_order_partial [OF Some r(2) W [unfolded r(1)]]] show ?thesis
          using Some \<open>0 < pkt_to_process p\<close> W r m1 by (subst packet_write_loop.simps) (simp add: Let_def)
      next
        case False
        then show ?thesis using Some \<open>0 < pkt_to_process p\<close> W m1
          by (subst packet_write_loop.simps) (auto split: net_write_result.splits)
      qed
    next
      case False
      from 1 [OF write_order_next [OF Some]] show ?thesis
        using Some False by (subst packet_write_loop.simps) (simp add: Let_def)
    qed
  qed
qed

lemma packet_queue_conn_frame [simp]: "conn_frame (snd (mosquitto_packet_queue e m p)) = conn_frame m"
  by (simp add: mosquitto_packet_queue_def mosquitto_packet_write_def Let_def)


lemma send_packet_conn_frame [simp]:
  "conn_frame (snd (queue_or_abort e m q)) = conn_frame m"
  "conn_frame (snd (send_packet e m p put_fields)) = conn_frame m"
  by (simp_all add: send_packet_def queue_or_abort_def split: prod.splits option.splits)

lemma send_conn_frame [simp]:
  "conn_frame (snd (mosquitto_send_simple_command e m command)) = conn_frame m"
  "conn_frame (snd (mosquitto_send_command_with_mid e m command mid dup)) = conn_frame m"
  "conn_frame (snd (mosquitto_send_pingresp e m)) = conn_frame m"
  "conn_frame (snd (mosquitto_send_puback e m mid)) = conn_frame m"
  "conn_frame (snd (mosquitto_send_pubcomp e m mid)) = conn_frame m"
  "conn_frame (snd (mosquitto_send_pubrec e m mid)) = conn_frame m"
  "conn_frame (snd (mosquitto_send_pubrel e m mid)) = conn_frame m"
  "conn_frame (snd (mosquitto_send_connack e m ack result)) = conn_frame m"
  "conn_frame (snd (mosquitto_send_suback e m mid len payload)) = conn_frame m"
  "conn_frame (snd (mosquitto_send_disconnect e m)) = conn_frame m"
  by (simp_all add: mosquitto_send_simple_command_def mosquitto_send_command_with_mid_def
      mosquitto_send_pingresp_def mosquitto_send_puback_def mosquitto_send_pubcomp_def
      mosquitto_send_pubrec_def mosquitto_send_pubrel_def mosquitto_send_connack_def
      mosquitto_send_suback_def mosquitto_send_disconnect_def)

lemma send_real_publish_conn_frame [simp]:
  "conn_frame (snd (mosquitto_send_real_publish e m mid topic len payload qos retain dup)) = conn_frame m"
  by (simp add: mosquitto_send_real_publish_def Let_def)

lemma publish_remapped_conn_frame [simp]:
  "conn_frame (snd (publish_remapped e m mid len payload qos retain dup topic)) = conn_frame m"
  by (simp add: publish_remapped_def publish_counted_def split: option.split cres.split)

lemma send_publish_conn_frame [simp]:
  "conn_frame (snd (mosquitto_send_publish e m mid topic len payload qos retain dup)) = conn_frame m"
  by (simp add: mosquitto_send_publish_def split: option.split)

lemma conn_frame_sel:
  "ctx_msgs (conn_frame m) = ctx_msgs m" "ctx_id (conn_frame m) = ctx_id m"
  "ctx_sock (conn_frame m) = ctx_sock m" "ctx_state (conn_frame m) = ctx_state m"
  "ctx_last_msg (conn_frame m) = ctx_last_msg m" "ctx_msg_count (conn_frame m) = ctx_msg_count m"
  "ctx_msg_count12 (conn_frame m) = ctx_msg_count12 m" "ctx_subs (conn_frame m) = ctx_subs m"
  "ctx_bridge (conn_frame m) = ctx_bridge m" "ctx_is_bridge (conn_frame m) = ctx_is_bridge m"
  "ctx_in_packet (conn_frame m) = ctx_in_packet m" "ctx_last_mid (conn_frame m) = ctx_last_mid m"
  "ctx_listener (conn_frame m) = ctx_listener m"
  "ctx_clean_session (conn_frame m) = ctx_clean_session m"
  "ctx_protocol (conn_frame m) = ctx_protocol m" "ctx_username (conn_frame m) = ctx_username m"
  "ctx_acl_list (conn_frame m) = ctx_acl_list m" "ctx_will (conn_frame m) = ctx_will m"
  "ctx_is_dropping (conn_frame m) = ctx_is_dropping m"
  by (simp_all add: conn_frame_def send_frame_def)

lemma conn_frame_fields:
  assumes "conn_frame m' = conn_frame m"
  shows "ctx_msgs m' = ctx_msgs m" "ctx_id m' = ctx_id m" "ctx_sock m' = ctx_sock m"
  "ctx_state m' = ctx_state m" "ctx_last_msg m' = ctx_last_msg m"
  "ctx_msg_count m' = ctx_msg_count m" "ctx_msg_count12 m' = ctx_msg_count12 m"
  "ctx_subs m' = ctx_subs m" "ctx_bridge m' = ctx_bridge m" "ctx_is_bridge m' = ctx_is_bridge m"
  "ctx_in_packet m' = ctx_in_packet m" "ctx_last_mid m' = ctx_last_mid m"
  "ctx_listener m' = ctx_listener m" "ctx_clean_session m' = ctx_clean_session m"
  "ctx_protocol m' = ctx_protocol m" "ctx_username m' = ctx_username m"
  "ctx_acl_list m' = ctx_acl_list m" "ctx_will m' = ctx_will m"
  "ctx_is_dropping m' = ctx_is_dropping m"
  using assms by (metis conn_frame_sel)+

lemma streams_aborted: "streams m bs m' \<Longrightarrow> ctx_aborted m' = ctx_aborted m"
proof -
  assume "streams m bs m'"
  then have "send_frame m' = send_frame m" by (simp add: streams_def)
  from arg_cong [OF this, of ctx_aborted] show ?thesis by (simp add: send_frame_def)
qed

lemma calloc_conn: "net_wf context_calloc" "ctx_sent context_calloc = []" "pending context_calloc = []"
  by (simp_all add: net_wf_def context_calloc_def pending_def)

section \<open>Properties\<close>

text \<open>
  C6: The wire format of a PUBLISH.  For a topic of at most 65535 bytes and a packet that fits
  the protocol's limit, \<open>_mosquitto_send_real_publish\<close> either finds no memory for a buffer of exactly the
  packet's size and changes nothing, or extends the byte stream of the connection by exactly the fixed header, the topic
  with its length, the message identifier for QoS 1 and 2, and the payload; no assertion fails
  and no byte of the packet is left uninitialised.
\<close>

theorem publish_wire_format:
  assumes "malloc_ok (env_malloc e)" and "net_wf m" and "length topic < 65536"
    and "length payload = unat payloadlen"
    and "length (publish_body topic qos mid payload) \<le> MQTT_MAX_PAYLOAD"
    and "r = mosquitto_send_real_publish e m mid topic payloadlen payload qos retain dup"
    and "frame = fixed_header (publish_command qos retain dup) (of_nat (length (publish_body topic qos mid payload)))
       @ publish_body topic qos mid payload"
  shows "if env_malloc e (length frame) = None then r = (MOSQ_ERR_NOMEM, m)
     else ctx_sent (snd r) @ pending (snd r) = ctx_sent m @ pending m @ frame
       \<and> ctx_aborted (snd r) = ctx_aborted m \<and> net_wf (snd r)"
proof -
  have "sends e m frame r" unfolding assms(6,7) by (rule send_real_publish_sends [OF assms(1-5)])
  moreover have "streams m frame (snd r) \<Longrightarrow> ctx_aborted (snd r) = ctx_aborted m" by (rule streams_aborted)
  ultimately show ?thesis by (auto simp: sends_def streams_def stream_def split: if_splits)
qed

theorem publish_wire_format_witness:
  "(let m = snd (mosquitto_send_real_publish plain_env context_calloc 7 ''a/b'' 1 [0x41] 1 False False) in
    ctx_sent m @ pending m = [0x32, 8, 0, 3, 0x61, 0x2F, 0x62, 0, 7, 0x41])"
  using publish_wire_format [of plain_env context_calloc "''a/b''" "[0x41]" 1 1 7 _ False False,
      OF plain_env_malloc(1) calloc_conn(1) _ _ _ refl refl]
  by (auto simp: Let_def calloc_conn plain_env_malloc publish_body_def enc_string_def enc_uint16_def
      fixed_header_small publish_command_def MOSQ_MSB_def MOSQ_LSB_def)

text \<open>
  C7: Acknowledgements.  \<open>_mosquitto_send_command_with_mid\<close>, behind PUBACK, PUBREC, PUBREL,
  PUBCOMP and UNSUBACK, either finds no memory or puts exactly the four bytes of the
  acknowledgement on the stream of the connection.
\<close>

theorem ack_wire_format:
  assumes "malloc_ok (env_malloc e)" and "net_wf m"
    and "r = mosquitto_send_command_with_mid e m command mid dup"
  shows "if env_malloc e 4 = None then r = (MOSQ_ERR_NOMEM, m)
     else ctx_sent (snd r) @ pending (snd r) = ctx_sent m @ pending m
       @ [if dup then command OR 8 else command, 2, MOSQ_MSB mid, MOSQ_LSB mid]"
  using send_command_with_mid_sends [OF assms(1,2), of dup command mid] unfolding assms(3) [symmetric]
  by (auto simp: sends_def streams_def stream_def enc_uint16_def numeral_eq_Suc split: if_splits)

theorem ack_wire_format_witness:
  "(let m = snd (mosquitto_send_command_with_mid plain_env context_calloc PUBACK 258 False) in
    ctx_sent m @ pending m = [0x40, 2, 1, 2])"
  using ack_wire_format [of plain_env context_calloc _ PUBACK 258 False, OF plain_env_malloc(1) calloc_conn(1) refl]
  by (simp add: Let_def calloc_conn plain_env_malloc MOSQ_MSB_def MOSQ_LSB_def)

end
