(* ===== verification/Mosq_Security.thy ===== *)
theory Mosq_Security
  imports Mosq_Broker
begin

text \<open>
  Authentication and access control: \<open>security.c\<close> and \<open>security_default.c\<close>.  The functions
  of the C library they use (\<open>fgets\<close>, \<open>strtok_r\<close>, \<open>strstr\<close>, \<open>strpbrk\<close>) come first, then the
  access control lists and the check of an access, the password table and its check, and the
  parsers of the two files.  A result \<open>None\<close> of a check is an access outside an allocated buffer.
  Digests and base64 come from OpenSSL and are parameters.
\<close>

section \<open>The C string library\<close>

text \<open>\<open>strpbrk(s, "+#")\<close> finds something.\<close>

definition has_wildcard :: "string \<Rightarrow> bool" where
  "has_wildcard s = list_ex (\<lambda>c. c = CHR ''+'' \<or> c = CHR ''#'') s"

fun strstr :: "string \<Rightarrow> string \<Rightarrow> string option" where
  "strstr [] needle = (if needle = [] then Some [] else None)"
| "strstr (c # s) needle =
     (if take (length needle) (c # s) = needle then Some (c # s) else strstr s needle)"

text \<open>The token and the new value of \<open>saveptr\<close>; no token is \<open>None\<close>.\<close>

definition strtok_r :: "string \<Rightarrow> string \<Rightarrow> (string \<times> string) option" where
  "strtok_r delim s =
     (let t = dropWhile (\<lambda>c. c \<in> set delim) s
      in if t = [] then None
         else Some (takeWhile (\<lambda>c. c \<notin> set delim) t, tl (dropWhile (\<lambda>c. c \<notin> set delim) t)))"

fun fgets_line :: "nat \<Rightarrow> string \<Rightarrow> string" where
  "fgets_line 0 f = []"
| "fgets_line (Suc n) [] = []"
| "fgets_line (Suc n) (c # f) = (if c = CHR 0x0A then [c] else c # fgets_line n f)"

text \<open>At most \<open>n - 1\<close> characters up to the end of the line, and what is left of the file.\<close>

definition fgets :: "nat \<Rightarrow> string \<Rightarrow> (string \<times> string) option" where
  "fgets n f =
     (if f = [] then None
      else let buf = fgets_line (n - 1) f in Some (buf, drop (length buf) f))"

text \<open>What the string functions see of a buffer.\<close>

definition c_str :: "string \<Rightarrow> string" where
  "c_str buf = takeWhile (\<lambda>c. c \<noteq> CHR 0x00) buf"

definition is_eol :: "char \<Rightarrow> bool" where
  "is_eol c \<longleftrightarrow> c = CHR 0x0A \<or> c = CHR 0x0D"

function trim_eol :: "string \<Rightarrow> string" where
  "trim_eol s = (if s \<noteq> [] \<and> is_eol (last s) then trim_eol (butlast s) else s)"
  by pat_completeness auto
termination by (relation "measure length") (auto simp: less_Suc_eq)

declare trim_eol.simps [simp del]

section \<open>Access control lists\<close>

abbreviation MOSQ_ACL_READ :: u32 where "MOSQ_ACL_READ \<equiv> 1"
abbreviation MOSQ_ACL_WRITE :: u32 where "MOSQ_ACL_WRITE \<equiv> 2"

text \<open>
  The list of the users: the new entry goes to the end of the list of the first user of that
  name, or to a new user at the end.  Users without a name hold the entries of anonymous clients.
\<close>

fun add_acl_entry ::
    "mosquitto_acl_user list \<Rightarrow> string option \<Rightarrow> mosquitto_acl \<Rightarrow> mosquitto_acl_user list" where
  "add_acl_entry [] user acl = [\<lparr>acl_username = user, acl_acl = [acl]\<rparr>]"
| "add_acl_entry (u # us) user acl =
     (if acl_username u = user then u\<lparr>acl_acl := acl_acl u @ [acl]\<rparr> # us
      else u # add_acl_entry us user acl)"

definition add_acl ::
    "mosquitto_db \<Rightarrow> string option \<Rightarrow> string \<Rightarrow> u32 \<Rightarrow> int \<times> mosquitto_db" where
  "add_acl db user topic access =
     (MOSQ_ERR_SUCCESS, db\<lparr>db_acl_list := add_acl_entry (db_acl_list db) user
        \<lparr>acl_topic = topic, acl_access = access, acl_ucount = 0, acl_ccount = 0\<rparr>\<rparr>)"

text \<open>The two counting loops of \<open>_add_acl_pattern\<close>.\<close>

lemma strstr_length: "strstr s needle = Some t \<Longrightarrow> length t \<le> length s"
  by (induction s needle rule: strstr.induct) (auto split: if_splits)

lemma strstr_needle: "strstr s needle = Some t \<Longrightarrow> take (length needle) t = needle"
  by (induction s needle rule: strstr.induct) (auto split: if_splits)

function strstr_count :: "char \<Rightarrow> string \<Rightarrow> nat" where
  "strstr_count c s =
     (case strstr s [CHR 0x25, c] of None \<Rightarrow> 0 | Some t \<Rightarrow> Suc (strstr_count c (drop 2 t)))"
  by pat_completeness auto
termination
proof (relation "measure (\<lambda>(c, s). length s)")
  fix c s t assume t: "strstr s [CHR 0x25, c] = Some t"
  then have "t \<noteq> []" using strstr_needle [OF t] by auto
  then show "((c, drop 2 t), c, s) \<in> measure (\<lambda>(c, s). length s)"
    using strstr_length [OF t] by (cases t) auto
qed simp

declare strstr_count.simps [simp del]

definition add_acl_pattern :: "mosquitto_db \<Rightarrow> string \<Rightarrow> u32 \<Rightarrow> int \<times> mosquitto_db" where
  "add_acl_pattern db topic access =
     (MOSQ_ERR_SUCCESS, db\<lparr>db_acl_patterns := db_acl_patterns db @
        [\<lparr>acl_topic = topic, acl_access = access, acl_ucount = strstr_count CHR ''u'' topic,
          acl_ccount = strstr_count CHR ''c'' topic\<rparr>]\<rparr>)"

section \<open>Checking an access\<close>

text \<open>The loop over the entries of the user of a connection.\<close>

fun acl_user_loop :: "mosquitto_acl list \<Rightarrow> string \<Rightarrow> u32 \<Rightarrow> bool" where
  "acl_user_loop [] topic access = False"
| "acl_user_loop (acl_root # acls) topic access =
     (if char_at topic 0 = CHR ''$'' \<and> char_at (acl_topic acl_root) 0 \<noteq> CHR ''$''
      then acl_user_loop acls topic access
      else if snd (mosquitto_topic_matches_sub (acl_topic acl_root) topic) = Some True
              \<and> access AND acl_access acl_root \<noteq> 0
      then True
      else acl_user_loop acls topic access)"

text \<open>The loop that copies a pattern and replaces \<open>%c\<close> and \<open>%u\<close>; \<open>s\<close> is what has been written.\<close>

function acl_expand_loop :: "string \<Rightarrow> string \<Rightarrow> string option \<Rightarrow> nat \<Rightarrow> string \<Rightarrow> string" where
  "acl_expand_loop topic client username i s =
     (if i < length topic
      then if i < length topic - 1 \<and> topic ! i = CHR 0x25
           then if topic ! (i + 1) = CHR ''c''
                then acl_expand_loop topic client username (i + 2) (s @ client)
                else if username \<noteq> None \<and> topic ! (i + 1) = CHR ''u''
                then acl_expand_loop topic client username (i + 2) (s @ the username)
                else acl_expand_loop topic client username (i + 1) (s @ [topic ! i])
           else acl_expand_loop topic client username (i + 1) (s @ [topic ! i])
      else s)"
  by pat_completeness auto
termination by (relation "measure (\<lambda>(topic, client, username, i, s). length topic - i)") auto

declare acl_expand_loop.simps [simp del]

text \<open>
  The buffer for the expansion has \<open>len + 1\<close> bytes, the last one for the terminator.  Writing
  more than \<open>len\<close> characters overwrites the terminator or leaves the buffer; writing fewer leaves
  uninitialised characters before it.  Both are \<open>Abort\<close>.
\<close>

definition acl_expand_len :: "mosquitto_acl \<Rightarrow> string \<Rightarrow> string option \<Rightarrow> int" where
  "acl_expand_len acl_root client username =
     (case username of
        Some u \<Rightarrow> int (length (acl_topic acl_root)) + int (acl_ccount acl_root) * (int (length client) - 2)
                  + int (acl_ucount acl_root) * (int (length u) - 2)
      | None \<Rightarrow> int (length (acl_topic acl_root)) + int (acl_ccount acl_root) * (int (length client) - 2))"

definition acl_expand :: "mosq_env \<Rightarrow> mosquitto_acl \<Rightarrow> string \<Rightarrow> string option \<Rightarrow> string cres" where
  "acl_expand e acl_root client username =
     (let len = acl_expand_len acl_root client username
      in if len < 0 then Abort
         else case env_malloc e (nat len + 1) of
                None \<Rightarrow> Err 1
              | Some _ \<Rightarrow>
                  let local_acl = acl_expand_loop (acl_topic acl_root) client username 0 []
                  in if int (length local_acl) = len then Ok local_acl else Abort)"

fun acl_pattern_loop :: "mosq_env \<Rightarrow> mosquitto_acl list \<Rightarrow> string \<Rightarrow> string option \<Rightarrow> string \<Rightarrow> u32
    \<Rightarrow> int option" where
  "acl_pattern_loop e [] client username topic access = Some MOSQ_ERR_ACL_DENIED"
| "acl_pattern_loop e (acl_root # acls) client username topic access =
     (if acl_ucount acl_root \<noteq> 0 \<and> username = None
      then acl_pattern_loop e acls client username topic access
      else case acl_expand e acl_root client username of
             Err rc \<Rightarrow> Some rc
           | Abort \<Rightarrow> None
           | Ok local_acl \<Rightarrow>
               if snd (mosquitto_topic_matches_sub local_acl topic) = Some True
                  \<and> access AND acl_access acl_root \<noteq> 0
               then Some MOSQ_ERR_SUCCESS
               else acl_pattern_loop e acls client username topic access)"

definition opt_wildcard :: "string option \<Rightarrow> bool" where
  "opt_wildcard s = (case s of None \<Rightarrow> False | Some s \<Rightarrow> has_wildcard s)"

definition mosquitto_acl_check_default ::
    "mosq_env \<Rightarrow> mosquitto_db \<Rightarrow> mosquitto \<Rightarrow> string \<Rightarrow> u32 \<Rightarrow> int option" where
  "mosquitto_acl_check_default e db context topic access =
     (if db_acl_list db = [] \<and> db_acl_patterns db = [] then Some MOSQ_ERR_SUCCESS
      else if ctx_bridge context \<noteq> None then Some MOSQ_ERR_SUCCESS
      else if ctx_acl_list context = None \<and> db_acl_patterns db = [] then Some MOSQ_ERR_ACL_DENIED
      else if acl_user_loop (case ctx_acl_list context of None \<Rightarrow> [] | Some u \<Rightarrow> acl_acl u) topic access
      then Some MOSQ_ERR_SUCCESS
      else if db_acl_patterns db \<noteq> []
              \<and> (opt_wildcard (ctx_username context) \<or> opt_wildcard (ctx_id context))
      then Some MOSQ_ERR_ACL_DENIED
      else case ctx_id context of
             None \<Rightarrow> None
           | Some client \<Rightarrow>
               acl_pattern_loop e (db_acl_patterns db) client (ctx_username context) topic access)"

definition mosquitto_acl_check ::
    "mosq_env \<Rightarrow> mosquitto_db \<Rightarrow> mosquitto \<Rightarrow> string \<Rightarrow> u32 \<Rightarrow> int option" where
  "mosquitto_acl_check e db context topic access =
     (case ctx_id context of
        None \<Rightarrow> Some MOSQ_ERR_ACL_DENIED
      | Some client \<Rightarrow>
          (case env_auth_plugin e of
             None \<Rightarrow> mosquitto_acl_check_default e db context topic access
           | Some plugin \<Rightarrow>
               let username = (case ctx_bridge context of
                                 Some bridge \<Rightarrow> br_local_username bridge
                               | None \<Rightarrow> ctx_username context)
               in if cfg_auth_plugin_deny_special_chars (env_config e)
                     \<and> (opt_wildcard username \<or> has_wildcard client)
                  then Some MOSQ_ERR_ACL_DENIED
                  else Some (plugin_acl_check plugin client username topic access)))"

section \<open>Checking a password\<close>

definition memcmp_const :: "byte list \<Rightarrow> byte list \<Rightarrow> nat \<Rightarrow> int" where
  "memcmp_const a b len = foldl (\<lambda>rc i. if a ! i \<noteq> b ! i then 1 else rc) 0 [0..<len]"

fun unpwd_loop ::
    "mosq_env \<Rightarrow> mosquitto_unpwd list \<Rightarrow> string \<Rightarrow> string option \<Rightarrow> int" where
  "unpwd_loop e [] username password = MOSQ_ERR_AUTH"
| "unpwd_loop e (u # us) username password =
     (if unpwd_username u = username
      then case unpwd_password u of
             None \<Rightarrow> MOSQ_ERR_SUCCESS
           | Some stored \<Rightarrow>
               (case password of
                  None \<Rightarrow> MOSQ_ERR_AUTH
                | Some password \<Rightarrow>
                    let hash = env_pw_digest e password (unpwd_salt u)
                    in if length hash = length stored \<and> memcmp_const stored hash (length hash) = 0
                       then MOSQ_ERR_SUCCESS else MOSQ_ERR_AUTH)
      else unpwd_loop e us username password)"

definition mosquitto_unpwd_check_default ::
    "mosq_env \<Rightarrow> mosquitto_db \<Rightarrow> string option \<Rightarrow> string option \<Rightarrow> int" where
  "mosquitto_unpwd_check_default e db username password =
     (if db_unpwd db = [] then MOSQ_ERR_SUCCESS
      else case username of
             None \<Rightarrow> MOSQ_ERR_INVAL
           | Some username \<Rightarrow> unpwd_loop e (db_unpwd db) username password)"

definition mosquitto_unpwd_check ::
    "mosq_env \<Rightarrow> mosquitto_db \<Rightarrow> string option \<Rightarrow> string option \<Rightarrow> int" where
  "mosquitto_unpwd_check e db username password =
     (case env_auth_plugin e of
        None \<Rightarrow> mosquitto_unpwd_check_default e db username password
      | Some plugin \<Rightarrow> plugin_unpwd_check plugin username password)"

section \<open>The files\<close>

text \<open>The keyword between \<open>topic\<close> or \<open>pattern\<close> and the topic.\<close>

definition acl_access_type :: "string \<Rightarrow> u32 option" where
  "acl_access_type s =
     (if s = ''read'' then Some MOSQ_ACL_READ
      else if s = ''write'' then Some MOSQ_ACL_WRITE
      else if s = ''readwrite'' then Some (MOSQ_ACL_READ OR MOSQ_ACL_WRITE)
      else None)"

text \<open>
  A line of the file: \<open>user\<close> is the user of the last \<open>user\<close> line.  A result other than 0 ends the
  parser.
\<close>

definition acl_topic_line :: "bool \<Rightarrow> string option \<Rightarrow> string \<Rightarrow> mosquitto_db \<Rightarrow> int \<times> mosquitto_db" where
  "acl_topic_line topic_pattern user saveptr db =
     (case strtok_r '' '' saveptr of
        None \<Rightarrow> (MOSQ_ERR_INVAL, db)
      | Some (access_s, saveptr) \<Rightarrow>
          let (topic, access) =
            (case strtok_r [] saveptr of
               Some (token, _) \<Rightarrow> (dropWhile (\<lambda>c. c = CHR '' '') token, acl_access_type access_s)
             | None \<Rightarrow> (access_s, Some (MOSQ_ACL_READ OR MOSQ_ACL_WRITE)))
          in case access of
               None \<Rightarrow> (MOSQ_ERR_INVAL, db)
             | Some access \<Rightarrow>
                 if topic_pattern then add_acl_pattern db topic access
                 else add_acl db user topic access)"

definition acl_line ::
    "string option \<Rightarrow> string \<Rightarrow> mosquitto_db \<Rightarrow> int \<times> string option \<times> mosquitto_db" where
  "acl_line user buf db =
     (let buf = trim_eol buf
      in if char_at buf 0 = CHR ''#'' then (MOSQ_ERR_SUCCESS, user, db)
         else case strtok_r '' '' buf of
                None \<Rightarrow> (MOSQ_ERR_SUCCESS, user, db)
              | Some (token, saveptr) \<Rightarrow>
                  if token = ''topic'' \<or> token = ''pattern''
                  then case acl_topic_line (token = ''pattern'') user saveptr db of
                         (rc, db) \<Rightarrow> (rc, user, db)
                  else if token = ''user''
                  then case strtok_r [] saveptr of
                         None \<Rightarrow> (1, user, db)
                       | Some (token, _) \<Rightarrow>
                           (MOSQ_ERR_SUCCESS, Some (dropWhile (\<lambda>c. c = CHR '' '') token), db)
                  else (MOSQ_ERR_SUCCESS, user, db))"

lemma fgets_line_nonempty: "f \<noteq> [] \<Longrightarrow> fgets_line (Suc n) f \<noteq> []"
  by (cases f) auto

lemma fgets_progress: "fgets (Suc (Suc n)) f = Some (buf, r) \<Longrightarrow> length r < length f"
  using fgets_line_nonempty [of f n] by (auto simp: fgets_def Let_def split: if_splits)

function aclfile_loop :: "string option \<Rightarrow> string \<Rightarrow> mosquitto_db \<Rightarrow> int \<times> mosquitto_db" where
  "aclfile_loop user f db =
     (case fgets 1024 f of
        None \<Rightarrow> (MOSQ_ERR_SUCCESS, db)
      | Some (buf, f) \<Rightarrow>
          (case acl_line user (c_str buf) db of
             (rc, user, db) \<Rightarrow> if rc \<noteq> 0 then (rc, db) else aclfile_loop user f db))"
  by pat_completeness auto
termination
  by (relation "measure (\<lambda>(user, f, db). length f)") (use fgets_progress [of 1022] in auto)

declare aclfile_loop.simps [simp del]

text \<open>The contents of the file, or \<open>None\<close> if it cannot be opened.\<close>

definition aclfile_parse :: "string option \<Rightarrow> mosquitto_db \<Rightarrow> int \<times> mosquitto_db" where
  "aclfile_parse aclfile db =
     (case aclfile of None \<Rightarrow> (1, db) | Some f \<Rightarrow> aclfile_loop None f db)"

definition acl_cleanup :: "mosquitto_db \<Rightarrow> int \<times> mosquitto_db" where
  "acl_cleanup db =
     (if db_acl_list db = [] then (MOSQ_ERR_SUCCESS, db)
      else (MOSQ_ERR_SUCCESS,
            foldl (\<lambda>db (_, c). upd_ctx c (\<lambda>m. m\<lparr>ctx_acl_list := None\<rparr>) db) db (db_contexts_by_id db)
              \<lparr>db_acl_list := [], db_acl_patterns := []\<rparr>))"

text \<open>
  The password file.  The loop that strips the end of the line from a user name does not
  look at its length, so that a name that is all end of line is read before its start: \<open>None\<close>.
\<close>

function trim_username :: "string \<Rightarrow> string option" where
  "trim_username s =
     (if s = [] then None else if is_eol (last s) then trim_username (butlast s) else Some s)"
  by pat_completeness auto
termination by (relation "measure length") (auto simp: less_Suc_eq)

declare trim_username.simps [simp del]

definition pw_line :: "string \<Rightarrow> mosquitto_unpwd list \<Rightarrow> mosquitto_unpwd list option" where
  "pw_line buf root =
     (case strtok_r '':'' buf of
        None \<Rightarrow> Some root
      | Some (username, saveptr) \<Rightarrow>
          map_option
            (\<lambda>username. root @
              [\<lparr>unpwd_username = username,
                unpwd_password = map_option (\<lambda>(password, _). bytes_of_string (trim_eol password))
                  (strtok_r '':'' saveptr),
                unpwd_salt = []\<rparr>])
            (trim_username username))"

function pwfile_loop :: "string \<Rightarrow> mosquitto_unpwd list \<Rightarrow> mosquitto_unpwd list option" where
  "pwfile_loop f root =
     (case fgets 256 f of
        None \<Rightarrow> Some root
      | Some (buf, f) \<Rightarrow>
          (case pw_line (c_str buf) root of None \<Rightarrow> None | Some root \<Rightarrow> pwfile_loop f root))"
  by pat_completeness auto
termination
  by (relation "measure (\<lambda>(f, root). length f)") (use fgets_progress [of 254] in auto)

declare pwfile_loop.simps [simp del]

definition pwfile_parse :: "string option \<Rightarrow> mosquitto_unpwd list \<Rightarrow> mosquitto_unpwd list cres" where
  "pwfile_parse file root =
     (case file of
        None \<Rightarrow> Err 1
      | Some f \<Rightarrow> (case pwfile_loop f root of None \<Rightarrow> Abort | Some root \<Rightarrow> Ok root))"

text \<open>
  The decoding of an entry: \<open>$6$salt$hash\<close>, salt and hash in base64.  \<open>strtok\<close> cuts the password
  behind its first token, so an entry that is refused is left with that, and possibly with a salt.
\<close>

definition unpwd_decode_hash ::
    "(string \<Rightarrow> byte list option) \<Rightarrow> string \<Rightarrow> mosquitto_unpwd \<Rightarrow> int \<times> mosquitto_unpwd" where
  "unpwd_decode_hash base64_decode saveptr u =
     (case strtok_r ''$'' saveptr of
        None \<Rightarrow> (MOSQ_ERR_INVAL, u)
      | Some (token, _) \<Rightarrow>
          (case base64_decode token of
             None \<Rightarrow> (MOSQ_ERR_INVAL, u)
           | Some hash \<Rightarrow> (MOSQ_ERR_SUCCESS, u\<lparr>unpwd_password := Some hash\<rparr>)))"

definition unpwd_decode_salt ::
    "(string \<Rightarrow> byte list option) \<Rightarrow> string \<Rightarrow> mosquitto_unpwd \<Rightarrow> int \<times> mosquitto_unpwd" where
  "unpwd_decode_salt base64_decode saveptr u =
     (case strtok_r ''$'' saveptr of
        None \<Rightarrow> (MOSQ_ERR_INVAL, u)
      | Some (token, saveptr) \<Rightarrow>
          (case base64_decode token of
             None \<Rightarrow> (MOSQ_ERR_INVAL, u)
           | Some salt \<Rightarrow> unpwd_decode_hash base64_decode saveptr (u\<lparr>unpwd_salt := salt\<rparr>)))"

definition unpwd_decode ::
    "(string \<Rightarrow> byte list option) \<Rightarrow> mosquitto_unpwd \<Rightarrow> int \<times> mosquitto_unpwd" where
  "unpwd_decode base64_decode u =
     (case unpwd_password u of
        None \<Rightarrow> (MOSQ_ERR_SUCCESS, u)
      | Some password \<Rightarrow>
          let password = string_of_bytes password
          in case strtok_r ''$'' password of
               None \<Rightarrow> (MOSQ_ERR_INVAL, u)
             | Some (token, saveptr) \<Rightarrow>
                 let u = u\<lparr>unpwd_password :=
                   Some (bytes_of_string (takeWhile (\<lambda>c. c = CHR ''$'') password @ token))\<rparr>
                 in if token = ''6'' then unpwd_decode_salt base64_decode saveptr u
                    else (MOSQ_ERR_INVAL, u))"

fun unpwd_decode_loop ::
    "(string \<Rightarrow> byte list option) \<Rightarrow> mosquitto_unpwd list \<Rightarrow> int \<times> mosquitto_unpwd list" where
  "unpwd_decode_loop base64_decode [] = (MOSQ_ERR_SUCCESS, [])"
| "unpwd_decode_loop base64_decode (u # us) =
     (case unpwd_decode base64_decode u of
        (rc, u) \<Rightarrow>
          if rc \<noteq> 0 then (rc, u # us)
          else case unpwd_decode_loop base64_decode us of (rc, us) \<Rightarrow> (rc, u # us))"

definition unpwd_file_parse ::
    "(string \<Rightarrow> byte list option) \<Rightarrow> string option \<Rightarrow> mosquitto_db \<Rightarrow> (int \<times> mosquitto_db) cres" where
  "unpwd_file_parse base64_decode password_file db =
     (case pwfile_parse password_file (db_unpwd db) of
        Abort \<Rightarrow> Abort
      | Err rc \<Rightarrow> Ok (rc, db)
      | Ok root \<Rightarrow>
          (case unpwd_decode_loop base64_decode root of (rc, root) \<Rightarrow> Ok (rc, db\<lparr>db_unpwd := root\<rparr>)))"

definition unpwd_cleanup :: "mosquitto_db \<Rightarrow> int \<times> mosquitto_db" where
  "unpwd_cleanup db = (MOSQ_ERR_SUCCESS, db\<lparr>db_unpwd := []\<rparr>)"


section \<open>Patterns\<close>

text \<open>The substitution a pattern stands for.\<close>

fun acl_subst :: "string \<Rightarrow> string option \<Rightarrow> string \<Rightarrow> string" where
  "acl_subst client username (a # b # s) =
     (if a = CHR 0x25 \<and> b = CHR ''c'' then client @ acl_subst client username s
      else if a = CHR 0x25 \<and> b = CHR ''u'' \<and> username \<noteq> None then the username @ acl_subst client username s
      else a # acl_subst client username (b # s))"
| "acl_subst client username s = s"

fun pct_count :: "char \<Rightarrow> string \<Rightarrow> nat" where
  "pct_count c (a # b # s) =
     (if a = CHR 0x25 \<and> b = c then Suc (pct_count c s) else pct_count c (b # s))"
| "pct_count c s = 0"

lemma acl_expand_loop_subst:
  "acl_expand_loop t client u i s = s @ acl_subst client u (drop i t)"
proof (induction t client u i s rule: acl_expand_loop.induct)
  case (1 t client u i s)
  consider "length t \<le> i" | "Suc i = length t" | "Suc i < length t" by linarith
  then show ?case
  proof cases
    case 1 then show ?thesis by (simp add: acl_expand_loop.simps)
  next
    case 2
    then have "drop i t = [t ! i]" by (simp add: Cons_nth_drop_Suc [symmetric])
    moreover have "\<not> i < length t - 1" using 2 by simp
    ultimately show ?thesis using 1(4) 2 by (subst acl_expand_loop.simps) simp
  next
    case 3
    then have d: "drop i t = t ! i # t ! Suc i # drop (Suc (Suc i)) t"
      by (simp add: Cons_nth_drop_Suc)
    then have d': "drop (Suc i) t = t ! Suc i # drop (Suc (Suc i)) t" using 3 by (simp add: Cons_nth_drop_Suc)
    show ?thesis using 1 3 unfolding d by (subst acl_expand_loop.simps) (auto simp: d')
  qed
qed

lemma strstr_count_Cons:
  "strstr_count c (a # s) = (if take 2 (a # s) = [CHR 0x25, c] then Suc (strstr_count c (drop 1 s)) else strstr_count c s)"
  by (subst (1 3) strstr_count.simps) (simp add: numeral_2_eq_2)

lemma strstr_count_pct: "strstr_count c s = pct_count c s"
proof (induction c s rule: pct_count.induct)
qed (simp_all add: strstr_count_Cons strstr_count.simps [of _ "[]"])

lemma pct_count_other: "a \<noteq> CHR 0x25 \<Longrightarrow> pct_count c (a # s) = pct_count c s"
  by (cases s) simp_all

lemma acl_subst_length:
  "int (length (acl_subst client u t)) = int (length t) + int (pct_count CHR ''c'' t) * (int (length client) - 2)
     + (case u of None \<Rightarrow> 0 | Some v \<Rightarrow> int (pct_count CHR ''u'' t) * (int (length v) - 2))"
  by (induction client u t rule: acl_subst.induct)
    (auto simp: pct_count_other algebra_simps split: option.split)

definition acl_pattern_wf :: "mosquitto_acl \<Rightarrow> bool" where
  "acl_pattern_wf acl \<longleftrightarrow> acl_ccount acl = strstr_count CHR ''c'' (acl_topic acl)
     \<and> acl_ucount acl = strstr_count CHR ''u'' (acl_topic acl)"

lemma acl_expand_subst:
  assumes "acl_pattern_wf acl"
  shows "acl_expand e acl client u =
     (if env_malloc e (Suc (length (acl_subst client u (acl_topic acl)))) = None then Err 1
      else Ok (acl_subst client u (acl_topic acl)))"
proof -
  have "acl_expand_len acl client u = int (length (acl_subst client u (acl_topic acl)))"
    using assms by (simp add: acl_expand_len_def acl_pattern_wf_def acl_subst_length strstr_count_pct split: option.split)
  then show ?thesis
    by (simp add: acl_expand_def Let_def acl_expand_loop_subst split: option.split)
qed

lemma add_acl_pattern_wf:
  "\<forall>acl \<in> set (db_acl_patterns db). acl_pattern_wf acl
   \<Longrightarrow> \<forall>acl \<in> set (db_acl_patterns (snd (add_acl_pattern db topic access))). acl_pattern_wf acl"
  by (auto simp: add_acl_pattern_def acl_pattern_wf_def)

section \<open>The decision\<close>

definition acl_grants :: "mosquitto_acl \<Rightarrow> string \<Rightarrow> string \<Rightarrow> u32 \<Rightarrow> bool" where
  "acl_grants acl f topic access \<longleftrightarrow>
     snd (mosquitto_topic_matches_sub f topic) = Some True \<and> access AND acl_access acl \<noteq> 0"

text \<open>
  Access is allowed when there are no lists at all, to bridges, by an entry of the user, or by a
  pattern when neither user name nor client identifier has a wildcard.
\<close>

definition acl_allowed :: "mosquitto_db \<Rightarrow> mosquitto \<Rightarrow> string \<Rightarrow> string \<Rightarrow> u32 \<Rightarrow> bool" where
  "acl_allowed db m client topic access \<longleftrightarrow>
     db_acl_list db = [] \<and> db_acl_patterns db = []
     \<or> ctx_bridge m \<noteq> None
     \<or> (\<exists>u acl. ctx_acl_list m = Some u \<and> acl \<in> set (acl_acl u) \<and> acl_grants acl (acl_topic acl) topic access)
     \<or> \<not> opt_wildcard (ctx_username m) \<and> \<not> has_wildcard client
       \<and> (\<exists>acl \<in> set (db_acl_patterns db). (pct_count CHR ''u'' (acl_topic acl) = 0 \<or> ctx_username m \<noteq> None)
            \<and> acl_grants acl (acl_subst client (ctx_username m) (acl_topic acl)) topic access)"

lemma acl_user_loop_iff:
  "acl_user_loop acls topic access \<longleftrightarrow> (\<exists>acl \<in> set acls. acl_grants acl (acl_topic acl) topic access)"
  by (induction acls topic access rule: acl_user_loop.induct)
    (auto simp: acl_grants_def mosquitto_topic_matches_sub_def)

lemma acl_pattern_loop_eq:
  assumes "\<And>n. env_malloc e n \<noteq> None" and "\<forall>acl \<in> set acls. acl_pattern_wf acl"
  shows "acl_pattern_loop e acls client u topic access =
     Some (if \<exists>acl \<in> set acls. (pct_count CHR ''u'' (acl_topic acl) = 0 \<or> u \<noteq> None)
            \<and> acl_grants acl (acl_subst client u (acl_topic acl)) topic access
          then MOSQ_ERR_SUCCESS else MOSQ_ERR_ACL_DENIED)"
  using assms(2)
proof (induction acls)
  case (Cons acl acls)
  then have "acl_ucount acl = pct_count CHR ''u'' (acl_topic acl)"
    by (simp add: acl_pattern_wf_def strstr_count_pct)
  moreover have "acl_expand e acl client u = Ok (acl_subst client u (acl_topic acl))"
    using acl_expand_subst [of acl e client u] Cons.prems assms(1) by simp
  ultimately show ?case using Cons by (auto simp: acl_grants_def)
qed simp

section \<open>The table of the users\<close>

text \<open>
  A table that collects values under keys: what is added goes to the end of its key's list.
\<close>

locale collecting_table =
  fixes none :: 't and add :: "'t \<Rightarrow> 'k \<Rightarrow> 'v \<Rightarrow> 't" and look :: "'t \<Rightarrow> 'k \<Rightarrow> 'v list"
  assumes look_none: "look none k = []"
    and look_add: "look (add t k v) k' = (if k' = k then look t k @ [v] else look t k')"
begin

lemma look_adds:
  "look (foldl (\<lambda>t (k, v). add t k v) t kvs) k = look t k @ map snd (filter (\<lambda>(k', v). k' = k) kvs)"
  by (induction kvs arbitrary: t) (auto simp: look_add)

end

fun acls_of :: "mosquitto_acl_user list \<Rightarrow> string option \<Rightarrow> mosquitto_acl list" where
  "acls_of [] user = []"
| "acls_of (u # us) user = (if acl_username u = user then acl_acl u else acls_of us user)"

interpretation acl_users: collecting_table "[]" add_acl_entry acls_of
proof
  fix t k v k' show "acls_of (add_acl_entry t k v) k' = (if k' = k then acls_of t k @ [v] else acls_of t k')"
    by (induction t k v rule: add_acl_entry.induct) auto
qed simp

lemma add_acl_entry_new:
  "user \<notin> acl_username ` set us \<Longrightarrow> add_acl_entry us user acl = us @ [\<lparr>acl_username = user, acl_acl = [acl]\<rparr>]"
  by (induction us user acl rule: add_acl_entry.induct) auto

lemma add_acl_entry_old:
  "user \<notin> acl_username ` set us \<Longrightarrow>
   add_acl_entry (us @ [\<lparr>acl_username = user, acl_acl = acls\<rparr>]) user acl = us @ [\<lparr>acl_username = user, acl_acl = acls @ [acl]\<rparr>]"
  by (induction us user acl rule: add_acl_entry.induct) auto

lemma add_acl_entries:
  assumes "user \<notin> acl_username ` set us" and "acls \<noteq> []"
  shows "foldl (\<lambda>l. add_acl_entry l user) us acls = us @ [\<lparr>acl_username = user, acl_acl = acls\<rparr>]"
  using assms(2)
proof (induction acls rule: rev_induct)
  case (snoc a acls)
  then show ?case using assms(1)
    by (cases "acls = []") (simp_all add: add_acl_entry_new add_acl_entry_old)
qed simp

section \<open>The ACL file\<close>

text \<open>The lines of a file that describes given lists.\<close>

definition acl_access_word :: "u32 \<Rightarrow> string" where
  "acl_access_word access =
     (if access = MOSQ_ACL_READ then ''read'' else if access = MOSQ_ACL_WRITE then ''write'' else ''readwrite'')"

definition acl_entry_line :: "string \<Rightarrow> mosquitto_acl \<Rightarrow> string" where
  "acl_entry_line keyword acl = keyword @ '' '' @ acl_access_word (acl_access acl) @ '' '' @ acl_topic acl"

definition lines_out :: "string list \<Rightarrow> string" where
  "lines_out ls = concat (map (\<lambda>l. l @ [CHR 0x0A]) ls)"

lemma lines_out_Cons: "lines_out (l # ls) = l @ CHR 0x0A # lines_out ls"
  by (simp add: lines_out_def)

definition acl_user_lines :: "mosquitto_acl_user \<Rightarrow> string list" where
  "acl_user_lines u = (case acl_username u of None \<Rightarrow> [] | Some name \<Rightarrow> [''user '' @ name])
     @ map (acl_entry_line ''topic'') (acl_acl u)"

definition acl_file :: "mosquitto_acl_user list \<Rightarrow> mosquitto_acl list \<Rightarrow> string" where
  "acl_file users patterns =
     lines_out (concat (map acl_user_lines users) @ map (acl_entry_line ''pattern'') patterns)"

text \<open>A name or topic that a line can hold.\<close>

definition text_ok :: "string \<Rightarrow> bool" where
  "text_ok s \<longleftrightarrow> s \<noteq> [] \<and> hd s \<noteq> CHR '' '' \<and> last s \<noteq> CHR 0x0D \<and> CHR 0x0A \<notin> set s \<and> nul_free s
     \<and> length s \<le> 1000"

definition acl_entry_ok :: "mosquitto_acl \<Rightarrow> bool" where
  "acl_entry_ok acl \<longleftrightarrow> text_ok (acl_topic acl) \<and> acl_access acl \<in> {1, 2, 3}"

lemma fgets_line_NL:
  "CHR 0x0A \<notin> set l \<Longrightarrow> length l < n \<Longrightarrow> fgets_line n (l @ CHR 0x0A # r) = l @ [CHR 0x0A]"
proof (induction l arbitrary: n)
  case Nil then show ?case by (cases n) auto
next
  case (Cons c l) then show ?case by (cases n) auto
qed

lemma fgets_NL:
  assumes "CHR 0x0A \<notin> set l" and "length l < 1023"
  shows "fgets 1024 (l @ CHR 0x0A # r) = Some (l @ [CHR 0x0A], r)"
  using fgets_line_NL [OF assms, of r] by (simp add: fgets_def Let_def)

lemma c_str_nul_free: "nul_free s \<Longrightarrow> c_str s = s"
  by (induction s) (auto simp: c_str_def)

lemma trim_eol_NL: "l = [] \<or> \<not> is_eol (last l) \<Longrightarrow> trim_eol (l @ [CHR 0x0A]) = l"
  by (subst trim_eol.simps, simp add: is_eol_def, subst trim_eol.simps) (auto simp: is_eol_def)

lemma last_in_set_ne: "l \<noteq> [] \<Longrightarrow> x \<notin> set l \<Longrightarrow> last l \<noteq> x"
  by auto

lemma text_ok_NL: "text_ok s \<Longrightarrow> \<not> is_eol (last s)"
  using last_in_set_ne [of s] by (auto simp: text_ok_def is_eol_def)

lemma strtok_word:
  assumes "w \<noteq> []" and "CHR '' '' \<notin> set w"
  shows "strtok_r '' '' (w @ CHR '' '' # r) = Some (w, r)"
proof -
  have "dropWhile (\<lambda>c. c = CHR '' '') (w @ CHR '' '' # r) = w @ CHR '' '' # r"
    using assms by (cases w) auto
  moreover have "takeWhile (\<lambda>c. c \<noteq> CHR '' '') (w @ CHR '' '' # r) = w"
    "dropWhile (\<lambda>c. c \<noteq> CHR '' '') (w @ CHR '' '' # r) = CHR '' '' # r"
    using assms(2) by (induction w) auto
  ultimately show ?thesis by (simp add: strtok_r_def)
qed

lemma strtok_all: "strtok_r [] s = (if s = [] then None else Some (s, []))"
  using dropWhile_eq_Nil_conv [of "\<lambda>_. True" s] by (simp add: strtok_r_def del: dropWhile_eq_Nil_conv)

lemma dropWhile_hd: "s \<noteq> [] \<Longrightarrow> \<not> P (hd s) \<Longrightarrow> dropWhile P s = s"
  by (cases s) auto

lemma acl_access_word_type: "access \<in> {1, 2, 3} \<Longrightarrow> acl_access_type (acl_access_word access) = Some access"
  by (auto simp: acl_access_type_def acl_access_word_def)

lemma acl_access_word_simps:
  "acl_access_word a \<noteq> []" "CHR '' '' \<notin> set (acl_access_word a)" "CHR 0x0A \<notin> set (acl_access_word a)"
  "nul_free (acl_access_word a)" "length (acl_access_word a) \<le> 9"
  by (simp_all add: acl_access_word_def)

lemma acl_topic_line_out:
  assumes "acl_entry_ok acl"
  shows "acl_topic_line topic_pattern user (acl_access_word (acl_access acl) @ '' '' @ acl_topic acl) db =
     (if topic_pattern then add_acl_pattern db (acl_topic acl) (acl_access acl)
      else add_acl db user (acl_topic acl) (acl_access acl))"
  using assms strtok_word [OF acl_access_word_simps(1,2)]
  by (simp add: acl_topic_line_def acl_entry_ok_def text_ok_def strtok_all acl_access_word_type
      dropWhile_hd [where P = "\<lambda>c. c = CHR '' ''"])

lemma acl_line_keyword:
  assumes "keyword \<in> {''topic'', ''pattern''}" and "acl_entry_ok acl"
  shows "acl_line user (acl_entry_line keyword acl @ [CHR 0x0A]) db =
     (case if keyword = ''pattern'' then add_acl_pattern db (acl_topic acl) (acl_access acl)
           else add_acl db user (acl_topic acl) (acl_access acl) of (rc, db) \<Rightarrow> (rc, user, db))"
proof -
  let ?l = "acl_entry_line keyword acl"
  have "\<not> is_eol (last ?l)" using assms(2) text_ok_NL [of "acl_topic acl"]
    by (simp add: acl_entry_line_def acl_entry_ok_def text_ok_def)
  moreover have "char_at ?l 0 \<noteq> CHR ''#''" using assms(1) by (auto simp: acl_entry_line_def)
  moreover have "strtok_r '' '' ?l = Some (keyword, acl_access_word (acl_access acl) @ '' '' @ acl_topic acl)"
    using assms(1) strtok_word [of keyword "acl_access_word (acl_access acl) @ '' '' @ acl_topic acl"]
    by (auto simp: acl_entry_line_def)
  ultimately show ?thesis using assms acl_topic_line_out [OF assms(2)]
    by (auto simp: acl_line_def trim_eol_NL Let_def split: prod.split)
qed

lemma acl_line_user:
  assumes "text_ok name"
  shows "acl_line user (''user '' @ name @ [CHR 0x0A]) db = (MOSQ_ERR_SUCCESS, Some name, db)"
proof -
  let ?l = "''user '' @ name"
  have "\<not> is_eol (last ?l)" using assms text_ok_NL [of name] by (simp add: text_ok_def)
  then have "trim_eol (?l @ [CHR 0x0A]) = ?l" by (intro trim_eol_NL disjI2)
  moreover have "strtok_r '' '' ?l = Some (''user'', name)" using strtok_word [of "''user''" name] by simp
  ultimately show ?thesis using assms
    by (simp add: acl_line_def Let_def strtok_all text_ok_def dropWhile_hd [where P = "\<lambda>c. c = CHR '' ''"])
qed

lemma aclfile_loop_line:
  assumes "CHR 0x0A \<notin> set l" and "length l < 1023" and "nul_free l"
  shows "aclfile_loop user (lines_out (l # ls)) db =
     (case acl_line user (l @ [CHR 0x0A]) db of
        (rc, user, db) \<Rightarrow> if rc \<noteq> 0 then (rc, db) else aclfile_loop user (lines_out ls) db)"
  using assms by (subst aclfile_loop.simps) (simp add: lines_out_Cons fgets_NL c_str_nul_free)

lemma acl_entry_line_ok:
  assumes "keyword \<in> {''topic'', ''pattern''}" and "acl_entry_ok acl"
  shows "CHR 0x0A \<notin> set (acl_entry_line keyword acl)" "length (acl_entry_line keyword acl) < 1023"
    "nul_free (acl_entry_line keyword acl)"
proof -
  have t: "text_ok (acl_topic acl)" using assms(2) by (simp add: acl_entry_ok_def)
  then show "CHR 0x0A \<notin> set (acl_entry_line keyword acl)" "nul_free (acl_entry_line keyword acl)"
    using assms(1) acl_access_word_simps(3,4) by (auto simp: acl_entry_line_def text_ok_def)
  from assms(1) have "length keyword \<le> 7" by auto
  then show "length (acl_entry_line keyword acl) < 1023"
    using t acl_access_word_simps(5) [of "acl_access acl"] by (simp add: acl_entry_line_def text_ok_def)
qed

lemma aclfile_topics:
  assumes "\<forall>acl \<in> set acls. acl_entry_ok acl \<and> acl_ucount acl = 0 \<and> acl_ccount acl = 0"
  shows "aclfile_loop user (lines_out (map (acl_entry_line ''topic'') acls @ ls)) db =
     aclfile_loop user (lines_out ls) (db\<lparr>db_acl_list := foldl (\<lambda>l. add_acl_entry l user) (db_acl_list db) acls\<rparr>)"
  using assms
proof (induction acls arbitrary: db)
  case (Cons a acls)
  note ok = acl_entry_line_ok [of "''topic''" a]
  have a: "\<lparr>acl_topic = acl_topic a, acl_access = acl_access a, acl_ucount = 0, acl_ccount = 0\<rparr> = a"
    using Cons.prems by simp
  show ?case using Cons ok by (simp add: aclfile_loop_line acl_line_keyword add_acl_def a)
qed simp

lemma aclfile_patterns:
  assumes "\<forall>acl \<in> set acls. acl_entry_ok acl \<and> acl_pattern_wf acl"
  shows "aclfile_loop user (lines_out (map (acl_entry_line ''pattern'') acls)) db =
     (MOSQ_ERR_SUCCESS, db\<lparr>db_acl_patterns := db_acl_patterns db @ acls\<rparr>)"
  using assms
proof (induction acls arbitrary: db)
  case Nil
  show ?case by (simp add: lines_out_def aclfile_loop.simps fgets_def)
next
  case (Cons a acls)
  note ok = acl_entry_line_ok [of "''pattern''" a]
  have a: "\<lparr>acl_topic = acl_topic a, acl_access = acl_access a, acl_ucount = strstr_count CHR ''u'' (acl_topic a),
      acl_ccount = strstr_count CHR ''c'' (acl_topic a)\<rparr> = a"
    using Cons.prems by (simp add: acl_pattern_wf_def)
  show ?case using Cons ok by (simp add: aclfile_loop_line acl_line_keyword add_acl_pattern_def a)
qed

definition acl_user_ok :: "mosquitto_acl_user \<Rightarrow> bool" where
  "acl_user_ok u \<longleftrightarrow> (case acl_username u of None \<Rightarrow> True | Some name \<Rightarrow> text_ok name) \<and> acl_acl u \<noteq> []
     \<and> (\<forall>acl \<in> set (acl_acl u). acl_entry_ok acl \<and> acl_ucount acl = 0 \<and> acl_ccount acl = 0)"

lemma aclfile_user:
  assumes "acl_user_ok u" and "acl_username u \<notin> acl_username ` set (db_acl_list db)"
    and "acl_username u = None \<longrightarrow> user = None"
  shows "aclfile_loop user (lines_out (acl_user_lines u @ ls)) db =
     aclfile_loop (acl_username u) (lines_out ls) (db\<lparr>db_acl_list := db_acl_list db @ [u]\<rparr>)"
proof -
  let ?db = "db\<lparr>db_acl_list := db_acl_list db @ [u]\<rparr>"
  have u: "\<lparr>acl_username = acl_username u, acl_acl = acl_acl u\<rparr> = u" by simp
  have acls: "aclfile_loop (acl_username u) (lines_out (map (acl_entry_line ''topic'') (acl_acl u) @ ls)) db =
      aclfile_loop (acl_username u) (lines_out ls) ?db"
    using assms(1,2) by (simp add: acl_user_ok_def aclfile_topics add_acl_entries u)
  show ?thesis
  proof (cases "acl_username u")
    case None then show ?thesis using acls assms(3) by (simp add: acl_user_lines_def)
  next
    case (Some name)
    then have ok: "text_ok name" using assms(1) by (simp add: acl_user_ok_def)
    then have "CHR 0x0A \<notin> set (''user '' @ name)" "length (''user '' @ name) < 1023" "nul_free (''user '' @ name)"
      by (simp_all add: text_ok_def)
    then show ?thesis
      using acls Some acl_line_user [OF ok, of user db] by (simp add: acl_user_lines_def aclfile_loop_line)
  qed
qed

lemma aclfile_users:
  assumes "\<forall>u \<in> set us. acl_user_ok u" and "distinct (map acl_username (db_acl_list db @ us))"
    and "None \<notin> acl_username ` set (tl us)" and "user = None \<or> None \<notin> acl_username ` set us"
  shows "\<exists>user'. aclfile_loop user (lines_out (concat (map acl_user_lines us) @ ls)) db =
     aclfile_loop user' (lines_out ls) (db\<lparr>db_acl_list := db_acl_list db @ us\<rparr>)"
  using assms
proof (induction us arbitrary: user db)
  case Nil then show ?case by auto
next
  case (Cons u us)
  have "aclfile_loop user (lines_out (acl_user_lines u @ concat (map acl_user_lines us) @ ls)) db =
     aclfile_loop (acl_username u) (lines_out (concat (map acl_user_lines us) @ ls)) (db\<lparr>db_acl_list := db_acl_list db @ [u]\<rparr>)"
    using Cons.prems by (intro aclfile_user) auto
  moreover have "None \<notin> acl_username ` set (tl us)" using Cons.prems(3) by (cases us) auto
  ultimately show ?case
    using Cons.IH [of "db\<lparr>db_acl_list := db_acl_list db @ [u]\<rparr>" "acl_username u"] Cons.prems by auto
qed

section \<open>The password table\<close>

lemma memcmp_const_loop: "foldl (\<lambda>rc i. if P i then 1 else rc) (rc :: int) is = (if \<exists>i \<in> set is. P i then 1 else rc)"
  by (induction "is" arbitrary: rc) auto

lemma memcmp_const_eq: "length b = length a \<and> memcmp_const a b (length b) = 0 \<longleftrightarrow> a = b"
  unfolding memcmp_const_def memcmp_const_loop by (auto intro: nth_equalityI)

section \<open>Properties\<close>

text \<open>
  C11: The access decision.  With memory available and no plugin, \<open>mosquitto_acl_check\<close> never
  leaves a buffer and answers success exactly when access is allowed: there are no lists, the
  client is a bridge, an entry of its user matches the topic and grants the access, or a pattern
  does after its placeholders are replaced by the client identifier and the user name, neither
  of which may then hold a wildcard; in every other case access is denied.
\<close>

theorem acl_check_decides:
  assumes "env_auth_plugin e = None" and "\<And>n. env_malloc e n \<noteq> None"
    and "\<forall>acl \<in> set (db_acl_patterns db). acl_pattern_wf acl" and "ctx_id m = Some client"
  shows "mosquitto_acl_check e db m topic access =
     Some (if acl_allowed db m client topic access then MOSQ_ERR_SUCCESS else MOSQ_ERR_ACL_DENIED)"
proof -
  have wild: "opt_wildcard (ctx_id m) = has_wildcard client" using assms(4) by (simp add: opt_wildcard_def)
  have user: "acl_user_loop (case ctx_acl_list m of None \<Rightarrow> [] | Some u \<Rightarrow> acl_acl u) topic access
      = (\<exists>u acl. ctx_acl_list m = Some u \<and> acl \<in> set (acl_acl u) \<and> acl_grants acl (acl_topic acl) topic access)"
    by (cases "ctx_acl_list m") (auto simp: acl_user_loop_iff)
  show ?thesis
    using assms(1,4) acl_pattern_loop_eq [OF assms(2,3), of client "ctx_username m" topic access]
    unfolding mosquitto_acl_check_def mosquitto_acl_check_default_def acl_allowed_def wild user
    by (simp only: option.simps refl if_True simp_thms) auto
qed

definition acl_demo_db :: mosquitto_db where
  "acl_demo_db = snd (add_acl_pattern db_calloc ''d/%c/%u'' MOSQ_ACL_WRITE)"

lemma acl_demo_wf: "\<forall>acl \<in> set (db_acl_patterns acl_demo_db). acl_pattern_wf acl"
  unfolding acl_demo_db_def by (rule add_acl_pattern_wf) (simp add: db_calloc_def)

theorem acl_check_decides_witness:
  "mosquitto_acl_check plain_env acl_demo_db (context_calloc\<lparr>ctx_id := Some ''k'', ctx_username := Some ''me''\<rparr>)
     ''d/k/me'' MOSQ_ACL_WRITE = Some MOSQ_ERR_SUCCESS
   \<and> mosquitto_acl_check plain_env acl_demo_db (context_calloc\<lparr>ctx_id := Some ''#'', ctx_username := Some ''me''\<rparr>)
     ''d/k/me'' MOSQ_ACL_WRITE = Some MOSQ_ERR_ACL_DENIED"
proof -
  have env: "env_auth_plugin plain_env = None" "\<And>n. env_malloc plain_env n \<noteq> None" by (simp_all add: plain_env_def)
  show ?thesis
    using acl_check_decides [OF env acl_demo_wf, of "context_calloc\<lparr>ctx_id := Some ''k'', ctx_username := Some ''me''\<rparr>" "''k''"]
      acl_check_decides [OF env acl_demo_wf, of "context_calloc\<lparr>ctx_id := Some ''#'', ctx_username := Some ''me''\<rparr>" "''#''"]
    by (simp add: acl_allowed_def acl_demo_db_def add_acl_pattern_def db_calloc_def context_calloc_def opt_wildcard_def
      has_wildcard_def acl_grants_def mosquitto_topic_matches_sub_def matches_loop.simps)
qed

text \<open>
  C12: The buffer of a pattern.  For a pattern added by \<open>_add_acl_pattern\<close>, whatever the client
  identifier and the user name, \<open>mosquitto_acl_check_default\<close> asks for exactly one byte more than
  the expanded pattern has characters, and then writes every character before the terminator:
  nothing outside the buffer is written and no uninitialised character is matched.
\<close>

theorem acl_expansion_fills_buffer:
  assumes "acl = last (db_acl_patterns (snd (add_acl_pattern db topic access)))"
  shows "acl_expand e acl client username =
     (if env_malloc e (length (acl_subst client username topic) + 1) = None then Err 1
      else Ok (acl_subst client username topic))"
  using assms acl_expand_subst [of acl e client username]
  by (simp add: add_acl_pattern_def acl_pattern_wf_def)

theorem acl_expansion_fills_buffer_witness:
  "acl_expand plain_env (last (db_acl_patterns (snd (add_acl_pattern db_calloc ''%%c/%u'' 1)))) ''k'' (Some ''me'')
   = Ok ''%k/me''"
  using acl_expansion_fills_buffer [OF refl, of plain_env db_calloc "''%%c/%u''" 1 "''k''" "Some ''me''"]
  by (simp add: plain_env_def)

text \<open>
  C13: Reading back an ACL file.  A file that lists, user by user, the entries of an access
  control list, anonymous clients first, followed by patterns, is parsed without error into
  exactly these lists.  Names and topics must fit on a line: at most 1000 characters, no line
  break or NUL inside, no space at the front and no carriage return at the end.
\<close>

theorem acl_file_roundtrip:
  assumes "\<forall>u \<in> set users. acl_user_ok u" and "distinct (map acl_username users)"
    and "None \<notin> acl_username ` set (tl users)"
    and "\<forall>acl \<in> set patterns. acl_entry_ok acl \<and> acl_pattern_wf acl"
    and "db_acl_list db = []" and "db_acl_patterns db = []"
  shows "aclfile_parse (Some (acl_file users patterns)) db =
     (MOSQ_ERR_SUCCESS, db\<lparr>db_acl_list := users, db_acl_patterns := patterns\<rparr>)"
proof -
  obtain user' where "aclfile_loop None (acl_file users patterns) db =
      aclfile_loop user' (lines_out (map (acl_entry_line ''pattern'') patterns)) (db\<lparr>db_acl_list := users\<rparr>)"
    using aclfile_users [of users db None "map (acl_entry_line ''pattern'') patterns"] assms(1-3,5)
    by (auto simp: acl_file_def)
  then show ?thesis using aclfile_patterns [OF assms(4)] assms(6) by (simp add: aclfile_parse_def)
qed

definition acl_demo_users :: "mosquitto_acl_user list" where
  "acl_demo_users =
     [\<lparr>acl_username = None, acl_acl = [\<lparr>acl_topic = ''a/#'', acl_access = 1, acl_ucount = 0, acl_ccount = 0\<rparr>]\<rparr>,
      \<lparr>acl_username = Some ''me'', acl_acl = [\<lparr>acl_topic = ''b c'', acl_access = 3, acl_ucount = 0, acl_ccount = 0\<rparr>]\<rparr>]"

theorem acl_file_roundtrip_witness:
  "aclfile_parse (Some (acl_file acl_demo_users (db_acl_patterns acl_demo_db))) db_calloc =
     (MOSQ_ERR_SUCCESS, db_calloc\<lparr>db_acl_list := acl_demo_users, db_acl_patterns := db_acl_patterns acl_demo_db\<rparr>)"
  by (rule acl_file_roundtrip)
    (use acl_demo_wf in \<open>simp_all add: acl_demo_users_def acl_user_ok_def acl_entry_ok_def text_ok_def acl_demo_db_def
      add_acl_pattern_def db_calloc_def\<close>)

text \<open>
  C14: The password check.  With a user name, \<open>mosquitto_unpwd_check_default\<close> succeeds exactly
  if there is no password table, or the first entry of that name has no password or holds the
  digest of the given password with its salt; every other attempt is an authentication error.
\<close>

theorem unpwd_check_exact:
  "mosquitto_unpwd_check_default e db (Some username) password =
     (if db_unpwd db = [] \<or>
         (case find (\<lambda>u. unpwd_username u = username) (db_unpwd db) of
            None \<Rightarrow> False
          | Some u \<Rightarrow> unpwd_password u = None
              \<or> (\<exists>p. password = Some p \<and> unpwd_password u = Some (env_pw_digest e p (unpwd_salt u))))
      then MOSQ_ERR_SUCCESS else MOSQ_ERR_AUTH)"
proof -
  have "unpwd_loop e us username password =
      (case find (\<lambda>u. unpwd_username u = username) us of
         None \<Rightarrow> MOSQ_ERR_AUTH
       | Some u \<Rightarrow> if unpwd_password u = None
              \<or> (\<exists>p. password = Some p \<and> unpwd_password u = Some (env_pw_digest e p (unpwd_salt u)))
             then MOSQ_ERR_SUCCESS else MOSQ_ERR_AUTH)" for us
    by (induction us) (auto simp: Let_def memcmp_const_eq split: option.split)
  then show ?thesis
    by (auto simp: mosquitto_unpwd_check_default_def split: option.split)
qed

text \<open>
  C15: Entries collect under their user.  After any sequence of \<open>_add_acl\<close> calls the entries of
  a user are the ones it had followed by the added ones of that user, in the order of the calls.
\<close>

theorem add_acl_collects:
  "acls_of (db_acl_list (foldl (\<lambda>db (user, topic, access). snd (add_acl db user topic access)) db rules)) user =
     acls_of (db_acl_list db) user
       @ map (\<lambda>(_, topic, access). \<lparr>acl_topic = topic, acl_access = access, acl_ucount = 0, acl_ccount = 0\<rparr>)
           (filter (\<lambda>(user', _). user' = user) rules)"
proof -
  let ?entry = "\<lambda>(user, topic, access). (user, \<lparr>acl_topic = topic, acl_access = access, acl_ucount = 0, acl_ccount = 0\<rparr>)"
  have "db_acl_list (foldl (\<lambda>db (user, topic, access). snd (add_acl db user topic access)) db rules)
      = foldl (\<lambda>t (k, v). add_acl_entry t k v) (db_acl_list db) (map ?entry rules)"
    by (induction rules arbitrary: db) (auto simp: add_acl_def)
  then show ?thesis
    by (simp only: acl_users.look_adds) (simp add: filter_map comp_def case_prod_beta')
qed

end
