(* ===== verification/Mosq_Database.thy ===== *)
theory Mosq_Database
  imports Mosq_Send "HOL-Library.Multiset"
begin

text \<open>
  The message store and the message queues of the clients (\<open>database.c\<close>), as far as they do not
  need the subscription tree.  A stored message is shared by the queues that refer to it and by
  the tree; \<open>ref_count\<close> says how often.  The cursors \<open>tail\<close> and \<open>last\<close> of the loops over
  \<open>context->msgs\<close> are the index of \<open>tail\<close>; \<open>last\<close> is the element before it.
\<close>

section \<open>The message store\<close>

definition msg_store_add :: "mosquitto_db \<Rightarrow> storeid \<Rightarrow> mosquitto_db" where
  "msg_store_add db s = db\<lparr>db_msg_store := s # db_msg_store db\<rparr>"

text \<open>Removing frees the message; a message that is not in the store has been freed before.\<close>

definition msg_store_remove :: "mosquitto_db \<Rightarrow> storeid \<Rightarrow> mosquitto_db" where
  "msg_store_remove db s =
     (if s \<in> set (db_msg_store db)
      then db\<lparr>db_msg_store := remove1 s (db_msg_store db), db_msg_store_count := db_msg_store_count db - 1\<rparr>
      else db\<lparr>db_aborted := True\<rparr>)"

fun msg_store_clean_loop :: "mosquitto_db \<Rightarrow> storeid list \<Rightarrow> mosquitto_db" where
  "msg_store_clean_loop db [] = db"
| "msg_store_clean_loop db (s # ss) = msg_store_clean_loop (msg_store_remove db s) ss"

definition msg_store_clean :: "mosquitto_db \<Rightarrow> mosquitto_db" where
  "msg_store_clean db = msg_store_clean_loop db (db_msg_store db)"

definition add_ref :: "int \<Rightarrow> mosquitto_msg_store \<Rightarrow> mosquitto_msg_store" where
  "add_ref n st = st\<lparr>store_ref_count := store_ref_count st + n\<rparr>"

text \<open>Access to \<open>ref_count\<close> of a freed message is an error.\<close>

definition msg_store_ref :: "mosquitto_db \<Rightarrow> storeid \<Rightarrow> mosquitto_db" where
  "msg_store_ref db s =
     (if s \<in> set (db_msg_store db) then upd_store s (add_ref 1) db else db\<lparr>db_aborted := True\<rparr>)"

definition msg_store_deref :: "mosquitto_db \<Rightarrow> storeid \<Rightarrow> mosquitto_db" where
  "msg_store_deref db s =
     (if s \<in> set (db_msg_store db)
      then let db = upd_store s (add_ref (- 1)) db
           in if store_ref_count (db_stores db s) = 0 then msg_store_remove db s else db
      else db\<lparr>db_aborted := True\<rparr>)"

definition new_store :: "string \<Rightarrow> u16 \<Rightarrow> string option \<Rightarrow> int \<Rightarrow> byte list \<Rightarrow> bool \<Rightarrow> u64 \<Rightarrow> mosquitto_msg_store" where
  "new_store source source_mid topic qos payload retain db_id =
     \<lparr>store_db_id = db_id, store_source_id = source, store_dest_ids = [], store_ref_count = 0,
       store_topic = topic, store_payload = payload, store_source_mid = source_mid, store_mid = 0,
       store_qos = qos, store_retain = retain\<rparr>"

text \<open>\<open>mqtt3_db_message_store\<close>: the return code and the address of the new message.\<close>

definition mqtt3_db_message_store ::
    "mosq_env \<Rightarrow> mosquitto_db \<Rightarrow> string \<Rightarrow> u16 \<Rightarrow> string option \<Rightarrow> int \<Rightarrow> byte list \<Rightarrow> bool \<Rightarrow> u64
     \<Rightarrow> int \<times> storeid option \<times> mosquitto_db" where
  "mqtt3_db_message_store e db source source_mid topic qos payload retain store_id =
     (if payload \<noteq> [] \<and> env_malloc e (length payload) = None then (MOSQ_ERR_NOMEM, None, db)
      else let s = db_next_store db;
               last_db_id = (if store_id = 0 then db_last_db_id db + 1 else db_last_db_id db);
               db_id = (if store_id = 0 then last_db_id else store_id);
               db = db\<lparr>db_next_store := s + 1, db_msg_store_count := db_msg_store_count db + 1,
                       db_last_db_id := last_db_id,
                       db_stores := (db_stores db)(s := new_store source source_mid topic qos payload retain db_id)\<rparr>
           in (MOSQ_ERR_SUCCESS, Some s, msg_store_add db s))"

definition mqtt3_db_message_store_find :: "mosquitto_db \<Rightarrow> ctxid \<Rightarrow> u16 \<Rightarrow> int \<times> storeid option" where
  "mqtt3_db_message_store_find db c mid =
     (case find (\<lambda>msg. store_source_mid (db_stores db (cmsg_store msg)) = mid \<and> cmsg_direction msg = mosq_md_in)
             (ctx_msgs (db_contexts db c)) of
        Some msg \<Rightarrow> (MOSQ_ERR_SUCCESS, Some (cmsg_store msg))
      | None \<Rightarrow> (1, None))"

section \<open>States of queued messages\<close>

text \<open>The \<open>switch(qos)\<close> that makes a queued message ready to be published.\<close>

definition publish_state :: "int \<Rightarrow> mosquitto_msg_state \<Rightarrow> mosquitto_msg_state" where
  "publish_state qos state =
     (if qos = 0 then mosq_ms_publish_qos0 else if qos = 1 then mosq_ms_publish_qos1
      else if qos = 2 then mosq_ms_publish_qos2 else state)"

abbreviation set_state :: "mosquitto_msg_state \<Rightarrow> mosquitto_client_msg \<Rightarrow> mosquitto_client_msg" where
  "set_state state msg \<equiv> msg\<lparr>cmsg_state := state\<rparr>"

text \<open>In \<open>_message_remove\<close>.  The loop counter is never incremented, so only \<open>0 < max_inflight\<close> counts.\<close>

definition promote :: "mosquitto_client_msg \<Rightarrow> mosquitto_client_msg" where
  "promote tail =
     (if cmsg_direction tail = mosq_md_out then set_state (publish_state (cmsg_qos tail) (cmsg_state tail)) tail
      else if cmsg_qos tail = 2 then set_state mosq_ms_send_pubrec tail
      else tail)"

fun promote_loop :: "int \<Rightarrow> mosquitto_client_msg list \<Rightarrow> mosquitto_client_msg list" where
  "promote_loop max_inflight [] = []"
| "promote_loop max_inflight (tail # msgs) =
     (if cmsg_state tail = mosq_ms_queued \<and> 0 < max_inflight
      then promote tail # promote_loop max_inflight msgs
      else tail # msgs)"

text \<open>In \<open>mqtt3_db_message_delete\<close> and \<open>mqtt3_db_message_release\<close>: a queued message within the window.\<close>

definition activate :: "int \<Rightarrow> mosquitto_client_msg \<Rightarrow> mosquitto_client_msg" where
  "activate now tail =
     (let tail = tail\<lparr>cmsg_timestamp := now\<rparr>
      in if cmsg_direction tail = mosq_md_out then set_state (publish_state (cmsg_qos tail) (cmsg_state tail)) tail
         else if cmsg_qos tail = 2 then set_state mosq_ms_wait_for_pubrel tail
         else tail)"

section \<open>The queue of a client\<close>

definition upd_msg :: "ctxid \<Rightarrow> nat \<Rightarrow> (mosquitto_client_msg \<Rightarrow> mosquitto_client_msg) \<Rightarrow> mosquitto_db \<Rightarrow> mosquitto_db" where
  "upd_msg c i f = upd_ctx c (\<lambda>m. m\<lparr>ctx_msgs := (ctx_msgs m)[i := f (ctx_msgs m ! i)]\<rparr>)"

definition unlink_msg :: "int \<Rightarrow> nat \<Rightarrow> mosquitto \<Rightarrow> mosquitto" where
  "unlink_msg max_inflight i m =
     (let msg = ctx_msgs m ! i;
          msgs = take i (ctx_msgs m) @ drop (Suc i) (ctx_msgs m)
      in m\<lparr>ctx_msgs := promote_loop max_inflight msgs,
           ctx_last_msg :=
             (if i > 0 then if drop (Suc i) (ctx_msgs m) = [] then LastValid else ctx_last_msg m
              else if msgs = [] then LastNull else ctx_last_msg m),
           ctx_msg_count := ctx_msg_count m - 1,
           ctx_msg_count12 := (if cmsg_qos msg > 0 then ctx_msg_count12 m - 1 else ctx_msg_count12 m)\<rparr>)"

text \<open>\<open>_message_remove\<close> of the message at index \<open>i\<close>; afterwards \<open>tail\<close> is the one at the same index.\<close>

definition message_remove :: "mosquitto_db \<Rightarrow> ctxid \<Rightarrow> nat \<Rightarrow> mosquitto_db" where
  "message_remove db c i =
     (if i < length (ctx_msgs (db_contexts db c))
      then upd_ctx c (unlink_msg (db_max_inflight db) i)
             (msg_store_deref db (cmsg_store (ctx_msgs (db_contexts db c) ! i)))
      else db)"

lemma length_promote_loop [simp]: "length (promote_loop n msgs) = length msgs"
  by (induction n msgs rule: promote_loop.induct) auto

lemma msg_store_deref_contexts [simp]: "db_contexts (msg_store_deref db s) = db_contexts db"
  by (simp add: msg_store_deref_def msg_store_remove_def Let_def)

lemma length_message_remove:
  "i < length (ctx_msgs (db_contexts db c)) \<Longrightarrow>
   length (ctx_msgs (db_contexts (message_remove db c i) c)) = length (ctx_msgs (db_contexts db c)) - 1"
  by (simp add: message_remove_def unlink_msg_def Let_def)

lemma upd_msg_contexts:
  "db_contexts (upd_msg c i f db) =
     (db_contexts db)(c := (db_contexts db c)\<lparr>ctx_msgs := (ctx_msgs (db_contexts db c))[i := f (ctx_msgs (db_contexts db c) ! i)]\<rparr>)"
  by (simp add: upd_msg_def)

function message_delete_loop ::
    "mosq_env \<Rightarrow> mosquitto_db \<Rightarrow> ctxid \<Rightarrow> u16 \<Rightarrow> mosquitto_msg_direction \<Rightarrow> nat \<Rightarrow> int \<Rightarrow> bool \<Rightarrow> mosquitto_db" where
  "message_delete_loop e db c mid dir i msg_index deleted =
     (if i < length (ctx_msgs (db_contexts db c))
      then let msg_index = msg_index + 1;
               tail = ctx_msgs (db_contexts db c) ! i;
               db = (if cmsg_state tail = mosq_ms_queued \<and> msg_index \<le> db_max_inflight db
                     then upd_msg c i (activate (env_now e)) db else db)
           in if cmsg_mid tail = mid \<and> cmsg_direction tail = dir
              then let msg_index = msg_index - 1; db = message_remove db c i
                   in if msg_index > db_max_inflight db then db
                      else message_delete_loop e db c mid dir i msg_index True
              else if msg_index > db_max_inflight db \<and> deleted then db
                   else message_delete_loop e db c mid dir (i + 1) msg_index deleted
      else db)"
  by pat_completeness auto
termination
  by (relation "measure (\<lambda>(e, db, c, mid, dir, i, k, d). length (ctx_msgs (db_contexts db c)) - i)")
    (auto simp: length_message_remove upd_msg_contexts)

declare message_delete_loop.simps [simp del]

definition mqtt3_db_message_delete ::
    "mosq_env \<Rightarrow> mosquitto_db \<Rightarrow> ctxid \<Rightarrow> u16 \<Rightarrow> mosquitto_msg_direction \<Rightarrow> int \<times> mosquitto_db" where
  "mqtt3_db_message_delete e db c mid dir =
     (MOSQ_ERR_SUCCESS, message_delete_loop e db c mid dir 0 0 False)"

section \<open>Inserting\<close>

text \<open>
  What \<open>mqtt3_db_message_insert\<close> decides about a message: to return a code without a change, to
  count it as dropped, or to append it with a state and return a code.
\<close>

datatype insert_decision = Refuse int | Drop | Enqueue mosquitto_msg_state int

definition insert_decide ::
    "mosquitto_db \<Rightarrow> mosquitto \<Rightarrow> mosquitto_msg_direction \<Rightarrow> int \<Rightarrow> insert_decision" where
  "insert_decide db context dir qos =
     (if ctx_sock context \<noteq> INVALID_SOCKET
      then if qos = 0 \<or> db_max_inflight db = 0 \<or> ctx_msg_count12 context < db_max_inflight db
           then if dir = mosq_md_out then Enqueue (publish_state qos mosq_ms_invalid) 0
                else if qos = 2 then Enqueue mosq_ms_wait_for_pubrel 0 else Refuse 1
           else if db_max_queued db = 0 \<or> ctx_msg_count12 context - db_max_inflight db < db_max_queued db
           then Enqueue mosq_ms_queued 2
           else Drop
      else if db_max_queued db > 0 \<and> ctx_msg_count12 context \<ge> db_max_queued db then Drop
      else Enqueue mosq_ms_queued 0)"

text \<open>Linking a message through \<open>context->last_msg\<close>.\<close>

definition link_msg :: "mosquitto_client_msg \<Rightarrow> mosquitto \<Rightarrow> mosquitto" where
  "link_msg msg m =
     (let m = (case ctx_last_msg m of
                 LastValid \<Rightarrow> m\<lparr>ctx_msgs := ctx_msgs m @ [msg]\<rparr>
               | LastNull \<Rightarrow> m\<lparr>ctx_msgs := [msg], ctx_last_msg := LastValid\<rparr>
               | LastDangling \<Rightarrow> m\<lparr>ctx_aborted := True\<rparr>)
      in m\<lparr>ctx_msg_count := ctx_msg_count m + 1,
           ctx_msg_count12 := (if cmsg_qos msg > 0 then ctx_msg_count12 m + 1 else ctx_msg_count12 m)\<rparr>)"

text \<open>A lazy bridge asks to be connected when enough messages wait for it.\<close>

definition wake_lazy_bridge :: "mosquitto \<Rightarrow> mosquitto" where
  "wake_lazy_bridge m =
     (case ctx_bridge m of
        None \<Rightarrow> m
      | Some bridge \<Rightarrow>
          if br_start_type bridge = bst_lazy \<and> ctx_sock m = INVALID_SOCKET
             \<and> ctx_msg_count m \<ge> br_threshold bridge
          then m\<lparr>ctx_bridge := Some (bridge\<lparr>br_lazy_reconnect := True\<rparr>)\<rparr> else m)"

definition add_dest_id :: "string \<Rightarrow> mosquitto_msg_store \<Rightarrow> mosquitto_msg_store" where
  "add_dest_id client st = st\<lparr>store_dest_ids := store_dest_ids st @ [client]\<rparr>"

definition enqueue_msg :: "mosq_env \<Rightarrow> mosquitto_db \<Rightarrow> ctxid \<Rightarrow> string \<Rightarrow> mosquitto_client_msg \<Rightarrow> mosquitto_db" where
  "enqueue_msg e db c client msg =
     (let db = (if cmsg_state msg = mosq_ms_queued
                then db\<lparr>db_persistence_changes := db_persistence_changes db + 1\<rparr> else db);
          db = upd_ctx c (link_msg msg) (msg_store_ref db (cmsg_store msg));
          db = (if \<not> cfg_allow_duplicate_messages (env_config e)
                   \<and> cmsg_direction msg = mosq_md_out \<and> \<not> cmsg_retain msg
                then upd_store (cmsg_store msg) (add_dest_id client) db else db)
      in upd_ctx c wake_lazy_bridge db)"

definition mqtt3_db_message_insert ::
    "mosq_env \<Rightarrow> mosquitto_db \<Rightarrow> ctxid \<Rightarrow> u16 \<Rightarrow> mosquitto_msg_direction \<Rightarrow> int \<Rightarrow> bool \<Rightarrow> storeid
     \<Rightarrow> int \<times> mosquitto_db" where
  "mqtt3_db_message_insert e db c mid dir qos retain stored =
     (let context = db_contexts db c
      in case ctx_id context of
           None \<Rightarrow> (MOSQ_ERR_SUCCESS, db)
         | Some client \<Rightarrow>
             if \<not> cfg_allow_duplicate_messages (env_config e) \<and> dir = mosq_md_out \<and> \<not> retain
                \<and> client \<in> set (store_dest_ids (db_stores db stored))
             then (MOSQ_ERR_SUCCESS, db)
             else if ctx_sock context = INVALID_SOCKET \<and> qos = 0 \<and> \<not> cfg_queue_qos0_messages (env_config e)
                \<and> (case ctx_bridge context of None \<Rightarrow> True | Some bridge \<Rightarrow> br_start_type bridge \<noteq> bst_lazy)
             then (2, db)
             else case insert_decide db context dir qos of
                    Refuse rc \<Rightarrow> (rc, db)
                  | Drop \<Rightarrow> (2, upd_ctx c (\<lambda>m. m\<lparr>ctx_is_dropping := True\<rparr>)
                                 (db\<lparr>db_msgs_dropped := db_msgs_dropped db + 1\<rparr>))
                  | Enqueue state rc \<Rightarrow>
                      if state = mosq_ms_invalid then (MOSQ_ERR_ERRNO, db\<lparr>db_aborted := True\<rparr>)
                      else (rc, enqueue_msg e db c client
                              \<lparr>cmsg_store = stored, cmsg_timestamp = env_now e, cmsg_mid = mid,
                               cmsg_qos = qos, cmsg_retain = retain, cmsg_direction = dir,
                               cmsg_state = state, cmsg_dup = False\<rparr>))"

section \<open>Updating, clearing, resetting\<close>

fun update_first :: "('a \<Rightarrow> bool) \<Rightarrow> ('a \<Rightarrow> 'a) \<Rightarrow> 'a list \<Rightarrow> 'a list" where
  "update_first P f [] = []"
| "update_first P f (x # xs) = (if P x then f x # xs else x # update_first P f xs)"

definition mqtt3_db_message_update ::
    "mosq_env \<Rightarrow> mosquitto \<Rightarrow> u16 \<Rightarrow> mosquitto_msg_direction \<Rightarrow> mosquitto_msg_state \<Rightarrow> int \<times> mosquitto" where
  "mqtt3_db_message_update e m mid dir state =
     (let hit = (\<lambda>tail. cmsg_mid tail = mid \<and> cmsg_direction tail = dir)
      in if list_ex hit (ctx_msgs m)
         then (MOSQ_ERR_SUCCESS,
               m\<lparr>ctx_msgs := update_first hit
                   (\<lambda>tail. tail\<lparr>cmsg_state := state, cmsg_timestamp := env_now e\<rparr>) (ctx_msgs m)\<rparr>)
         else (MOSQ_ERR_NOT_FOUND, m))"

fun messages_delete_loop :: "mosquitto_db \<Rightarrow> mosquitto_client_msg list \<Rightarrow> mosquitto_db" where
  "messages_delete_loop db [] = db"
| "messages_delete_loop db (tail # msgs) = messages_delete_loop (msg_store_deref db (cmsg_store tail)) msgs"

definition mqtt3_db_messages_delete :: "mosquitto_db \<Rightarrow> ctxid \<Rightarrow> int \<times> mosquitto_db" where
  "mqtt3_db_messages_delete db c =
     (MOSQ_ERR_SUCCESS,
      upd_ctx c (\<lambda>m. m\<lparr>ctx_msgs := [], ctx_last_msg := LastNull, ctx_msg_count := 0, ctx_msg_count12 := 0\<rparr>)
        (messages_delete_loop db (ctx_msgs (db_contexts db c))))"

text \<open>The state an outgoing message restarts from.\<close>

definition reset_out :: "mosquitto_client_msg \<Rightarrow> mosquitto_client_msg" where
  "reset_out msg =
     (if cmsg_state msg = mosq_ms_queued then msg
      else if cmsg_qos msg = 2 \<and> cmsg_state msg = mosq_ms_wait_for_pubcomp
      then set_state mosq_ms_resend_pubrel msg
      else set_state (publish_state (cmsg_qos msg) (cmsg_state msg)) msg)"

text \<open>
  The first loop of \<open>mqtt3_db_message_reconnect_reset\<close>.  \<open>last_msg\<close> follows the cursor, so it is
  the last message only at the end of the list.  After a removal the cursor is moved on once more.
\<close>

definition reset_visit :: "nat \<Rightarrow> mosquitto \<Rightarrow> mosquitto" where
  "reset_visit i m =
     (let msg = ctx_msgs m ! i
      in m\<lparr>ctx_last_msg := (if Suc i = length (ctx_msgs m) then LastValid else LastDangling),
           ctx_msg_count := ctx_msg_count m + 1,
           ctx_msg_count12 := (if cmsg_qos msg > 0 then ctx_msg_count12 m + 1 else ctx_msg_count12 m),
           ctx_msgs := (ctx_msgs m)[i := if cmsg_direction msg = mosq_md_out then reset_out msg else msg]\<rparr>)"

function reconnect_reset_loop :: "mosquitto_db \<Rightarrow> ctxid \<Rightarrow> nat \<Rightarrow> mosquitto_db" where
  "reconnect_reset_loop db c i =
     (if i < length (ctx_msgs (db_contexts db c))
      then let msg = ctx_msgs (db_contexts db c) ! i;
               db = upd_ctx c (reset_visit i) db
           in reconnect_reset_loop
                (if cmsg_direction msg = mosq_md_in \<and> cmsg_qos msg \<noteq> 2 then message_remove db c i else db)
                c (i + 1)
      else db)"
  by pat_completeness auto
termination
  by (relation "measure (\<lambda>(db, c, i). length (ctx_msgs (db_contexts db c)) - i)")
    (auto simp: length_message_remove reset_visit_def Let_def)

declare reconnect_reset_loop.simps [simp del]

fun requeue_loop :: "int \<Rightarrow> int \<Rightarrow> mosquitto_client_msg list \<Rightarrow> mosquitto_client_msg list" where
  "requeue_loop max_inflight n [] = []"
| "requeue_loop max_inflight n (msg # msgs) =
     (if max_inflight = 0 \<or> n < max_inflight
      then (if cmsg_state msg = mosq_ms_queued
            then set_state (publish_state (cmsg_qos msg) (cmsg_state msg)) msg else msg)
           # requeue_loop max_inflight (n + 1) msgs
      else msg # msgs)"

definition mqtt3_db_message_reconnect_reset :: "mosquitto_db \<Rightarrow> ctxid \<Rightarrow> int \<times> mosquitto_db" where
  "mqtt3_db_message_reconnect_reset db c =
     (let db = upd_ctx c (\<lambda>m. m\<lparr>ctx_msg_count := 0, ctx_msg_count12 := 0\<rparr>) db;
          db = reconnect_reset_loop db c 0
      in (MOSQ_ERR_SUCCESS,
          upd_ctx c (\<lambda>m. m\<lparr>ctx_msgs := requeue_loop (db_max_inflight db) 0 (ctx_msgs m)\<rparr>) db))"

section \<open>Timeouts\<close>

definition retry_state :: "mosquitto_msg_state \<Rightarrow> mosquitto_msg_state" where
  "retry_state state =
     (case state of
        mosq_ms_wait_for_puback \<Rightarrow> mosq_ms_publish_qos1
      | mosq_ms_wait_for_pubrec \<Rightarrow> mosq_ms_publish_qos2
      | mosq_ms_wait_for_pubrel \<Rightarrow> mosq_ms_send_pubrec
      | mosq_ms_wait_for_pubcomp \<Rightarrow> mosq_ms_resend_pubrel
      | _ \<Rightarrow> mosq_ms_invalid)"

definition timeout_msg :: "int \<Rightarrow> int \<Rightarrow> mosquitto_client_msg \<Rightarrow> mosquitto_client_msg" where
  "timeout_msg now threshold msg =
     (if cmsg_timestamp msg < threshold \<and> cmsg_state msg \<noteq> mosq_ms_queued
         \<and> retry_state (cmsg_state msg) \<noteq> mosq_ms_invalid
      then msg\<lparr>cmsg_timestamp := now, cmsg_state := retry_state (cmsg_state msg), cmsg_dup := True\<rparr>
      else msg)"

fun timeout_loop :: "int \<Rightarrow> int \<Rightarrow> mosquitto_db \<Rightarrow> ctxid list \<Rightarrow> mosquitto_db" where
  "timeout_loop now threshold db [] = db"
| "timeout_loop now threshold db (c # cs) =
     timeout_loop now threshold
       (upd_ctx c (\<lambda>m. m\<lparr>ctx_msgs := map (timeout_msg now threshold) (ctx_msgs m)\<rparr>) db) cs"

definition mqtt3_db_message_timeout_check :: "mosq_env \<Rightarrow> mosquitto_db \<Rightarrow> u32 \<Rightarrow> int \<times> mosquitto_db" where
  "mqtt3_db_message_timeout_check e db timeout =
     (MOSQ_ERR_SUCCESS,
      timeout_loop (env_now e) (env_now e - uint timeout) db (db_contexts_by_sock db))"

definition mqtt3_db_limits_set :: "mosquitto_db \<Rightarrow> int \<Rightarrow> int \<Rightarrow> mosquitto_db" where
  "mqtt3_db_limits_set db inflight queued = db\<lparr>db_max_inflight := inflight, db_max_queued := queued\<rparr>"

section \<open>Writing\<close>

text \<open>
  \<open>mqtt3_db_message_write\<close>: one state of a message that is not queued.  The result is the return
  code, the new connection, and what becomes of the message: it is removed or gets a new value.
\<close>

definition write_publish ::
    "mosq_env \<Rightarrow> mosquitto_db \<Rightarrow> mosquitto \<Rightarrow> mosquitto_client_msg \<Rightarrow> int \<times> mosquitto" where
  "write_publish e db m tail =
     (let stored = db_stores db (cmsg_store tail)
      in mosquitto_send_publish e m (cmsg_mid tail) (store_topic stored)
           (of_nat (length (store_payload stored))) (store_payload stored)
           (cmsg_qos tail) (cmsg_retain tail) (cmsg_dup tail))"

definition write_msg ::
    "mosq_env \<Rightarrow> mosquitto_db \<Rightarrow> mosquitto \<Rightarrow> mosquitto_client_msg
     \<Rightarrow> int \<times> mosquitto \<times> mosquitto_client_msg option" where
  "write_msg e db m tail =
     (let sent = (\<lambda>state. tail\<lparr>cmsg_timestamp := env_now e, cmsg_dup := True, cmsg_state := state\<rparr>)
      in case cmsg_state tail of
           mosq_ms_publish_qos0 \<Rightarrow>
             (case write_publish e db m tail of (rc, m) \<Rightarrow> (rc, m, None))
         | mosq_ms_publish_qos1 \<Rightarrow>
             (case write_publish e db m tail of (rc, m) \<Rightarrow> (rc, m, Some (sent mosq_ms_wait_for_puback)))
         | mosq_ms_publish_qos2 \<Rightarrow>
             (case write_publish e db m tail of (rc, m) \<Rightarrow> (rc, m, Some (sent mosq_ms_wait_for_pubrec)))
         | mosq_ms_send_pubrec \<Rightarrow>
             (case mosquitto_send_pubrec e m (cmsg_mid tail) of
                (rc, m) \<Rightarrow> (rc, m, Some (set_state mosq_ms_wait_for_pubrel tail)))
         | mosq_ms_resend_pubrel \<Rightarrow>
             (case mosquitto_send_pubrel e m (cmsg_mid tail) of
                (rc, m) \<Rightarrow> (rc, m, Some (set_state mosq_ms_wait_for_pubcomp tail)))
         | mosq_ms_resend_pubcomp \<Rightarrow>
             (case mosquitto_send_pubcomp e m (cmsg_mid tail) of
                (rc, m) \<Rightarrow> (rc, m, Some (set_state mosq_ms_wait_for_pubrel tail)))
         | _ \<Rightarrow> (MOSQ_ERR_SUCCESS, m, Some tail))"

lemma write_msg_conn_frame: "write_msg e db m tail = (rc, m', t) \<Longrightarrow> conn_frame m' = conn_frame m"
proof -
  have fst: "f = (rc, x) \<Longrightarrow> conn_frame (snd f) = conn_frame m \<Longrightarrow> conn_frame x = conn_frame m"
    for f :: "int \<times> mosquitto" and rc x by simp
  assume "write_msg e db m tail = (rc, m', t)"
  then show ?thesis
    by (cases "cmsg_state tail")
      (auto simp: write_msg_def write_publish_def Let_def split: prod.splits elim!: fst)
qed

text \<open>
  The loop; \<open>None\<close> is the loop that does not end: a queued incoming message that is not QoS 2
  is neither changed nor passed.
\<close>

function message_write_loop ::
    "mosq_env \<Rightarrow> mosquitto_db \<Rightarrow> ctxid \<Rightarrow> nat \<Rightarrow> int \<Rightarrow> (int \<times> mosquitto_db) option" where
  "message_write_loop e db c i msg_count =
     (if i < length (ctx_msgs (db_contexts db c))
      then let tail = ctx_msgs (db_contexts db c) ! i;
               msg_count = (if cmsg_direction tail = mosq_md_in then msg_count + 1 else msg_count)
           in if cmsg_state tail \<noteq> mosq_ms_queued
              then case write_msg e db (db_contexts db c) tail of
                     (rc, context, tail') \<Rightarrow>
                       let db = upd_ctx c (\<lambda>_. context) db
                       in if rc \<noteq> 0 then Some (rc, db)
                          else case tail' of
                                 None \<Rightarrow> message_write_loop e (message_remove db c i) c i msg_count
                               | Some tail' \<Rightarrow>
                                   message_write_loop e (upd_msg c i (\<lambda>_. tail') db) c (i + 1) msg_count
              else if cmsg_direction tail = mosq_md_in
                      \<and> (db_max_inflight db = 0 \<or> msg_count < db_max_inflight db)
              then if cmsg_qos tail = 2
                   then message_write_loop e (upd_msg c i (set_state mosq_ms_send_pubrec) db) c i msg_count
                   else None
              else message_write_loop e db c (i + 1) msg_count
      else Some (MOSQ_ERR_SUCCESS, db))"
  by pat_completeness auto
termination
proof (relation "measures [\<lambda>(e, db, c, i, k). length (ctx_msgs (db_contexts db c)) - i,
    \<lambda>(e, db, c, i, k). if cmsg_state (ctx_msgs (db_contexts db c) ! i) = mosq_ms_queued then 1 else 0]",
    goal_cases)
qed (auto simp: length_message_remove upd_msg_contexts dest!: sym [of "(_, _, _)"] write_msg_conn_frame
    dest: conn_frame_fields(1))

declare message_write_loop.simps [simp del]

definition mqtt3_db_message_write :: "mosq_env \<Rightarrow> mosquitto_db \<Rightarrow> ctxid \<Rightarrow> (int \<times> mosquitto_db) option" where
  "mqtt3_db_message_write e db c =
     (let context = db_contexts db c
      in if ctx_sock context = INVALID_SOCKET
            \<or> ctx_state context = mosq_cs_connected \<and> ctx_id context = None
         then Some (MOSQ_ERR_INVAL, db)
         else if ctx_state context \<noteq> mosq_cs_connected then Some (MOSQ_ERR_SUCCESS, db)
         else message_write_loop e db c 0 0)"

end
