(* ===== verification/Mosq_Refs.thy ===== *)
theory Mosq_Refs
  imports Mosq_Database
begin

text \<open>
  The invariant of the message database: reference counts are exact, everything referred to is
  alive, and the queue of every client is well formed.  Every operation of \<open>database.c\<close> on the
  store and the queues keeps it.
\<close>

section \<open>Reference counting\<close>

text \<open>
  The contract of a store with counted references: \<open>inv R d\<close> says that \<open>R\<close> is the multiset of all
  references that are held; holding a reference keeps its target alive.
\<close>

locale counted_store =
  fixes inv :: "'s multiset \<Rightarrow> 'd \<Rightarrow> bool" and live :: "'d \<Rightarrow> 's set"
    and ref :: "'d \<Rightarrow> 's \<Rightarrow> 'd" and deref :: "'d \<Rightarrow> 's \<Rightarrow> 'd"
  assumes inv_live: "inv R d \<Longrightarrow> s \<in># R \<Longrightarrow> s \<in> live d"
    and inv_ref: "inv R d \<Longrightarrow> s \<in> live d \<Longrightarrow> inv (add_mset s R) (ref d s)"
    and inv_deref: "inv (add_mset s R) d \<Longrightarrow> inv R (deref d s)"
begin

lemma deref_all: "inv (mset ss + R) d \<Longrightarrow> inv R (foldl deref d ss)"
proof (induction ss arbitrary: d)
  case (Cons s ss)
  then have "inv (mset ss + R) (deref d s)" by (intro inv_deref) simp
  with Cons.IH show ?case by simp
qed simp

lemma move_ref: "inv (add_mset s R) d \<Longrightarrow> t \<in> live d \<Longrightarrow> inv (add_mset t R) (deref (ref d t) s)"
  using inv_ref [of "add_mset s R" d t] inv_deref [of s "add_mset t R" "ref d t"]
  by (simp add: add_mset_commute)

lemma ref_then_live: "inv R d \<Longrightarrow> s \<in> live d \<Longrightarrow> s \<in> live (ref d s)"
  using inv_live [OF inv_ref, of R d s s] by simp

end

definition store_inv :: "storeid multiset \<Rightarrow> mosquitto_db \<Rightarrow> bool" where
  "store_inv R db \<longleftrightarrow> distinct (db_msg_store db) \<and> set_mset R \<subseteq> set (db_msg_store db)
     \<and> (\<forall>s \<in> set (db_msg_store db). store_ref_count (db_stores db s) = int (count R s) \<and> s < db_next_store db)
     \<and> db_msg_store_count db = int (length (db_msg_store db)) \<and> \<not> db_aborted db"

definition live_stores :: "mosquitto_db \<Rightarrow> storeid set" where
  "live_stores db = set (db_msg_store db)"

lemma store_inv_ref:
  "store_inv R db \<Longrightarrow> s \<in> live_stores db \<Longrightarrow> store_inv (add_mset s R) (msg_store_ref db s)"
  by (auto simp: store_inv_def live_stores_def msg_store_ref_def add_ref_def)

lemma store_inv_deref:
  assumes "store_inv (add_mset s R) db"
  shows "store_inv R (msg_store_deref db s)"
proof -
  have s: "s \<in> set (db_msg_store db)" "store_ref_count (db_stores db s) = int (count R s) + 1"
    using assms by (auto simp: store_inv_def)
  have sub: "set_mset R \<subseteq> set (db_msg_store db)" using assms by (auto simp: store_inv_def)
  have "0 < length (db_msg_store db)" using s(1) by (auto simp: length_pos_if_in_set)
  then have "int (length (remove1 s (db_msg_store db))) = int (length (db_msg_store db)) - 1"
    using s(1) by (simp only: length_remove1 if_True)
  then show ?thesis
    using assms s sub
    by (auto simp: store_inv_def msg_store_deref_def msg_store_remove_def Let_def add_ref_def of_nat_diff
        not_in_iff [symmetric])
qed

interpretation msg_store: counted_store store_inv live_stores msg_store_ref msg_store_deref
  by unfold_locales (auto simp: store_inv_ref store_inv_deref, auto simp: store_inv_def live_stores_def)

lemma store_inv_upd_ctx [simp]: "store_inv R (upd_ctx c f db) = store_inv R db"
  by (simp add: store_inv_def)

lemma live_stores_upd [simp]:
  "live_stores (upd_ctx c f db) = live_stores db" "live_stores (upd_store s g db) = live_stores db"
  by (simp_all add: live_stores_def)

section \<open>References of queues and of the tree\<close>

definition queue_refs :: "mosquitto \<Rightarrow> storeid multiset" where
  "queue_refs m = mset (map cmsg_store (ctx_msgs m))"

fun tree_refs :: "subhier \<Rightarrow> storeid multiset" where
  "tree_refs (Subhier topic subs children retained parent) =
     (case retained of None \<Rightarrow> {#} | Some s \<Rightarrow> {#s#}) + sum_list (map tree_refs children)"

definition busy :: "mosquitto_db \<Rightarrow> ctxid set" where
  "busy db = {c. ctx_msgs (db_contexts db c) \<noteq> []}"

definition all_queue_refs :: "mosquitto_db \<Rightarrow> storeid multiset" where
  "all_queue_refs db = (\<Sum>c \<in> busy db. queue_refs (db_contexts db c))"

lemma all_queue_refs_superset:
  assumes "finite A" and "busy db \<subseteq> A"
  shows "all_queue_refs db = (\<Sum>c \<in> A. queue_refs (db_contexts db c))"
  unfolding all_queue_refs_def using assms
  by (intro sum.mono_neutral_left) (auto simp: busy_def queue_refs_def)

lemma all_queue_refs_upd:
  assumes "finite (busy db)" and "db_contexts db' = (db_contexts db)(c := m)"
  shows "all_queue_refs db' + queue_refs (db_contexts db c) = all_queue_refs db + queue_refs m"
    and "finite (busy db')"
proof -
  let ?A = "insert c (busy db)"
  have A: "finite ?A" "busy db \<subseteq> ?A" "busy db' \<subseteq> ?A" using assms by (auto simp: busy_def)
  have old: "all_queue_refs db = queue_refs (db_contexts db c) + (\<Sum>d \<in> ?A - {c}. queue_refs (db_contexts db d))"
    using all_queue_refs_superset [OF A(1,2)] A(1) by (simp add: sum.remove [of ?A c])
  have "all_queue_refs db' = queue_refs m + (\<Sum>d \<in> ?A - {c}. queue_refs (db_contexts db' d))"
    using all_queue_refs_superset [OF A(1,3)] A(1) assms(2) by (simp add: sum.remove [of ?A c])
  also have "(\<Sum>d \<in> ?A - {c}. queue_refs (db_contexts db' d)) = (\<Sum>d \<in> ?A - {c}. queue_refs (db_contexts db d))"
    using assms(2) by (intro sum.cong) auto
  finally show "all_queue_refs db' + queue_refs (db_contexts db c) = all_queue_refs db + queue_refs m"
    using old by simp
  show "finite (busy db')" by (rule finite_subset [OF A(3,1)])
qed

section \<open>Well-formed queues\<close>

definition msg_ok :: "mosquitto_client_msg \<Rightarrow> bool" where
  "msg_ok msg \<longleftrightarrow> cmsg_qos msg \<in> {0, 1, 2} \<and> (cmsg_direction msg = mosq_md_in \<longrightarrow> cmsg_qos msg = 2)
     \<and> cmsg_state msg \<noteq> mosq_ms_invalid"

definition qos12 :: "mosquitto_client_msg list \<Rightarrow> int" where
  "qos12 msgs = int (length (filter (\<lambda>msg. cmsg_qos msg > 0) msgs))"

definition queue_wf :: "mosquitto \<Rightarrow> bool" where
  "queue_wf m \<longleftrightarrow> ctx_last_msg m = (if ctx_msgs m = [] then LastNull else LastValid)
     \<and> ctx_msg_count m = int (length (ctx_msgs m)) \<and> ctx_msg_count12 m = qos12 (ctx_msgs m)
     \<and> list_all msg_ok (ctx_msgs m)"

text \<open>
  A connection whose session has been taken over has lost its messages and its identifier, but
  keeps the counts and the pointer to the last message until it is freed.  Nothing is queued for
  it any more.
\<close>

definition queue_ok :: "mosquitto \<Rightarrow> bool" where
  "queue_ok m \<longleftrightarrow> queue_wf m \<or> ctx_id m = None \<and> ctx_msgs m = []"

lemma queue_okD: "queue_ok m \<Longrightarrow> ctx_id m \<noteq> None \<or> ctx_msgs m \<noteq> [] \<Longrightarrow> queue_wf m"
  by (auto simp: queue_ok_def)

lemma queue_okI: "queue_wf m \<Longrightarrow> queue_ok m"
  by (simp add: queue_ok_def)

lemma queue_ok_msgs: "queue_ok m \<Longrightarrow> list_all msg_ok (ctx_msgs m)"
  by (auto simp: queue_ok_def queue_wf_def)

lemma queue_ok_nth: "queue_ok m \<Longrightarrow> i < length (ctx_msgs m) \<Longrightarrow> queue_wf m"
  by (auto simp: queue_ok_def)

text \<open>What all changes of the state of a message leave alone.\<close>

definition same_msgs :: "mosquitto_client_msg list \<Rightarrow> mosquitto_client_msg list \<Rightarrow> bool" where
  "same_msgs = list_all2 (\<lambda>a b. cmsg_store a = cmsg_store b \<and> cmsg_qos a = cmsg_qos b
     \<and> cmsg_direction a = cmsg_direction b \<and> cmsg_mid a = cmsg_mid b \<and> cmsg_retain a = cmsg_retain b
     \<and> (cmsg_state b \<noteq> mosq_ms_invalid \<longrightarrow> cmsg_state a \<noteq> mosq_ms_invalid))"

lemma same_msgs_refl [simp]: "same_msgs msgs msgs"
  by (simp add: same_msgs_def list.rel_refl)

lemma same_msgsD:
  assumes "same_msgs xs ys"
  shows "length xs = length ys" "map cmsg_store xs = map cmsg_store ys" "qos12 xs = qos12 ys"
    "list_all msg_ok ys \<Longrightarrow> list_all msg_ok xs"
proof -
  from assms have *: "list_all2 (\<lambda>a b. cmsg_store a = cmsg_store b \<and> cmsg_qos a = cmsg_qos b
     \<and> (msg_ok b \<longrightarrow> msg_ok a)) xs ys"
    unfolding same_msgs_def by (rule list_all2_mono) (auto simp: msg_ok_def)
  then show "length xs = length ys" by (rule list_all2_lengthD)
  from * show "map cmsg_store xs = map cmsg_store ys" by (induction rule: list_all2_induct) auto
  from * show "qos12 xs = qos12 ys" by (induction rule: list_all2_induct) (auto simp: qos12_def)
  from * show "list_all msg_ok ys \<Longrightarrow> list_all msg_ok xs" by (induction rule: list_all2_induct) auto
qed

lemma same_msgs_update:
  assumes "i < length msgs"
    and "cmsg_store x = cmsg_store (msgs ! i)" "cmsg_qos x = cmsg_qos (msgs ! i)"
    "cmsg_direction x = cmsg_direction (msgs ! i)" "cmsg_mid x = cmsg_mid (msgs ! i)" "cmsg_retain x = cmsg_retain (msgs ! i)"
    "cmsg_state (msgs ! i) \<noteq> mosq_ms_invalid \<Longrightarrow> cmsg_state x \<noteq> mosq_ms_invalid"
  shows "same_msgs (msgs[i := x]) msgs"
  using assms by (auto simp: same_msgs_def list_all2_conv_all_nth nth_list_update)

lemma publish_state_invalid: "state \<noteq> mosq_ms_invalid \<Longrightarrow> publish_state qos state \<noteq> mosq_ms_invalid"
  by (simp add: publish_state_def)

lemma same_msgs_promote: "same_msgs (promote_loop n msgs) msgs"
proof (induction n msgs rule: promote_loop.induct)
  case (2 n t msgs)
  then show ?case
    using same_msgs_refl [of msgs, unfolded same_msgs_def]
    by (auto simp: same_msgs_def promote_def publish_state_invalid)
qed simp

lemma queue_wf_same:
  assumes "queue_wf m" and "same_msgs (ctx_msgs m') (ctx_msgs m)" and "ctx_last_msg m' = ctx_last_msg m"
    and "ctx_msg_count m' = ctx_msg_count m" and "ctx_msg_count12 m' = ctx_msg_count12 m"
  shows "queue_wf m'" and "queue_refs m' = queue_refs m"
proof -
  note same = same_msgsD [OF assms(2)]
  have "ctx_msgs m' = [] \<longleftrightarrow> ctx_msgs m = []" using same(1) by (metis length_0_conv)
  then show "queue_wf m'" using assms(1,3-5) same(1,3,4) by (simp add: queue_wf_def)
  show "queue_refs m' = queue_refs m" using same(2) by (simp add: queue_refs_def)
qed

lemma queue_ok_same:
  assumes "queue_ok m" and "same_msgs (ctx_msgs m') (ctx_msgs m)" and "ctx_last_msg m' = ctx_last_msg m"
    and "ctx_msg_count m' = ctx_msg_count m" and "ctx_msg_count12 m' = ctx_msg_count12 m"
    and "ctx_id m = None \<longrightarrow> ctx_id m' = None \<or> queue_wf m"
  shows "queue_ok m'" and "queue_refs m' = queue_refs m"
proof -
  note same = same_msgsD [OF assms(2)]
  have "ctx_msgs m' = [] \<longleftrightarrow> ctx_msgs m = []" using same(1) by (metis length_0_conv)
  then show "queue_ok m'" using assms(1,6) queue_wf_same(1) [OF _ assms(2-5)] by (auto simp: queue_ok_def)
  show "queue_refs m' = queue_refs m" using same(2) by (simp add: queue_refs_def)
qed

section \<open>The invariant\<close>

text \<open>
  \<open>E\<close> are the references that are not held by queues: those of the subscription tree and those
  the code holds in local variables.
\<close>

definition db_inv :: "storeid multiset \<Rightarrow> mosquitto_db \<Rightarrow> bool" where
  "db_inv E db \<longleftrightarrow> store_inv (all_queue_refs db + E) db \<and> finite (busy db) \<and> (\<forall>c. queue_ok (db_contexts db c))"

lemma db_invD:
  assumes "db_inv E db"
  shows "store_inv (all_queue_refs db + E) db" "finite (busy db)" "queue_ok (db_contexts db c)"
  using assms by (simp_all add: db_inv_def)

text \<open>A change of one queue, and the references it takes or gives up.\<close>

lemma db_inv_queue:
  assumes "db_inv E db" and "db_contexts db' = (db_contexts db)(c := m)"
    and "queue_ok m" and "\<And>R. all_queue_refs db + E = R + queue_refs (db_contexts db c) \<Longrightarrow> store_inv (R + queue_refs m) db'"
  shows "db_inv E db'"
proof -
  note upd = all_queue_refs_upd [OF db_invD(2) [OF assms(1)] assms(2)]
  obtain R where R: "all_queue_refs db = R + queue_refs (db_contexts db c)"
  proof (cases "c \<in> busy db")
    case True
    then show ?thesis using that db_invD(2) [OF assms(1)] unfolding all_queue_refs_def
      by (simp add: sum.remove [of _ c] add.commute)
  next
    case False
    then show ?thesis using that by (simp add: busy_def queue_refs_def)
  qed
  then have "all_queue_refs db' = R + queue_refs m" using upd(1) by (simp add: ac_simps)
  moreover have "store_inv ((R + E) + queue_refs m) db'" by (rule assms(4)) (simp add: R ac_simps)
  ultimately have "store_inv (all_queue_refs db' + E) db'" by (simp add: ac_simps)
  then show ?thesis using upd(2) assms(1-3) by (simp add: db_inv_def)
qed

lemma db_inv_upd_ctx:
  assumes "db_inv E db" and "queue_ok (f (db_contexts db c))"
    and "queue_refs (f (db_contexts db c)) = queue_refs (db_contexts db c)"
  shows "db_inv E (upd_ctx c f db)"
proof (rule db_inv_queue [OF assms(1) _ assms(2)])
  fix R assume "all_queue_refs db + E = R + queue_refs (db_contexts db c)"
  then show "store_inv (R + queue_refs (f (db_contexts db c))) (upd_ctx c f db)"
    using db_invD(1) [OF assms(1)] assms(3) by simp
qed simp_all

lemma db_inv_same:
  assumes "db_inv E db" and "same_msgs (ctx_msgs (f (db_contexts db c))) (ctx_msgs (db_contexts db c))"
    and "ctx_last_msg (f (db_contexts db c)) = ctx_last_msg (db_contexts db c)"
    and "ctx_msg_count (f (db_contexts db c)) = ctx_msg_count (db_contexts db c)"
    and "ctx_msg_count12 (f (db_contexts db c)) = ctx_msg_count12 (db_contexts db c)"
    and "ctx_id (db_contexts db c) = None \<longrightarrow> ctx_id (f (db_contexts db c)) = None \<or> queue_wf (db_contexts db c)"
  shows "db_inv E (upd_ctx c f db)"
  using queue_ok_same [OF db_invD(3) [OF assms(1)] assms(2-6)] by (intro db_inv_upd_ctx [OF assms(1)])

lemma msg_store_ref_sel [simp]:
  "db_contexts (msg_store_ref db s) = db_contexts db" "db_subs (msg_store_ref db s) = db_subs db"
  by (simp_all add: msg_store_ref_def)

lemma db_inv_ref:
  assumes "db_inv E db" and "s \<in> live_stores db"
  shows "db_inv (add_mset s E) (msg_store_ref db s)"
  using assms store_inv_ref [OF db_invD(1) [OF assms(1)] assms(2)]
  by (simp add: db_inv_def all_queue_refs_def busy_def)

lemma db_inv_deref:
  assumes "db_inv (add_mset s E) db"
  shows "db_inv E (msg_store_deref db s)"
  using assms store_inv_deref [of s "all_queue_refs db + E" db]
  by (simp add: db_inv_def all_queue_refs_def busy_def)

lemma db_inv_live: "db_inv E db \<Longrightarrow> s \<in># E \<Longrightarrow> s \<in> live_stores db"
  using msg_store.inv_live [of "all_queue_refs db + E" db s] by (simp add: db_inv_def)

section \<open>Removing\<close>

lemma same_msgs_nil: "same_msgs xs ys \<Longrightarrow> xs = [] \<longleftrightarrow> ys = []"
  by (auto simp: same_msgs_def)

lemma unlink_msg_wf:
  assumes "queue_wf m" and i: "i < length (ctx_msgs m)"
  shows "queue_wf (unlink_msg n i m)"
    and "queue_refs m = add_mset (cmsg_store (ctx_msgs m ! i)) (queue_refs (unlink_msg n i m))"
proof -
  let ?l = "take i (ctx_msgs m) @ drop (Suc i) (ctx_msgs m)"
  note same = same_msgs_promote [of n ?l]
  have m: "ctx_msgs m = take i (ctx_msgs m) @ ctx_msgs m ! i # drop (Suc i) (ctx_msgs m)"
    using i by (rule id_take_nth_drop)
  have len: "length ?l = length (ctx_msgs m) - 1" using i by simp
  have q: "qos12 (ctx_msgs m) = qos12 ?l + (if cmsg_qos (ctx_msgs m ! i) > 0 then 1 else 0)"
    by (subst m) (simp add: qos12_def)
  have ok: "list_all msg_ok ?l" using assms(1)
    by (auto simp: queue_wf_def list_all_iff dest: in_set_takeD in_set_dropD)
  have nil: "promote_loop n ?l = [] \<longleftrightarrow> ?l = []" using same_msgs_nil [OF same] .
  show "queue_wf (unlink_msg n i m)"
    using assms i len q same_msgsD [OF same] ok
    by (auto simp: queue_wf_def unlink_msg_def Let_def nil)
  show "queue_refs m = add_mset (cmsg_store (ctx_msgs m ! i)) (queue_refs (unlink_msg n i m))"
    using same_msgsD(2) [OF same]
    by (subst queue_refs_def, subst m) (simp add: queue_refs_def unlink_msg_def Let_def)
qed

lemma msg_store_deref_subs [simp]: "db_subs (msg_store_deref db s) = db_subs db"
  "db_max_inflight (msg_store_deref db s) = db_max_inflight db"
  by (simp_all add: msg_store_deref_def msg_store_remove_def Let_def)

lemma message_remove_inv:
  assumes "db_inv E db"
  shows "db_inv E (message_remove db c i)"
proof (cases "i < length (ctx_msgs (db_contexts db c))")
  case i: True
  let ?m = "db_contexts db c"
  note unlink = unlink_msg_wf [OF queue_ok_nth [OF db_invD(3) [OF assms] i] i, of "db_max_inflight db"]
  have eq: "message_remove db c i = upd_ctx c (unlink_msg (db_max_inflight db) i) (msg_store_deref db (cmsg_store (ctx_msgs ?m ! i)))"
    using i by (simp add: message_remove_def)
  show ?thesis unfolding eq
  proof (rule db_inv_queue [OF assms _ queue_okI [OF unlink(1)]])
    fix R assume R: "all_queue_refs db + E = R + queue_refs ?m"
    then have "store_inv (add_mset (cmsg_store (ctx_msgs ?m ! i)) (R + queue_refs (unlink_msg (db_max_inflight db) i ?m))) db"
      using db_invD(1) [OF assms] unlink(2) by simp
    then show "store_inv (R + queue_refs (unlink_msg (db_max_inflight db) i ?m))
        (upd_ctx c (unlink_msg (db_max_inflight db) i) (msg_store_deref db (cmsg_store (ctx_msgs ?m ! i))))"
      by (simp add: store_inv_deref)
  qed simp_all
qed (use assms in \<open>simp add: message_remove_def\<close>)

lemma upd_msg_inv:
  assumes "db_inv E db" and "i < length (ctx_msgs (db_contexts db c))"
    and "\<And>x. cmsg_store (f x) = cmsg_store x \<and> cmsg_qos (f x) = cmsg_qos x \<and> cmsg_direction (f x) = cmsg_direction x
       \<and> cmsg_mid (f x) = cmsg_mid x \<and> cmsg_retain (f x) = cmsg_retain x
       \<and> (cmsg_state x \<noteq> mosq_ms_invalid \<longrightarrow> cmsg_state (f x) \<noteq> mosq_ms_invalid)"
  shows "db_inv E (upd_msg c i f db)"
  unfolding upd_msg_def
  by (rule db_inv_same [OF assms(1)]) (use assms(2,3) in \<open>simp_all add: same_msgs_update\<close>)

lemma activate_same:
  "cmsg_store (activate now x) = cmsg_store x \<and> cmsg_qos (activate now x) = cmsg_qos x
   \<and> cmsg_direction (activate now x) = cmsg_direction x \<and> cmsg_mid (activate now x) = cmsg_mid x
   \<and> cmsg_retain (activate now x) = cmsg_retain x
   \<and> (cmsg_state x \<noteq> mosq_ms_invalid \<longrightarrow> cmsg_state (activate now x) \<noteq> mosq_ms_invalid)"
  by (simp add: activate_def Let_def publish_state_invalid)

lemma message_delete_loop_inv:
  "db_inv E db \<Longrightarrow> db_inv E (message_delete_loop e db c mid dir i k deleted)"
proof (induction e db c mid dir i k deleted rule: message_delete_loop.induct)
  case (1 e db c mid dir i k deleted)
  let ?db = "if cmsg_state (ctx_msgs (db_contexts db c) ! i) = mosq_ms_queued \<and> k + 1 \<le> db_max_inflight db
    then upd_msg c i (activate (env_now e)) db else db"
  show ?case
  proof (cases "i < length (ctx_msgs (db_contexts db c))")
    case True
    then have inv: "db_inv E ?db" using "1.prems" activate_same by (auto intro!: upd_msg_inv)
    from inv have inv': "db_inv E (message_remove ?db c i)" by (rule message_remove_inv)
    note IH = "1.IH"(1) [OF True refl refl refl _ refl refl] "1.IH"(2) [OF True refl refl refl]
    show ?thesis
      by (subst message_delete_loop.simps) (use True inv inv' IH in \<open>simp add: Let_def\<close>)
  qed (use "1.prems" in \<open>simp add: message_delete_loop.simps\<close>)
qed

section \<open>Inserting\<close>

lemma db_inv_fields [simp]:
  "db_inv E (db\<lparr>db_persistence_changes := a\<rparr>) = db_inv E db"
  "db_inv E (db\<lparr>db_msgs_dropped := b\<rparr>) = db_inv E db"
  "db_inv E (db\<lparr>db_max_inflight := f, db_max_queued := g\<rparr>) = db_inv E db"
  "db_inv E (db\<lparr>db_subs := h\<rparr>) = db_inv E db" "db_inv E (db\<lparr>db_retained_count := k\<rparr>) = db_inv E db"
  "db_inv E (db\<lparr>db_subscription_count := k\<rparr>) = db_inv E db"
  "live_stores (db\<lparr>db_persistence_changes := a\<rparr>) = live_stores db"
  "live_stores (db\<lparr>db_subs := h\<rparr>) = live_stores db" "live_stores (db\<lparr>db_retained_count := k\<rparr>) = live_stores db"
  "live_stores (db\<lparr>db_subscription_count := k\<rparr>) = live_stores db"
  by (simp_all add: db_inv_def store_inv_def all_queue_refs_def busy_def live_stores_def)

lemma store_inv_add_dest_id [simp]: "store_inv R (upd_store s (add_dest_id client) db) = store_inv R db"
  by (auto simp: store_inv_def add_dest_id_def)

lemma link_msg_wf:
  assumes "queue_wf m" and "msg_ok msg"
  shows "queue_wf (link_msg msg m)" and "queue_refs (link_msg msg m) = add_mset (cmsg_store msg) (queue_refs m)"
  using assms by (auto simp: queue_wf_def link_msg_def queue_refs_def qos12_def Let_def)

lemma wake_lazy_bridge_sel [simp]:
  "ctx_msgs (wake_lazy_bridge m) = ctx_msgs m" "ctx_last_msg (wake_lazy_bridge m) = ctx_last_msg m"
  "ctx_id (wake_lazy_bridge m) = ctx_id m" "ctx_msg_count (wake_lazy_bridge m) = ctx_msg_count m" "ctx_msg_count12 (wake_lazy_bridge m) = ctx_msg_count12 m"
  by (simp_all add: wake_lazy_bridge_def split: option.split)

lemma enqueue_msg_inv:
  assumes "db_inv E db" and "cmsg_store msg \<in> live_stores db" and "msg_ok msg" and "ctx_id (db_contexts db c) \<noteq> None"
  shows "db_inv E (enqueue_msg e db c client msg)"
proof -
  define db1 where "db1 = (if cmsg_state msg = mosq_ms_queued
    then db\<lparr>db_persistence_changes := db_persistence_changes db + 1\<rparr> else db)"
  define db2 where "db2 = upd_ctx c (link_msg msg) (msg_store_ref db1 (cmsg_store msg))"
  have db1: "db_inv E db1" "cmsg_store msg \<in> live_stores db1" using assms by (simp_all add: db1_def)
  have "ctx_id (db_contexts db1 c) \<noteq> None" using assms(4) by (simp add: db1_def)
  then have "queue_wf (db_contexts db1 c)" by (intro queue_okD [OF db_invD(3) [OF db1(1)]]) simp
  note wf = link_msg_wf [OF this assms(3)]
  have db2: "db_inv E db2"
  proof (rule db_inv_queue [OF db1(1) _ queue_okI [OF wf(1)]])
    fix R assume "all_queue_refs db1 + E = R + queue_refs (db_contexts db1 c)"
    then show "store_inv (R + queue_refs (link_msg msg (db_contexts db1 c))) db2"
      using store_inv_ref [OF db_invD(1) [OF db1(1)] db1(2)] wf(2) by (simp add: db2_def)
  qed (simp_all add: db2_def)
  have db3: "db_inv E (upd_store s (add_dest_id client) db2)" for s
    using db2 by (simp add: db_inv_def all_queue_refs_def busy_def)
  have wake: "db_inv E db' \<Longrightarrow> db_inv E (upd_ctx c wake_lazy_bridge db')" for db'
    by (rule db_inv_same) simp_all
  show ?thesis using wake [OF db2] wake [OF db3]
    by (simp add: enqueue_msg_def Let_def flip: db1_def db2_def)
qed

lemma message_insert_inv:
  assumes "db_inv E db" and "stored \<in> live_stores db" and "qos \<in> {0, 1, 2}"
    and "dir = mosq_md_in \<longrightarrow> qos = 2"
  shows "db_inv E (snd (mqtt3_db_message_insert e db c mid dir qos retain stored))"
proof -
  have drop: "db_inv E (upd_ctx c (\<lambda>m. m\<lparr>ctx_is_dropping := True\<rparr>) (db\<lparr>db_msgs_dropped := n\<rparr>))" for n
    by (rule db_inv_same) (use assms(1) in simp_all)
  have state: "insert_decide db (db_contexts db c) dir qos = Enqueue state rc \<Longrightarrow> state \<noteq> mosq_ms_invalid" for state rc
    using assms(3) by (auto simp: insert_decide_def publish_state_def split: if_splits)
  have enq: "state \<noteq> mosq_ms_invalid \<Longrightarrow> ctx_id (db_contexts db c) = Some client \<Longrightarrow> db_inv E (enqueue_msg e db c client
      \<lparr>cmsg_store = stored, cmsg_timestamp = env_now e, cmsg_mid = mid, cmsg_qos = qos, cmsg_retain = retain,
       cmsg_direction = dir, cmsg_state = state, cmsg_dup = False\<rparr>)" for state client
    using assms by (intro enqueue_msg_inv) (auto simp: msg_ok_def)
  show ?thesis using assms(1) drop state enq
    by (auto simp: mqtt3_db_message_insert_def Let_def split: option.split insert_decision.split)
qed

section \<open>The other operations\<close>

lemma message_store_inv:
  assumes "db_inv E db" and "mqtt3_db_message_store e db source source_mid topic qos payload retain store_id = (rc, s, db')"
  shows "db_inv E db'" and "rc = MOSQ_ERR_SUCCESS \<longleftrightarrow> s \<noteq> None" and "s = Some t \<Longrightarrow> t \<in> live_stores db'"
proof -
  have "store_inv (all_queue_refs db + E) db'"
  proof (cases "payload \<noteq> [] \<and> env_malloc e (length payload) = None")
    case True
    then show ?thesis using assms db_invD(1) [OF assms(1)] by (auto simp: mqtt3_db_message_store_def)
  next
    case False
    have inv: "store_inv (all_queue_refs db + E) db" by (rule db_invD(1) [OF assms(1)])
    then have fresh: "db_next_store db \<notin> set (db_msg_store db)" by (auto simp: store_inv_def)
    then have "count (all_queue_refs db + E) (db_next_store db) = 0"
      using inv by (auto simp: store_inv_def count_eq_zero_iff)
    then show ?thesis using assms(2) inv False fresh
      by (auto simp: mqtt3_db_message_store_def store_inv_def msg_store_add_def new_store_def Let_def less_SucI)
  qed
  moreover have "db_contexts db' = db_contexts db" "db_subs db' = db_subs db"
    using assms(2) by (auto simp: mqtt3_db_message_store_def msg_store_add_def Let_def split: if_splits)
  ultimately show "db_inv E db'" using assms(1)
    by (simp add: db_inv_def all_queue_refs_def busy_def)
  show "rc = MOSQ_ERR_SUCCESS \<longleftrightarrow> s \<noteq> None" and "s = Some t \<Longrightarrow> t \<in> live_stores db'"
    using assms(2) by (auto simp: mqtt3_db_message_store_def msg_store_add_def live_stores_def Let_def split: if_splits)
qed

lemma update_first_same:
  assumes "\<And>x. cmsg_store (f x) = cmsg_store x \<and> cmsg_qos (f x) = cmsg_qos x \<and> cmsg_direction (f x) = cmsg_direction x
     \<and> cmsg_mid (f x) = cmsg_mid x \<and> cmsg_retain (f x) = cmsg_retain x \<and> cmsg_state (f x) \<noteq> mosq_ms_invalid"
  shows "same_msgs (update_first P f msgs) msgs"
  by (induction msgs) (use assms same_msgs_refl [unfolded same_msgs_def] in \<open>auto simp: same_msgs_def\<close>)

lemma message_update_inv:
  assumes "db_inv E db" and "state \<noteq> mosq_ms_invalid"
  shows "db_inv E (upd_ctx c (\<lambda>m. snd (mqtt3_db_message_update e m mid dir state)) db)"
  by (rule db_inv_same [OF assms(1)])
    (use assms(2) in \<open>simp_all add: mqtt3_db_message_update_def Let_def update_first_same\<close>)

lemma messages_delete_loop_foldl:
  "messages_delete_loop db msgs = foldl msg_store_deref db (map cmsg_store msgs)"
  by (induction msgs arbitrary: db) auto

lemma foldl_deref_sel [simp]:
  "db_contexts (foldl msg_store_deref db ss) = db_contexts db" "db_subs (foldl msg_store_deref db ss) = db_subs db"
  by (induction ss arbitrary: db) auto

lemma messages_delete_inv:
  assumes "db_inv E db"
  shows "db_inv E (snd (mqtt3_db_messages_delete db c))"
proof -
  define f where "f = (\<lambda>m :: mosquitto. m\<lparr>ctx_msgs := [], ctx_last_msg := LastNull, ctx_msg_count := 0, ctx_msg_count12 := 0\<rparr>)"
  have wf: "queue_wf (f m)" "queue_refs (f m) = {#}" for m by (simp_all add: f_def queue_wf_def queue_refs_def qos12_def)
  let ?db = "foldl msg_store_deref db (map cmsg_store (ctx_msgs (db_contexts db c)))"
  have "db_inv E (upd_ctx c f ?db)"
  proof (rule db_inv_queue [OF assms _ queue_okI [OF wf(1)]])
    fix R assume "all_queue_refs db + E = R + queue_refs (db_contexts db c)"
    then have "store_inv (mset (map cmsg_store (ctx_msgs (db_contexts db c))) + R) db"
      using db_invD(1) [OF assms] by (simp add: queue_refs_def add.commute)
    then have "store_inv R ?db" by (rule msg_store.deref_all)
    then show "store_inv (R + queue_refs (f (db_contexts db c))) (upd_ctx c f ?db)" by (simp add: wf)
  qed simp_all
  then show ?thesis by (simp add: mqtt3_db_messages_delete_def messages_delete_loop_foldl f_def)
qed

lemma timeout_loop_inv: "db_inv E db \<Longrightarrow> db_inv E (timeout_loop now threshold db cs)"
proof (induction now threshold db cs rule: timeout_loop.induct)
  case (2 now threshold db c cs)
  have "same_msgs (map (timeout_msg now threshold) msgs) msgs" for msgs
    by (induction msgs) (auto simp: same_msgs_def timeout_msg_def)
  then show ?case using 2 by (simp add: db_inv_same)
qed simp

section \<open>Resetting after a reconnection\<close>

text \<open>
  With no incoming message below QoS 2 nothing is removed, and the loop resets every outgoing
  message, recounts the queue and leaves \<open>last_msg\<close> at the end.
\<close>

definition reset_msg :: "mosquitto_client_msg \<Rightarrow> mosquitto_client_msg" where
  "reset_msg msg = (if cmsg_direction msg = mosq_md_out then reset_out msg else msg)"

definition reset_from :: "nat \<Rightarrow> mosquitto \<Rightarrow> mosquitto" where
  "reset_from i m = m\<lparr>ctx_msgs := take i (ctx_msgs m) @ map reset_msg (drop i (ctx_msgs m)),
     ctx_last_msg := (if i < length (ctx_msgs m) then LastValid else ctx_last_msg m),
     ctx_msg_count := ctx_msg_count m + int (length (drop i (ctx_msgs m))),
     ctx_msg_count12 := ctx_msg_count12 m + qos12 (drop i (ctx_msgs m))\<rparr>"

lemma reset_from_visit:
  assumes "i < length (ctx_msgs m)"
  shows "reset_from (Suc i) (reset_visit i m) = reset_from i m"
proof -
  have d: "drop i (ctx_msgs m) = ctx_msgs m ! i # drop (Suc i) (ctx_msgs m)"
    using assms by (simp add: Cons_nth_drop_Suc)
  have t: "take (Suc i) ((ctx_msgs m)[i := x]) = take i (ctx_msgs m) @ [x]" for x
    using assms by (simp add: take_Suc_conv_app_nth)
  show ?thesis using assms t
    by (simp add: reset_from_def reset_visit_def Let_def d reset_msg_def [symmetric] qos12_def)
qed

lemma reset_visit_msgs:
  assumes "i < length (ctx_msgs m)"
  shows "length (ctx_msgs (reset_visit i m)) = length (ctx_msgs m)"
    and "drop (Suc i) (ctx_msgs (reset_visit i m)) = drop (Suc i) (ctx_msgs m)"
  using assms by (simp_all add: reset_visit_def Let_def)

lemma upd_ctx_twice: "upd_ctx c g (upd_ctx c f db) = upd_ctx c (\<lambda>m. g (f m)) db"
  by (simp add: upd_ctx_def)

lemma upd_ctx_cong: "f (db_contexts db c) = g (db_contexts db c) \<Longrightarrow> upd_ctx c f db = upd_ctx c g db"
  by (simp add: upd_ctx_def)

lemma upd_ctx_ident: "f (db_contexts db c) = db_contexts db c \<Longrightarrow> upd_ctx c f db = db"
  by (simp add: upd_ctx_def)

lemma reconnect_reset_loop_eq:
  "list_all msg_ok (drop i (ctx_msgs (db_contexts db c))) \<Longrightarrow>
   reconnect_reset_loop db c i = upd_ctx c (reset_from i) db"
proof (induction "length (ctx_msgs (db_contexts db c)) - i" arbitrary: i db)
  case 0
  then have "reset_from i (db_contexts db c) = db_contexts db c" by (simp add: reset_from_def qos12_def)
  then have "upd_ctx c (reset_from i) db = db" by (rule upd_ctx_ident)
  then show ?case using 0 by (simp add: reconnect_reset_loop.simps)
next
  case (Suc n)
  let ?m = "db_contexts db c" and ?db = "upd_ctx c (reset_visit i) db"
  have i: "i < length (ctx_msgs ?m)" using Suc.hyps(2) by simp
  note visit = reset_visit_msgs [OF i]
  have d: "drop i (ctx_msgs ?m) = ctx_msgs ?m ! i # drop (Suc i) (ctx_msgs ?m)"
    using i by (simp add: Cons_nth_drop_Suc)
  then have ok: "msg_ok (ctx_msgs ?m ! i)" "list_all msg_ok (drop (Suc i) (ctx_msgs ?m))" using Suc.prems by simp_all
  have "n = length (ctx_msgs (db_contexts ?db c)) - Suc i" using Suc.hyps(2) visit(1) by simp
  then have "reconnect_reset_loop ?db c (Suc i) = upd_ctx c (reset_from (Suc i)) ?db"
    by (rule Suc.hyps(1)) (simp add: visit ok)
  also have "\<dots> = upd_ctx c (reset_from i) db"
    unfolding upd_ctx_twice by (rule upd_ctx_cong) (rule reset_from_visit [OF i])
  moreover have "\<not> (cmsg_direction (ctx_msgs ?m ! i) = mosq_md_in \<and> cmsg_qos (ctx_msgs ?m ! i) \<noteq> 2)"
    using ok(1) by (auto simp: msg_ok_def)
  ultimately show ?case using i by (subst reconnect_reset_loop.simps) (simp only: Let_def if_True if_False Suc_eq_plus1)
qed

lemma same_msgs_trans: "same_msgs xs ys \<Longrightarrow> same_msgs ys zs \<Longrightarrow> same_msgs xs zs"
  unfolding same_msgs_def by (erule (1) list_all2_trans [rotated]) auto

lemma same_msgs_reset: "same_msgs (map reset_msg msgs) msgs"
  by (induction msgs) (auto simp: same_msgs_def reset_msg_def reset_out_def publish_state_invalid)

lemma same_msgs_requeue: "same_msgs (requeue_loop n k msgs) msgs"
proof (induction n k msgs rule: requeue_loop.induct)
  case (2 n k t msgs)
  then show ?case using same_msgs_refl [of msgs, unfolded same_msgs_def]
    by (auto simp: same_msgs_def publish_state_invalid)
qed simp

definition reset_queue :: "int \<Rightarrow> mosquitto \<Rightarrow> mosquitto" where
  "reset_queue max_inflight m = m\<lparr>ctx_msgs := requeue_loop max_inflight 0 (map reset_msg (ctx_msgs m)),
     ctx_last_msg := (if ctx_msgs m = [] then ctx_last_msg m else LastValid),
     ctx_msg_count := int (length (ctx_msgs m)), ctx_msg_count12 := qos12 (ctx_msgs m)\<rparr>"

lemma reconnect_reset_queue:
  assumes "list_all msg_ok (ctx_msgs (db_contexts db c))"
  shows "snd (mqtt3_db_message_reconnect_reset db c) = upd_ctx c (reset_queue (db_max_inflight db)) db"
proof -
  let ?db = "upd_ctx c (\<lambda>m. m\<lparr>ctx_msg_count := 0, ctx_msg_count12 := 0\<rparr>) db"
  have ok: "reconnect_reset_loop ?db c 0 = upd_ctx c (reset_from 0) ?db"
    using assms by (intro reconnect_reset_loop_eq) simp
  show ?thesis
    unfolding mqtt3_db_message_reconnect_reset_def Let_def ok snd_conv upd_ctx_twice
    by (rule upd_ctx_cong) (simp add: reset_from_def reset_queue_def)
qed

lemma reconnect_reset_eq:
  assumes "queue_wf (db_contexts db c)"
  shows "snd (mqtt3_db_message_reconnect_reset db c) =
     upd_ctx c (\<lambda>m. m\<lparr>ctx_msgs := requeue_loop (db_max_inflight db) 0 (map reset_msg (ctx_msgs m))\<rparr>) db"
proof -
  have "list_all msg_ok (ctx_msgs (db_contexts db c))" using assms by (simp add: queue_wf_def)
  from reconnect_reset_queue [OF this] show ?thesis
    by (simp only:) (rule upd_ctx_cong, use assms in \<open>auto simp: reset_queue_def queue_wf_def\<close>)
qed

lemma reset_queue_same: "same_msgs (requeue_loop n 0 (map reset_msg msgs)) msgs"
  by (rule same_msgs_trans [OF same_msgs_requeue same_msgs_reset])

lemma reset_queue_refs: "queue_refs (reset_queue n m) = queue_refs m"
  using same_msgsD(2) [OF reset_queue_same [of n "ctx_msgs m"]]
  by (simp add: queue_refs_def reset_queue_def)

lemma reset_queue_wf:
  assumes "list_all msg_ok (ctx_msgs m)" and "ctx_msgs m = [] \<longrightarrow> ctx_last_msg m = LastNull"
  shows "queue_wf (reset_queue n m)"
proof -
  note same = same_msgsD [OF reset_queue_same [of n "ctx_msgs m"]]
  have "requeue_loop n 0 (map reset_msg (ctx_msgs m)) = [] \<longleftrightarrow> ctx_msgs m = []" using same(1) by (metis length_0_conv)
  then show ?thesis using assms same(1,3,4) by (simp add: queue_wf_def reset_queue_def)
qed

lemma reconnect_reset_inv:
  assumes "db_inv E db"
  shows "db_inv E (snd (mqtt3_db_message_reconnect_reset db c))"
proof -
  let ?m = "db_contexts db c"
  have ok: "queue_ok ?m" by (rule db_invD(3) [OF assms])
  note msgs = queue_ok_msgs [OF ok]
  have "queue_ok (reset_queue n ?m)" for n
  proof (cases "queue_wf ?m")
    case True
    then show ?thesis using reset_queue_wf [OF msgs] by (auto simp: queue_wf_def intro: queue_okI)
  next
    case False
    then show ?thesis using ok by (auto simp: queue_ok_def reset_queue_def)
  qed
  then show ?thesis unfolding reconnect_reset_queue [OF msgs]
    by (intro db_inv_upd_ctx [OF assms]) (simp_all add: reset_queue_refs)
qed

section \<open>Writing\<close>

lemma write_msg_same:
  "write_msg e db m tail = (rc, m', Some t) \<Longrightarrow>
   cmsg_store t = cmsg_store tail \<and> cmsg_qos t = cmsg_qos tail \<and> cmsg_direction t = cmsg_direction tail
   \<and> cmsg_mid t = cmsg_mid tail \<and> cmsg_retain t = cmsg_retain tail
   \<and> (cmsg_state tail \<noteq> mosq_ms_invalid \<longrightarrow> cmsg_state t \<noteq> mosq_ms_invalid)"
  by (cases "cmsg_state tail") (auto simp: write_msg_def Let_def split: prod.splits)

lemma db_inv_conn:
  assumes "db_inv E db" and "conn_frame m = conn_frame (db_contexts db c)"
  shows "db_inv E (upd_ctx c (\<lambda>_. m) db)"
  by (rule db_inv_same [OF assms(1)]) (simp_all add: conn_frame_fields [OF assms(2)])

lemma message_write_loop_inv:
  "db_inv E db \<Longrightarrow> \<exists>rc db'. message_write_loop e db c i k = Some (rc, db') \<and> db_inv E db'"
proof (induction e db c i k rule: message_write_loop.induct)
  case (1 e db c i k)
  show ?case
  proof (cases "i < length (ctx_msgs (db_contexts db c))")
    case i: True
    let ?t = "ctx_msgs (db_contexts db c) ! i" and ?k = "if cmsg_direction (ctx_msgs (db_contexts db c) ! i) = mosq_md_in then k + 1 else k"
    have ok: "msg_ok ?t" using queue_ok_msgs [OF db_invD(3) [OF "1.prems", of c]] i by (auto simp: list_all_length)
    show ?thesis
    proof (cases "cmsg_state ?t = mosq_ms_queued")
      case False
      obtain rc m t where w: "write_msg e db (db_contexts db c) ?t = (rc, m, t)" by (cases "write_msg e db (db_contexts db c) ?t") auto
      let ?db = "upd_ctx c (\<lambda>_. m) db"
      have inv: "db_inv E ?db" by (rule db_inv_conn [OF "1.prems" write_msg_conn_frame [OF w]])
      have msgs: "ctx_msgs m = ctx_msgs (db_contexts db c)" by (rule conn_frame_fields(1) [OF write_msg_conn_frame [OF w]])
      have upd: "db_inv E (upd_msg c i (\<lambda>_. x) ?db)" if "t = Some x" for x
        unfolding upd_msg_def
        by (rule db_inv_same [OF inv]) (use write_msg_same [OF w [unfolded that]] i in \<open>simp_all add: msgs same_msgs_update\<close>)
      note IH = "1.IH"(1) [OF i refl refl False w [symmetric] refl refl] "1.IH"(2) [OF i refl refl False w [symmetric] refl refl]
      show ?thesis
        by (subst message_write_loop.simps)
          (use i False w inv IH upd message_remove_inv [OF inv] in \<open>auto simp: Let_def split: option.split\<close>)
    next
      case True
      note IH = "1.IH"(3) [OF i refl refl] "1.IH"(4) [OF i refl refl]
      have upd: "db_inv E (upd_msg c i (set_state mosq_ms_send_pubrec) db)" by (rule upd_msg_inv [OF "1.prems" i]) simp
      show ?thesis
        by (subst message_write_loop.simps)
          (use i True ok IH upd "1.prems" in \<open>auto simp: Let_def msg_ok_def\<close>)
    qed
  qed (use "1.prems" in \<open>simp add: message_write_loop.simps\<close>)
qed

end
