(* ===== verification/Mosq_Subs.thy ===== *)
theory Mosq_Subs
  imports Mosq_Database Mosq_Security
begin

text \<open>
  The subscription tree (\<open>subs.c\<close>): splitting topics into levels, adding and removing
  subscriptions, finding the subscribers of a message, retained messages; and the parts of
  \<open>database.c\<close> that use the tree: delivering a message, releasing a QoS 2 message, opening and
  closing the database.

  A node is reached from the root by a path of levels.  Functions that change a part of the tree
  return the new part.  While the tree is searched nothing else reads \<open>db_subs\<close>, so the searched
  part is put back at the end.
\<close>

section \<open>Levels\<close>

function tokenise_loop :: "string \<Rightarrow> nat \<Rightarrow> nat \<Rightarrow> string list \<Rightarrow> string list" where
  "tokenise_loop subtopic start i topics =
     (if i < length subtopic + 1
      then if char_at subtopic i = CHR ''/'' \<or> char_at subtopic i = CHR 0x00
           then tokenise_loop subtopic (i + 1) (i + 1) (topics @ [drop start (take i subtopic)])
           else tokenise_loop subtopic start (i + 1) topics
      else topics)"
  by pat_completeness auto
termination by (relation "measure (\<lambda>(subtopic, start, i, topics). length subtopic + 1 - i)") auto

declare tokenise_loop.simps [simp del]

definition sub_topic_tokenise :: "string \<Rightarrow> string list" where
  "sub_topic_tokenise subtopic =
     (let topics = (if char_at subtopic 0 \<noteq> CHR ''$'' then [[]] else [])
      in if char_at subtopic 0 = CHR ''/'' then tokenise_loop subtopic 1 1 (topics @ [[]])
         else tokenise_loop subtopic 0 0 topics)"

section \<open>Delivering at a node\<close>

text \<open>A retained message replaces the one of the node; an empty one only removes it.\<close>

definition subs_retain ::
    "mosquitto_db \<Rightarrow> storeid option \<Rightarrow> string \<Rightarrow> storeid \<Rightarrow> mosquitto_db \<times> storeid option" where
  "subs_retain db retained topic stored =
     (let db = (if take 4 topic \<noteq> ''$SYS''
                then db\<lparr>db_persistence_changes := db_persistence_changes db + 1\<rparr> else db);
          db = (case retained of
                  None \<Rightarrow> db
                | Some r \<Rightarrow> (msg_store_deref db r)\<lparr>db_retained_count := db_retained_count db - 1\<rparr>)
      in if store_payload (db_stores db stored) \<noteq> []
         then ((msg_store_ref db stored)\<lparr>db_retained_count := db_retained_count db + 1\<rparr>, Some stored)
         else (db, None))"

definition gen_mid :: "ctxid \<Rightarrow> int \<Rightarrow> mosquitto_db \<Rightarrow> u16 \<times> mosquitto_db" where
  "gen_mid c qos db =
     (if qos \<noteq> 0
      then case mosquitto_mid_generate (db_contexts db c) of (mid, m) \<Rightarrow> (mid, upd_ctx c (\<lambda>_. m) db)
      else (0, db))"

text \<open>One subscriber.\<close>

definition subs_deliver ::
    "mosq_env \<Rightarrow> mosquitto_db \<Rightarrow> ctxid \<Rightarrow> int \<Rightarrow> int \<Rightarrow> bool \<Rightarrow> storeid \<Rightarrow> int \<times> mosquitto_db" where
  "subs_deliver e db c client_qos qos retain stored =
     (let msg_qos = (if cfg_upgrade_outgoing_qos (env_config e) then client_qos
                     else if qos > client_qos then client_qos else qos)
      in case gen_mid c msg_qos db of
           (mid, db) \<Rightarrow>
             mqtt3_db_message_insert e db c mid mosq_md_out msg_qos
               (ctx_is_bridge (db_contexts db c) \<and> retain) stored)"

fun subs_loop :: "mosq_env \<Rightarrow> mosquitto_db \<Rightarrow> (ctxid \<times> int) list \<Rightarrow> string \<Rightarrow> string \<Rightarrow> int \<Rightarrow> bool \<Rightarrow> storeid
    \<Rightarrow> int \<Rightarrow> int \<times> mosquitto_db" where
  "subs_loop e db [] source_id topic qos retain stored rc = (rc, db)"
| "subs_loop e db ((c, client_qos) # leaves) source_id topic qos retain stored rc =
     (let context = db_contexts db c
      in if ctx_id context = None \<or> ctx_is_bridge context \<and> ctx_id context = Some source_id
         then subs_loop e db leaves source_id topic qos retain stored rc
         else case mosquitto_acl_check e db context topic MOSQ_ACL_READ of
                None \<Rightarrow> (1, db\<lparr>db_aborted := True\<rparr>)
              | Some rc2 \<Rightarrow>
                  if rc2 = MOSQ_ERR_ACL_DENIED
                  then subs_loop e db leaves source_id topic qos retain stored rc
                  else if rc2 = MOSQ_ERR_SUCCESS
                  then case subs_deliver e db c client_qos qos retain stored of
                         (r, db) \<Rightarrow> subs_loop e db leaves source_id topic qos retain stored (if r = 1 then 1 else rc)
                  else (1, db))"

definition subs_process :: "mosq_env \<Rightarrow> mosquitto_db \<Rightarrow> subhier \<Rightarrow> string \<Rightarrow> string \<Rightarrow> int \<Rightarrow> bool \<Rightarrow> storeid
    \<Rightarrow> bool \<Rightarrow> int \<times> mosquitto_db \<times> subhier" where
  "subs_process e db hier source_id topic qos retain stored set_retain =
     (let (db, retained) = (if retain \<and> set_retain then subs_retain db (sh_retained hier) topic stored
                            else (db, sh_retained hier));
          (rc, db) = subs_loop e db (sh_subs hier) source_id topic qos retain stored 0
      in (rc, db, Subhier (sh_topic hier) (sh_subs hier) (sh_children hier) retained (sh_has_parent hier)))"

text \<open>The loop of \<open>_sub_search\<close> over the children of a node.\<close>

fun sub_search :: "mosq_env \<Rightarrow> mosquitto_db \<Rightarrow> subhier list \<Rightarrow> string list \<Rightarrow> string \<Rightarrow> string \<Rightarrow> int \<Rightarrow> bool
    \<Rightarrow> storeid \<Rightarrow> bool \<Rightarrow> mosquitto_db \<times> subhier list" where
  "sub_search e db [] tokens source_id topic qos retain stored set_retain = (db, [])"
| "sub_search e db (Subhier t subs children retained parent # branches) tokens source_id topic qos retain stored set_retain =
     (let branch = Subhier t subs children retained parent;
          (db, branch) =
            (if tokens \<noteq> [] \<and> (t = hd tokens \<or> t = ''+'')
             then let sr = (if t = ''+'' then False else set_retain);
                      (db, children) = sub_search e db children (tl tokens) source_id topic qos retain stored sr;
                      branch = Subhier t subs children retained parent
                  in if tl tokens = []
                     then case subs_process e db branch source_id topic qos retain stored sr of (_, db, branch) \<Rightarrow> (db, branch)
                     else (db, branch)
             else if t = ''#'' \<and> children = []
             then case subs_process e db branch source_id topic qos retain stored False of (_, db, branch) \<Rightarrow> (db, branch)
             else (db, branch));
          (db, branches) = sub_search e db branches tokens source_id topic qos retain stored set_retain
      in (db, branch # branches))"

section \<open>Adding a subscription\<close>

text \<open>The slot of the node in \<open>context->subs\<close>.\<close>

fun add_sub_slot :: "string list \<Rightarrow> string list option list \<Rightarrow> string list option list" where
  "add_sub_slot path [] = [Some path]"
| "add_sub_slot path (None # slots) = Some path # slots"
| "add_sub_slot path (Some p # slots) = Some p # add_sub_slot path slots"

definition sub_add_leaf :: "mosquitto_db \<Rightarrow> ctxid option \<Rightarrow> int \<Rightarrow> string list \<Rightarrow> (ctxid \<times> int) list
    \<Rightarrow> int \<times> mosquitto_db \<times> (ctxid \<times> int) list" where
  "sub_add_leaf db context qos path subs =
     (case context of
        None \<Rightarrow> (MOSQ_ERR_SUCCESS, db, subs)
      | Some c \<Rightarrow>
          (case ctx_id (db_contexts db c) of
             None \<Rightarrow> (MOSQ_ERR_SUCCESS, db, subs)
           | Some client \<Rightarrow>
               let same = (\<lambda>(d, _). ctx_id (db_contexts db d) = Some client)
               in if list_ex same subs
                  then (if ctx_protocol (db_contexts db c) = mosq_p_mqtt31 then -1 else 0, db,
                        update_first same (\<lambda>(d, _). (d, qos)) subs)
                  else (MOSQ_ERR_SUCCESS,
                        upd_ctx c (\<lambda>m. m\<lparr>ctx_subs := add_sub_slot path (ctx_subs m)\<rparr>)
                          (db\<lparr>db_subscription_count := db_subscription_count db + 1\<rparr>),
                        subs @ [(c, qos)])))"

text \<open>
  \<open>_sub_add\<close> at a node; \<open>sub_add_branch\<close> is its loop over the children, which makes a new child
  at the end when there is none of that level.
\<close>

function (sequential) sub_add :: "mosquitto_db \<Rightarrow> ctxid option \<Rightarrow> int \<Rightarrow> string list \<Rightarrow> subhier \<Rightarrow> string list
      \<Rightarrow> int \<times> mosquitto_db \<times> subhier"
  and sub_add_branch :: "mosquitto_db \<Rightarrow> ctxid option \<Rightarrow> int \<Rightarrow> string list \<Rightarrow> subhier list \<Rightarrow> string \<Rightarrow> string list
      \<Rightarrow> int \<times> mosquitto_db \<times> subhier list" where
  "sub_add db c qos path (Subhier t subs children retained parent) [] =
     (case sub_add_leaf db c qos path subs of
        (rc, db, subs) \<Rightarrow> (rc, db, Subhier t subs children retained parent))"
| "sub_add db c qos path (Subhier t subs children retained parent) (token # tokens) =
     (case sub_add_branch db c qos path children token tokens of
        (rc, db, children) \<Rightarrow> (rc, db, Subhier t subs children retained parent))"
| "sub_add_branch db c qos path [] token tokens =
     (case sub_add db c qos (path @ [token]) (Subhier token [] [] None True) tokens of
        (rc, db, branch) \<Rightarrow> (rc, db, [branch]))"
| "sub_add_branch db c qos path (branch # branches) token tokens =
     (if sh_topic branch = token
      then case sub_add db c qos (path @ [token]) branch tokens of
             (rc, db, branch) \<Rightarrow> (rc, db, branch # branches)
      else case sub_add_branch db c qos path branches token tokens of
             (rc, db, branches) \<Rightarrow> (rc, db, branch # branches))"
  by pat_completeness auto
termination
  by (relation "measures [case_sum (\<lambda>(db, c, qos, path, node, tokens). 2 * length tokens)
        (\<lambda>(db, c, qos, path, nodes, token, tokens). 2 * length tokens + 1),
      case_sum (\<lambda>_. 0) (\<lambda>(db, c, qos, path, nodes, token, tokens). length nodes)]") auto

text \<open>The loop of \<open>mqtt3_sub_add\<close> over the top nodes; without a match a new one is put in front.\<close>

fun sub_add_top :: "mosquitto_db \<Rightarrow> ctxid \<Rightarrow> int \<Rightarrow> subhier list \<Rightarrow> string list
    \<Rightarrow> (int \<times> mosquitto_db \<times> subhier list) option" where
  "sub_add_top db c qos [] tokens = None"
| "sub_add_top db c qos (node # nodes) tokens =
     (if sh_topic node = hd tokens
      then case sub_add db (Some c) qos [hd tokens] node tokens of
             (rc, db, node) \<Rightarrow> Some (rc, db, node # nodes)
      else case sub_add_top db c qos nodes tokens of
             None \<Rightarrow> None
           | Some (rc, db, nodes) \<Rightarrow> Some (rc, db, node # nodes))"

definition mqtt3_sub_add :: "mosquitto_db \<Rightarrow> ctxid \<Rightarrow> string \<Rightarrow> int \<Rightarrow> int \<times> mosquitto_db" where
  "mqtt3_sub_add db c sub qos =
     (let tokens = sub_topic_tokenise sub;
          (rc, db, nodes) =
            (case sub_add_top db c qos (db_subs db) tokens of
               Some r \<Rightarrow> r
             | None \<Rightarrow>
                 (case sub_add db (Some c) qos [hd tokens] (Subhier (hd tokens) [] [] None True) tokens of
                    (rc, db, node) \<Rightarrow> (rc, db, node # db_subs db)))
      in (if rc = -1 then MOSQ_ERR_SUCCESS else rc, db\<lparr>db_subs := nodes\<rparr>))"

section \<open>Removing a subscription\<close>

definition sub_remove_leaf :: "mosquitto_db \<Rightarrow> ctxid \<Rightarrow> string list \<Rightarrow> (ctxid \<times> int) list
    \<Rightarrow> mosquitto_db \<times> (ctxid \<times> int) list" where
  "sub_remove_leaf db c path subs =
     (case find (\<lambda>(d, _). d = c) subs of
        None \<Rightarrow> (db, subs)
      | Some leaf \<Rightarrow>
          (upd_ctx c (\<lambda>m. m\<lparr>ctx_subs := update_first (\<lambda>s. s = Some path) (\<lambda>_. None) (ctx_subs m)\<rparr>)
             (db\<lparr>db_subscription_count := db_subscription_count db - 1\<rparr>),
           remove1 leaf subs))"

definition sh_unused :: "subhier \<Rightarrow> bool" where
  "sh_unused node \<longleftrightarrow> sh_children node = [] \<and> sh_subs node = [] \<and> sh_retained node = None"

function (sequential) sub_remove :: "mosquitto_db \<Rightarrow> ctxid \<Rightarrow> string list \<Rightarrow> subhier \<Rightarrow> string list \<Rightarrow> mosquitto_db \<times> subhier"
  and sub_remove_branch :: "mosquitto_db \<Rightarrow> ctxid \<Rightarrow> string list \<Rightarrow> subhier list \<Rightarrow> string \<Rightarrow> string list
      \<Rightarrow> mosquitto_db \<times> subhier list" where
  "sub_remove db c path (Subhier t subs children retained parent) [] =
     (case sub_remove_leaf db c path subs of
        (db, subs) \<Rightarrow> (db, Subhier t subs children retained parent))"
| "sub_remove db c path (Subhier t subs children retained parent) (token # tokens) =
     (case sub_remove_branch db c path children token tokens of
        (db, children) \<Rightarrow> (db, Subhier t subs children retained parent))"
| "sub_remove_branch db c path [] token tokens = (db, [])"
| "sub_remove_branch db c path (branch # branches) token tokens =
     (if sh_topic branch = token
      then case sub_remove db c (path @ [token]) branch tokens of
             (db, branch) \<Rightarrow> (db, if sh_unused branch then branches else branch # branches)
      else case sub_remove_branch db c path branches token tokens of
             (db, branches) \<Rightarrow> (db, branch # branches))"
  by pat_completeness auto
termination
  by (relation "measures [case_sum (\<lambda>(db, c, path, node, tokens). 2 * length tokens)
        (\<lambda>(db, c, path, nodes, token, tokens). 2 * length tokens + 1),
      case_sum (\<lambda>_. 0) (\<lambda>(db, c, path, nodes, token, tokens). length nodes)]") auto

fun sub_remove_top :: "mosquitto_db \<Rightarrow> ctxid \<Rightarrow> subhier list \<Rightarrow> string list \<Rightarrow> mosquitto_db \<times> subhier list" where
  "sub_remove_top db c [] tokens = (db, [])"
| "sub_remove_top db c (node # nodes) tokens =
     (if sh_topic node = hd tokens
      then case sub_remove db c [hd tokens] node tokens of (db, node) \<Rightarrow> (db, node # nodes)
      else case sub_remove_top db c nodes tokens of (db, nodes) \<Rightarrow> (db, node # nodes))"

definition mqtt3_sub_remove :: "mosquitto_db \<Rightarrow> ctxid \<Rightarrow> string \<Rightarrow> int \<times> mosquitto_db" where
  "mqtt3_sub_remove db c sub =
     (case sub_remove_top db c (db_subs db) (sub_topic_tokenise sub) of
        (db, nodes) \<Rightarrow> (MOSQ_ERR_SUCCESS, db\<lparr>db_subs := nodes\<rparr>))"

section \<open>Queueing a message for its subscribers\<close>

text \<open>The loop of \<open>mqtt3_db_messages_queue\<close> over the top nodes.\<close>

fun queue_loop :: "mosq_env \<Rightarrow> mosquitto_db \<Rightarrow> subhier list \<Rightarrow> string list \<Rightarrow> string \<Rightarrow> string \<Rightarrow> int \<Rightarrow> bool
    \<Rightarrow> storeid \<Rightarrow> mosquitto_db \<times> subhier list" where
  "queue_loop e db [] tokens source_id topic qos retain stored = (db, [])"
| "queue_loop e db (subhier # nodes) tokens source_id topic qos retain stored =
     (let (db, subhier) =
            (if sh_topic subhier = hd tokens
             then let (db, subhier) =
                        (if retain
                         then case sub_add db None 0 [hd tokens] subhier tokens of (_, db, subhier) \<Rightarrow> (db, subhier)
                         else (db, subhier));
                      (db, children) =
                        sub_search e db (sh_children subhier) tokens source_id topic qos retain stored True
                  in (db, Subhier (sh_topic subhier) (sh_subs subhier) children (sh_retained subhier) (sh_has_parent subhier))
             else (db, subhier));
          (db, nodes) = queue_loop e db nodes tokens source_id topic qos retain stored
      in (db, subhier # nodes))"

definition mqtt3_db_messages_queue ::
    "mosq_env \<Rightarrow> mosquitto_db \<Rightarrow> string \<Rightarrow> string \<Rightarrow> int \<Rightarrow> bool \<Rightarrow> storeid \<Rightarrow> int \<times> mosquitto_db" where
  "mqtt3_db_messages_queue e db source_id topic qos retain stored =
     (case queue_loop e (msg_store_ref db stored) (db_subs db) (sub_topic_tokenise topic)
             source_id topic qos retain stored of
        (db, nodes) \<Rightarrow> (MOSQ_ERR_SUCCESS, msg_store_deref (db\<lparr>db_subs := nodes\<rparr>) stored))"

definition mqtt3_db_messages_easy_queue ::
    "mosq_env \<Rightarrow> mosquitto_db \<Rightarrow> ctxid option \<Rightarrow> string option \<Rightarrow> int \<Rightarrow> byte list \<Rightarrow> bool \<Rightarrow> int \<times> mosquitto_db" where
  "mqtt3_db_messages_easy_queue e db context topic qos payload retain =
     (case topic of
        None \<Rightarrow> (MOSQ_ERR_INVAL, db)
      | Some topic \<Rightarrow>
          let source_id = (case context of
                             None \<Rightarrow> []
                           | Some c \<Rightarrow> (case ctx_id (db_contexts db c) of None \<Rightarrow> [] | Some client \<Rightarrow> client))
          in case mqtt3_db_message_store e db source_id 0 (Some topic) qos payload retain 0 of
               (rc, Some stored, db) \<Rightarrow> mqtt3_db_messages_queue e db source_id topic qos retain stored
             | (rc, None, db) \<Rightarrow> (1, db))"

section \<open>Retained messages of a new subscription\<close>

text \<open>\<open>mosquitto_acl_check\<close> with a topic that may be \<open>NULL\<close>.\<close>

definition acl_check_stored :: "mosq_env \<Rightarrow> mosquitto_db \<Rightarrow> mosquitto \<Rightarrow> string option \<Rightarrow> u32 \<Rightarrow> int option" where
  "acl_check_stored e db context topic access =
     (case topic of
        Some topic \<Rightarrow> mosquitto_acl_check e db context topic access
      | None \<Rightarrow> if ctx_id context = None then Some MOSQ_ERR_ACL_DENIED
                else if env_auth_plugin e = None then Some MOSQ_ERR_INVAL else None)"

definition retain_process :: "mosq_env \<Rightarrow> mosquitto_db \<Rightarrow> storeid \<Rightarrow> ctxid \<Rightarrow> int \<Rightarrow> int \<times> mosquitto_db" where
  "retain_process e db retained c sub_qos =
     (case acl_check_stored e db (db_contexts db c) (store_topic (db_stores db retained)) MOSQ_ACL_READ of
        None \<Rightarrow> (1, db\<lparr>db_aborted := True\<rparr>)
      | Some rc \<Rightarrow>
          if rc = MOSQ_ERR_ACL_DENIED then (MOSQ_ERR_SUCCESS, db)
          else if rc \<noteq> MOSQ_ERR_SUCCESS then (rc, db)
          else let qos = store_qos (db_stores db retained);
                   qos = (if qos > sub_qos then sub_qos else qos);
                   (mid, db) = (if qos > 0 then gen_mid c qos db else (0, db))
               in mqtt3_db_message_insert e db c mid mosq_md_out qos True retained)"

definition retain_here :: "mosq_env \<Rightarrow> mosquitto_db \<Rightarrow> storeid option \<Rightarrow> ctxid \<Rightarrow> int \<Rightarrow> mosquitto_db" where
  "retain_here e db retained c sub_qos =
     (case retained of None \<Rightarrow> db | Some r \<Rightarrow> snd (retain_process e db r c sub_qos))"

text \<open>The loop of \<open>_retain_search\<close> over the children; \<open>flag\<close> is its result so far.\<close>

fun retain_search :: "mosq_env \<Rightarrow> mosquitto_db \<Rightarrow> subhier list \<Rightarrow> string list \<Rightarrow> ctxid \<Rightarrow> int \<Rightarrow> nat \<Rightarrow> int
    \<Rightarrow> int \<times> mosquitto_db" where
  "retain_search e db [] tokens c sub_qos level flag = (flag, db)"
| "retain_search e db (Subhier t subs children retained parent # branches) tokens c sub_qos level flag =
     (if hd tokens = ''#'' \<and> tl tokens = []
      then let db = retain_here e db retained c sub_qos;
               db = (if children \<noteq> [] then snd (retain_search e db children tokens c sub_qos (level + 1) 0) else db)
           in retain_search e db branches tokens c sub_qos level (-1)
      else let db =
                 (if t \<noteq> ''+'' \<and> (t = hd tokens \<or> hd tokens = ''+'')
                  then if tl tokens \<noteq> []
                       then case retain_search e db children (tl tokens) c sub_qos (level + 1) 0 of
                              (f, db) \<Rightarrow>
                                if f = -1 \<or> branches = [] \<and> hd (tl tokens) = ''#'' \<and> level > 0
                                then retain_here e db retained c sub_qos else db
                       else retain_here e db retained c sub_qos
                  else db)
           in retain_search e db branches tokens c sub_qos level flag)"

definition mqtt3_retain_queue :: "mosq_env \<Rightarrow> mosquitto_db \<Rightarrow> ctxid \<Rightarrow> string \<Rightarrow> int \<Rightarrow> int \<times> mosquitto_db" where
  "mqtt3_retain_queue e db c sub sub_qos =
     (let tokens = sub_topic_tokenise sub
      in case find (\<lambda>node. sh_topic node = hd tokens) (db_subs db) of
           None \<Rightarrow> (MOSQ_ERR_SUCCESS, db)
         | Some node \<Rightarrow>
             (MOSQ_ERR_SUCCESS, snd (retain_search e db (sh_children node) tokens c sub_qos 0 0)))"

section \<open>Removing all subscriptions of a client\<close>

text \<open>The node a pointer stands for, and changes at a node.\<close>

fun node_at :: "subhier list \<Rightarrow> string list \<Rightarrow> subhier option" where
  "node_at nodes [] = None"
| "node_at nodes (t # path) =
     (case find (\<lambda>node. sh_topic node = t) nodes of
        None \<Rightarrow> None
      | Some node \<Rightarrow> if path = [] then Some node else node_at (sh_children node) path)"

definition set_children :: "subhier list \<Rightarrow> subhier \<Rightarrow> subhier" where
  "set_children children node =
     Subhier (sh_topic node) (sh_subs node) children (sh_retained node) (sh_has_parent node)"

definition set_subs :: "(ctxid \<times> int) list \<Rightarrow> subhier \<Rightarrow> subhier" where
  "set_subs subs node =
     Subhier (sh_topic node) subs (sh_children node) (sh_retained node) (sh_has_parent node)"

fun upd_node_at :: "(subhier \<Rightarrow> subhier) \<Rightarrow> string list \<Rightarrow> subhier list \<Rightarrow> subhier list" where
  "upd_node_at f [] nodes = nodes"
| "upd_node_at f (t # path) nodes =
     update_first (\<lambda>node. sh_topic node = t)
       (\<lambda>node. if path = [] then f node else set_children (upd_node_at f path (sh_children node)) node) nodes"

fun remove_first :: "('a \<Rightarrow> bool) \<Rightarrow> 'a list \<Rightarrow> 'a list" where
  "remove_first P [] = []"
| "remove_first P (x # xs) = (if P x then xs else x # remove_first P xs)"

definition unlink_node :: "string list \<Rightarrow> subhier list \<Rightarrow> subhier list" where
  "unlink_node path nodes =
     (if length path = 1 then remove_first (\<lambda>node. sh_topic node = hd path) nodes
      else upd_node_at (\<lambda>parent. set_children
             (remove_first (\<lambda>node. sh_topic node = last path) (sh_children parent)) parent) (butlast path) nodes)"

text \<open>\<open>tmp_remove_subs\<close>: the new tree and the parent, if it is to be removed as well.\<close>

definition tmp_remove_subs :: "subhier list \<Rightarrow> string list \<Rightarrow> subhier list \<times> string list option" where
  "tmp_remove_subs nodes path =
     (case node_at nodes path of
        None \<Rightarrow> (nodes, None)
      | Some sub \<Rightarrow>
          if \<not> sh_has_parent sub \<or> sh_children sub \<noteq> [] \<or> sh_subs sub \<noteq> [] then (nodes, None)
          else let nodes = unlink_node path nodes
               in case node_at nodes (butlast path) of
                    None \<Rightarrow> (nodes, None)
                  | Some parent \<Rightarrow>
                      (nodes, if sh_unused parent \<and> sh_has_parent parent then Some (butlast path) else None))"

lemma tmp_remove_subs_shorter:
  assumes "tmp_remove_subs nodes path = (nodes', Some h)"
  shows "length h < length path"
proof -
  have "h = butlast path" "node_at nodes path \<noteq> None"
    using assms by (auto simp: tmp_remove_subs_def Let_def split: option.splits if_splits)
  then show ?thesis by (cases path) auto
qed

function prune_loop :: "subhier list \<Rightarrow> string list \<Rightarrow> subhier list" where
  "prune_loop nodes path =
     (case tmp_remove_subs nodes path of
        (nodes, None) \<Rightarrow> nodes
      | (nodes, Some hier) \<Rightarrow> prune_loop nodes hier)"
  by pat_completeness auto
termination
  by (relation "measure (\<lambda>(nodes, path). length path)") (auto dest!: tmp_remove_subs_shorter [OF sym])

declare prune_loop.simps [simp del]

definition clean_slot :: "ctxid \<Rightarrow> string list option \<Rightarrow> mosquitto_db \<Rightarrow> mosquitto_db" where
  "clean_slot c slot db =
     (case slot of
        None \<Rightarrow> db
      | Some path \<Rightarrow>
          (case node_at (db_subs db) path of
             None \<Rightarrow> db\<lparr>db_aborted := True\<rparr>
           | Some node \<Rightarrow>
               let leaf = find (\<lambda>(d, _). d = c) (sh_subs node);
                   db = (case leaf of
                           None \<Rightarrow> db
                         | Some leaf \<Rightarrow>
                             db\<lparr>db_subscription_count := db_subscription_count db - 1,
                                db_subs := upd_node_at (\<lambda>node. set_subs (remove1 leaf (sh_subs node)) node)
                                  path (db_subs db)\<rparr>)
               in case node_at (db_subs db) path of
                    None \<Rightarrow> db
                  | Some node \<Rightarrow>
                      if sh_unused node \<and> sh_has_parent node
                      then db\<lparr>db_subs := prune_loop (db_subs db) path\<rparr> else db))"

definition mqtt3_subs_clean_session :: "mosquitto_db \<Rightarrow> ctxid \<Rightarrow> int \<times> mosquitto_db" where
  "mqtt3_subs_clean_session db c =
     (MOSQ_ERR_SUCCESS,
      upd_ctx c (\<lambda>m. m\<lparr>ctx_subs := []\<rparr>)
        (foldl (\<lambda>db slot. clean_slot c slot db) db (ctx_subs (db_contexts db c))))"

section \<open>Opening and closing\<close>

text \<open>Without a persistence file to restore.\<close>

definition mqtt3_db_open :: "mosquitto_db \<Rightarrow> int \<times> mosquitto_db" where
  "mqtt3_db_open db =
     (MOSQ_ERR_SUCCESS,
      db\<lparr>db_last_db_id := 0, db_contexts_by_id := [], db_contexts_by_sock := [], db_ll_for_free := [],
         db_bridges := [],
         db_subs := [Subhier [] [] [] None False, Subhier ''$SYS'' [] [] None False],
         db_unpwd := []\<rparr>)"

fun subhier_clean :: "mosquitto_db \<Rightarrow> subhier list \<Rightarrow> mosquitto_db" where
  "subhier_clean db [] = db"
| "subhier_clean db (Subhier t subs children retained parent # nodes) =
     (let db = (case retained of None \<Rightarrow> db | Some r \<Rightarrow> msg_store_deref db r);
          db = subhier_clean db children
      in subhier_clean db nodes)"

definition mqtt3_db_close :: "mosquitto_db \<Rightarrow> int \<times> mosquitto_db" where
  "mqtt3_db_close db =
     (MOSQ_ERR_SUCCESS, msg_store_clean ((subhier_clean db (db_subs db))\<lparr>db_subs := []\<rparr>))"

end
