(* ===== verification/Mosq_Tree.thy ===== *)
theory Mosq_Tree
  imports Mosq_Subs
begin

text \<open>
  The subscription tree as a table: which subscriptions a filter has, and that adding and
  removing change the entry of one filter only; the search visits exactly the filters that match.
\<close>

section \<open>Splitting\<close>

lemma levels_no_slash: "CHR ''/'' \<notin> set s \<Longrightarrow> levels s = [s]"
  by (induction s) auto

lemma levels_append_slash: "CHR ''/'' \<notin> set s \<Longrightarrow> levels (s @ CHR ''/'' # r) = s # levels r"
  by (induction s) auto

lemma tokenise_loop_levels:
  assumes "nul_free s"
  shows "start \<le> i \<Longrightarrow> i \<le> length s \<Longrightarrow> CHR ''/'' \<notin> set (drop start (take i s)) \<Longrightarrow>
     tokenise_loop s start i topics = topics @ levels (drop start s)"
proof (induction "length s - i" arbitrary: start i topics rule: less_induct)
  case less
  have d: "drop start s = drop start (take i s) @ drop i s" using less.prems(1,2)
    by (metis append_take_drop_id drop_drop drop_take le_add_diff_inverse2 take_drop)
  show ?case
  proof (cases "i = length s")
    case True
    then have "char_at s i = CHR 0x00" by (simp add: char_at_def)
    then have "tokenise_loop s start i topics = tokenise_loop s (i + 1) (i + 1) (topics @ [drop start (take i s)])"
      using True by (subst tokenise_loop.simps) simp
    also have "\<dots> = topics @ [drop start (take i s)]" using True by (subst tokenise_loop.simps) simp
    also have "\<dots> = topics @ levels (drop start s)" using levels_no_slash [OF less.prems(3)] True by simp
    finally show ?thesis .
  next
    case False
    then have i: "i < length s" using less.prems(2) by simp
    then have di: "drop i s = s ! i # drop (Suc i) s" by (simp add: Cons_nth_drop_Suc)
    have nn: "char_at s i \<noteq> CHR 0x00" using char_at_eq_nul [OF assms, of i] i by simp
    have ca: "char_at s i = s ! i" using i by (simp add: char_at_def)
    show ?thesis
    proof (cases "s ! i = CHR ''/''")
      case True
      have "tokenise_loop s start i topics = tokenise_loop s (Suc i) (Suc i) (topics @ [drop start (take i s)])"
        using i True ca by (subst tokenise_loop.simps) simp
      also have "\<dots> = (topics @ [drop start (take i s)]) @ levels (drop (Suc i) s)"
        by (rule less.hyps) (use i in simp_all)
      also have "\<dots> = topics @ levels (drop start s)"
        using levels_append_slash [OF less.prems(3), of "drop (Suc i) s"] d di True by simp
      finally show ?thesis .
    next
      case False
      have "tokenise_loop s start i topics = tokenise_loop s start (Suc i) topics"
        using i False ca nn by (subst tokenise_loop.simps) simp
      also have "\<dots> = topics @ levels (drop start s)"
        by (rule less.hyps) (use i False less.prems in \<open>auto simp: take_Suc_conv_app_nth\<close>)
      finally show ?thesis .
    qed
  qed
qed

text \<open>The level list of a filter or topic, with an empty level in front unless it starts with a dollar.\<close>

definition topic_levels :: "string \<Rightarrow> string list" where
  "topic_levels s = (if char_at s 0 = CHR ''$'' then levels s else [] # levels s)"

lemma sub_topic_tokenise_eq:
  assumes "nul_free s"
  shows "sub_topic_tokenise s = topic_levels s"
proof (cases "char_at s 0 = CHR ''/''")
  case True
  then obtain r where s: "s = CHR ''/'' # r" by (cases s) auto
  have "tokenise_loop s 1 1 [[], []] = [[], []] @ levels (drop 1 s)"
    by (rule tokenise_loop_levels [OF assms]) (use s in simp_all)
  then show ?thesis using s by (simp add: sub_topic_tokenise_def topic_levels_def Let_def)
next
  case False
  then show ?thesis using tokenise_loop_levels [OF assms, of 0 0]
    by (simp add: sub_topic_tokenise_def topic_levels_def Let_def)
qed

fun join_levels :: "string list \<Rightarrow> string" where
  "join_levels [] = []"
| "join_levels [l] = l"
| "join_levels (l # ls) = l @ CHR ''/'' # join_levels ls"

lemma join_levels_levels: "join_levels (levels s) = s"
proof (induction s)
  case (Cons c s)
  obtain l ls where l: "levels s = l # ls" using levels_nonempty [of s] by (cases "levels s") auto
  then show ?case using Cons by (cases ls) auto
qed simp

lemma hd_levels: "hd (levels s) = [] \<or> hd (hd (levels s)) = char_at s 0"
  by (cases s) auto

lemma topic_levels_inj: "topic_levels s = topic_levels t \<longleftrightarrow> s = t"
proof
  assume a: "topic_levels s = topic_levels t"
  have dollar: "char_at x 0 = CHR ''$'' \<Longrightarrow> hd (levels x) \<noteq> []" for x by (cases x) auto
  have "levels s = levels t" using a dollar [of s] dollar [of t]
    by (auto simp: topic_levels_def split: if_splits) (metis list.sel(1))+
  then show "s = t" using join_levels_levels by metis
qed simp

section \<open>Frames\<close>

text \<open>A change of the subscription lists of the clients and of the number of subscriptions only.\<close>

definition clear_subs :: "mosquitto_db \<Rightarrow> mosquitto_db" where
  "clear_subs db = db\<lparr>db_subscription_count := 0, db_contexts := (\<lambda>c. (db_contexts db c)\<lparr>ctx_subs := []\<rparr>)\<rparr>"

lemma clear_subs_eqD:
  assumes "clear_subs db' = clear_subs db"
  shows "db_subs db' = db_subs db" and "db_aborted db' = db_aborted db"
    and "(db_contexts db' c)\<lparr>ctx_subs := []\<rparr> = (db_contexts db c)\<lparr>ctx_subs := []\<rparr>"
proof -
  show "db_subs db' = db_subs db" "db_aborted db' = db_aborted db"
    using arg_cong [OF assms, of db_subs] arg_cong [OF assms, of db_aborted] by (simp_all add: clear_subs_def)
  show "(db_contexts db' c)\<lparr>ctx_subs := []\<rparr> = (db_contexts db c)\<lparr>ctx_subs := []\<rparr>"
    using arg_cong [OF assms, of "\<lambda>d. db_contexts d c"] by (simp add: clear_subs_def)
qed

lemma clear_subs_upd [simp]:
  "clear_subs (upd_ctx c (\<lambda>m. m\<lparr>ctx_subs := f m\<rparr>) db) = clear_subs db"
  "clear_subs (db\<lparr>db_subscription_count := k\<rparr>) = clear_subs db"
  by (simp_all add: clear_subs_def upd_ctx_def fun_eq_iff)

lemma sub_add_leaf_frame: "sub_add_leaf db c qos path subs = (rc, db', subs') \<Longrightarrow> clear_subs db' = clear_subs db"
  by (auto simp: sub_add_leaf_def Let_def split: option.splits if_splits)

lemma sub_add_frame:
  "sub_add db c qos path node tokens = (rc, db', node') \<Longrightarrow> clear_subs db' = clear_subs db"
  "sub_add_branch db c qos path nodes token tokens = (rc, db', nodes') \<Longrightarrow> clear_subs db' = clear_subs db"
  by (induction db c qos path node tokens and db c qos path nodes token tokens arbitrary: rc db' node' and rc db' nodes'
    rule: sub_add_sub_add_branch.induct) (auto dest: sub_add_leaf_frame split: prod.splits if_splits)

lemma sub_remove_leaf_frame: "sub_remove_leaf db c path subs = (db', subs') \<Longrightarrow> clear_subs db' = clear_subs db"
  by (auto simp: sub_remove_leaf_def split: option.splits)

lemma sub_remove_frame:
  "sub_remove db c path node tokens = (db', node') \<Longrightarrow> clear_subs db' = clear_subs db"
  "sub_remove_branch db c path nodes token tokens = (db', nodes') \<Longrightarrow> clear_subs db' = clear_subs db"
  by (induction db c path node tokens and db c path nodes token tokens arbitrary: db' node' and db' nodes'
    rule: sub_remove_sub_remove_branch.induct) (auto dest: sub_remove_leaf_frame split: prod.splits if_splits)

section \<open>The tree as a table\<close>

lemma forest_induct [case_names Nil Cons]:
  assumes "P []" and "\<And>b bs. P (sh_children b) \<Longrightarrow> P bs \<Longrightarrow> P (b # bs)"
  shows "P nodes"
proof (induction nodes rule: measure_induct_rule [of "size_list size"])
  case (less nodes)
  show ?case
  proof (cases nodes)
    case (Cons b bs)
    have "size_list size (sh_children b) < size_list size nodes" using Cons by (cases b) simp
    moreover have "size_list size bs < size_list size nodes" using Cons by simp
    ultimately show ?thesis using less assms(2) Cons by blast
  qed (use assms(1) in simp)
qed

text \<open>The subscriptions at a path below a list of siblings, and below a node.\<close>

definition subs_at :: "subhier list \<Rightarrow> string list \<Rightarrow> (ctxid \<times> int) list" where
  "subs_at nodes path = (case node_at nodes path of None \<Rightarrow> [] | Some node \<Rightarrow> sh_subs node)"

definition subs_below :: "subhier \<Rightarrow> string list \<Rightarrow> (ctxid \<times> int) list" where
  "subs_below node path = (if path = [] then sh_subs node else subs_at (sh_children node) path)"

lemma subs_at_simps [simp]:
  "subs_at nodes [] = []" "subs_at [] path = []"
  "subs_at (b # bs) (t # path) = (if sh_topic b = t then subs_below b path else subs_at bs (t # path))"
  by (simp_all add: subs_at_def subs_below_def) (cases path, simp_all add: subs_at_def)

lemma subs_below_simps [simp]:
  "subs_below (Subhier t subs children retained parent) [] = subs"
  "subs_below (Subhier t subs children retained parent) (x # path) = subs_at children (x # path)"
  by (simp_all add: subs_below_def)

lemma empty_node_below: "subs_below (Subhier t [] [] None parent) p = []"
  by (cases p) simp_all

text \<open>What a leaf operation does to the list of a node.\<close>

definition leaf_add :: "mosquitto_db \<Rightarrow> ctxid \<Rightarrow> int \<Rightarrow> (ctxid \<times> int) list \<Rightarrow> (ctxid \<times> int) list" where
  "leaf_add db c qos subs =
     (case ctx_id (db_contexts db c) of
        None \<Rightarrow> subs
      | Some client \<Rightarrow>
          let same = (\<lambda>(d, _). ctx_id (db_contexts db d) = Some client)
          in if list_ex same subs then update_first same (\<lambda>(d, _). (d, qos)) subs else subs @ [(c, qos)])"

definition leaf_change :: "mosquitto_db \<Rightarrow> ctxid option \<Rightarrow> int \<Rightarrow> (ctxid \<times> int) list \<Rightarrow> (ctxid \<times> int) list" where
  "leaf_change db c qos subs = (case c of None \<Rightarrow> subs | Some c \<Rightarrow> leaf_add db c qos subs)"

lemma sub_add_leaf_change:
  "sub_add_leaf db c qos path subs = (rc, db', subs') \<Longrightarrow> subs' = leaf_change db c qos subs"
  by (auto simp: sub_add_leaf_def leaf_add_def leaf_change_def Let_def split: option.splits if_splits)

lemma sub_add_table:
  "sub_add db c qos path node tokens = (rc, db', node') \<Longrightarrow>
   sh_topic node' = sh_topic node \<and>
   (\<forall>p. subs_below node' p = (if p = tokens then leaf_change db c qos (subs_below node p) else subs_below node p))"
  "sub_add_branch db c qos path nodes token tokens = (rc, db', nodes') \<Longrightarrow>
   (\<forall>p. subs_at nodes' p = (if p = token # tokens then leaf_change db c qos (subs_at nodes p) else subs_at nodes p))"
proof (induction db c qos path node tokens and db c qos path nodes token tokens arbitrary: rc db' node' and rc db' nodes'
    rule: sub_add_sub_add_branch.induct)
  case (1 db c qos path t subs children retained parent)
  then show ?case by (auto simp: subs_below_def split: prod.splits dest: sub_add_leaf_change)
next
  case (2 db c qos path t subs children retained parent token tokens)
  obtain r db1 ch where b: "sub_add_branch db c qos path children token tokens = (r, db1, ch)" using prod_cases3 by blast
  then show ?case using "2.IH" [OF b] "2.prems" by (auto simp: subs_below_def)
next
  case (3 db c qos path token tokens)
  obtain r db1 n where b: "sub_add db c qos (path @ [token]) (Subhier token [] [] None True) tokens = (r, db1, n)" using prod_cases3 by blast
  have "subs_at [n] p = (if p = token # tokens then leaf_change db c qos (subs_at [] p) else subs_at [] p)" for p
    using "3.IH" [OF b] by (cases p) (auto simp: empty_node_below)
  then show ?case using "3.prems" b by simp
next
  case (4 db c qos path branch branches token tokens)
  show ?case
  proof (cases "sh_topic branch = token")
    case True
    obtain r db1 n where b: "sub_add db c qos (path @ [token]) branch tokens = (r, db1, n)" using prod_cases3 by blast
    have "subs_at (n # branches) p = (if p = token # tokens then leaf_change db c qos (subs_at (branch # branches) p)
        else subs_at (branch # branches) p)" for p
      using "4.IH"(1) [OF True b] True by (cases p) auto
    then show ?thesis using "4.prems" b True by simp
  next
    case False
    obtain r db1 bs where b: "sub_add_branch db c qos path branches token tokens = (r, db1, bs)" using prod_cases3 by blast
    have "subs_at (branch # bs) p = (if p = token # tokens then leaf_change db c qos (subs_at (branch # branches) p)
        else subs_at (branch # branches) p)" for p
      using "4.IH"(2) [OF False b] False by (cases p) auto
    then show ?thesis using "4.prems" b False by simp
  qed
qed

definition leaf_remove :: "ctxid \<Rightarrow> (ctxid \<times> int) list \<Rightarrow> (ctxid \<times> int) list" where
  "leaf_remove c subs = (case find (\<lambda>(d, _). d = c) subs of None \<Rightarrow> subs | Some leaf \<Rightarrow> remove1 leaf subs)"

lemma sub_remove_leaf_remove: "sub_remove_leaf db c path subs = (db', subs') \<Longrightarrow> subs' = leaf_remove c subs"
  by (auto simp: sub_remove_leaf_def leaf_remove_def split: option.splits)

lemma sh_unused_below: "sh_unused node \<Longrightarrow> subs_below node p = []"
  by (simp add: sh_unused_def subs_below_def)

text \<open>Sibling nodes have different levels.\<close>

fun node_wf :: "subhier \<Rightarrow> bool" where
  "node_wf (Subhier t subs children retained parent) \<longleftrightarrow> distinct (map sh_topic children) \<and> list_all node_wf children"

definition forest_wf :: "subhier list \<Rightarrow> bool" where
  "forest_wf nodes \<longleftrightarrow> distinct (map sh_topic nodes) \<and> list_all node_wf nodes"

lemma node_wf_children: "node_wf node \<longleftrightarrow> forest_wf (sh_children node)"
  by (cases node) (simp add: forest_wf_def)

lemma subs_at_absent: "t \<notin> sh_topic ` set nodes \<Longrightarrow> subs_at nodes (t # p) = []"
  by (induction nodes) auto

lemma sub_remove_table:
  "node_wf node \<Longrightarrow> sub_remove db c path node tokens = (db', node') \<Longrightarrow>
   sh_topic node' = sh_topic node \<and> node_wf node' \<and>
   (\<forall>p. subs_below node' p = (if p = tokens then leaf_remove c (subs_below node p) else subs_below node p))"
  "forest_wf nodes \<Longrightarrow> sub_remove_branch db c path nodes token tokens = (db', nodes') \<Longrightarrow>
   forest_wf nodes' \<and> sh_topic ` set nodes' \<subseteq> sh_topic ` set nodes \<and>
   (\<forall>p. subs_at nodes' p = (if p = token # tokens then leaf_remove c (subs_at nodes p) else subs_at nodes p))"
proof (induction db c path node tokens and db c path nodes token tokens arbitrary: db' node' and db' nodes'
    rule: sub_remove_sub_remove_branch.induct)
  case (1 db c path t subs children retained parent)
  then show ?case by (auto simp: subs_below_def split: prod.splits dest: sub_remove_leaf_remove)
next
  case (2 db c path t subs children retained parent token tokens)
  obtain db1 ch where b: "sub_remove_branch db c path children token tokens = (db1, ch)" by fastforce
  have "forest_wf children" using "2.prems"(1) by (simp add: forest_wf_def)
  from "2.IH" [OF this b] show ?case using "2.prems" b by (auto simp: subs_below_def forest_wf_def)
next
  case (3 db c path token tokens)
  then show ?case by (simp add: leaf_remove_def)
next
  case (4 db c path branch branches token tokens)
  have wf: "node_wf branch" "forest_wf branches" "sh_topic branch \<notin> sh_topic ` set branches"
    using "4.prems"(1) by (auto simp: forest_wf_def)
  show ?case
  proof (cases "sh_topic branch = token")
    case True
    obtain db1 b where b: "sub_remove db c (path @ [token]) branch tokens = (db1, b)" by fastforce
    note IH = "4.IH"(1) [OF True wf(1) b]
    let ?new = "if sh_unused b then branches else b # branches"
    have topic: "sh_topic b = token" using IH True by simp
    have at: "subs_at ?new (t # l) = (if t = token then subs_below b l else subs_at branches (t # l))" for t l
      using True wf(3) topic sh_unused_below [of b l] subs_at_absent [of token branches l] by auto
    have "subs_at ?new p = (if p = token # tokens then leaf_remove c (subs_at (branch # branches) p)
        else subs_at (branch # branches) p)" for p
    proof (cases p)
      case (Cons t l)
      then show ?thesis using IH True unfolding Cons at by simp
    qed simp
    moreover have "forest_wf ?new" using IH wf by (auto simp: forest_wf_def)
    moreover have "sh_topic ` set ?new \<subseteq> sh_topic ` set (branch # branches)" using topic True by auto
    moreover have "nodes' = ?new" using "4.prems"(2) b True by simp
    ultimately show ?thesis by simp
  next
    case False
    obtain db1 bs where b: "sub_remove_branch db c path branches token tokens = (db1, bs)" by fastforce
    note IH = "4.IH"(2) [OF False wf(2) b]
    have "subs_at (branch # bs) p = (if p = token # tokens then leaf_remove c (subs_at (branch # branches) p)
        else subs_at (branch # branches) p)" for p
      using IH False by (cases p) auto
    moreover have "forest_wf (branch # bs)" using IH wf by (auto simp: forest_wf_def)
    moreover have "nodes' = branch # bs" using "4.prems"(2) b False by simp
    ultimately show ?thesis using IH by auto
  qed
qed

lemma sub_add_wf:
  "node_wf node \<Longrightarrow> sub_add db c qos path node tokens = (rc, db', node') \<Longrightarrow> node_wf node'"
  "forest_wf nodes \<Longrightarrow> sub_add_branch db c qos path nodes token tokens = (rc, db', nodes')
   \<Longrightarrow> forest_wf nodes' \<and> sh_topic ` set nodes' = insert token (sh_topic ` set nodes)"
proof (induction db c qos path node tokens and db c qos path nodes token tokens arbitrary: rc db' node' and rc db' nodes'
    rule: sub_add_sub_add_branch.induct)
  case (1 db c qos path t subs children retained parent)
  then show ?case by (auto split: prod.splits)
next
  case (2 db c qos path t subs children retained parent token tokens)
  obtain r db1 ch where b: "sub_add_branch db c qos path children token tokens = (r, db1, ch)" using prod_cases3 by blast
  have "forest_wf children" using "2.prems"(1) by (simp add: forest_wf_def)
  from "2.IH" [OF this b] show ?case using "2.prems" b by (auto simp: forest_wf_def)
next
  case (3 db c qos path token tokens)
  obtain r db1 n where b: "sub_add db c qos (path @ [token]) (Subhier token [] [] None True) tokens = (r, db1, n)" using prod_cases3 by blast
  have "sh_topic n = token" using sub_add_table(1) [OF b] by simp
  then show ?case using "3.IH" [OF _ b] "3.prems" b by (auto simp: forest_wf_def)
next
  case (4 db c qos path branch branches token tokens)
  have wf: "node_wf branch" "forest_wf branches" "sh_topic branch \<notin> sh_topic ` set branches"
    using "4.prems"(1) by (auto simp: forest_wf_def)
  show ?case
  proof (cases "sh_topic branch = token")
    case True
    obtain r db1 n where b: "sub_add db c qos (path @ [token]) branch tokens = (r, db1, n)" using prod_cases3 by blast
    have n: "sh_topic n = token" "node_wf n" using sub_add_table(1) [OF b] True "4.IH"(1) [OF True wf(1) b] by simp_all
    moreover have "nodes' = n # branches" using "4.prems"(2) b True by simp
    ultimately show ?thesis using True wf by (auto simp: forest_wf_def)
  next
    case False
    obtain r db1 bs where b: "sub_add_branch db c qos path branches token tokens = (r, db1, bs)" using prod_cases3 by blast
    have n: "forest_wf bs" "sh_topic ` set bs = insert token (sh_topic ` set branches)" using "4.IH"(2) [OF False wf(2) b] by simp_all
    moreover have "nodes' = branch # bs" using "4.prems"(2) b False by simp
    ultimately show ?thesis using False wf by (auto simp: forest_wf_def)
  qed
qed

section \<open>Filters\<close>

text \<open>The node of a filter is below the top node of its first level; that level is repeated.\<close>

definition filter_path :: "string \<Rightarrow> string list" where
  "filter_path f = hd (topic_levels f) # topic_levels f"

definition sub_lookup :: "mosquitto_db \<Rightarrow> string \<Rightarrow> (ctxid \<times> int) list" where
  "sub_lookup db f = subs_at (db_subs db) (filter_path f)"

lemma filter_path_inj: "filter_path f = filter_path g \<longleftrightarrow> f = g"
  using topic_levels_inj by (auto simp: filter_path_def)

lemma sub_add_top_table:
  "forest_wf nodes \<Longrightarrow>
   (case sub_add_top db c qos nodes tokens of
      None \<Rightarrow> hd tokens \<notin> sh_topic ` set nodes
    | Some (rc, db', nodes') \<Rightarrow> forest_wf nodes' \<and> sh_topic ` set nodes' = sh_topic ` set nodes \<and>
        (\<forall>p. subs_at nodes' p = (if p = hd tokens # tokens then leaf_add db c qos (subs_at nodes p) else subs_at nodes p)))"
proof (induction nodes)
  case (Cons b bs)
  have wf: "node_wf b" "forest_wf bs" "sh_topic b \<notin> sh_topic ` set bs" using Cons.prems by (auto simp: forest_wf_def)
  show ?case
  proof (cases "sh_topic b = hd tokens")
    case True
    obtain r db1 n where b: "sub_add db (Some c) qos [hd tokens] b tokens = (r, db1, n)" using prod_cases3 by blast
    note t = sub_add_table(1) [OF b]
    have "forest_wf (n # bs)" using t sub_add_wf(1) [OF wf(1) b] wf by (auto simp: forest_wf_def)
    moreover have "subs_at (n # bs) p = (if p = hd tokens # tokens then leaf_add db c qos (subs_at (b # bs) p)
        else subs_at (b # bs) p)" for p
      using t True by (cases p) (auto simp: leaf_change_def)
    ultimately show ?thesis using b True t by simp
  next
    case False
    show ?thesis
    proof (cases "sub_add_top db c qos bs tokens")
      case None
      then show ?thesis using False Cons.IH [OF wf(2)] by auto
    next
      case (Some x)
      obtain r db1 ns where x: "x = (r, db1, ns)" using prod_cases3 by blast
      have IH: "forest_wf ns" "sh_topic ` set ns = sh_topic ` set bs"
        "\<And>p. subs_at ns p = (if p = hd tokens # tokens then leaf_add db c qos (subs_at bs p) else subs_at bs p)"
        using Cons.IH [OF wf(2)] Some x by auto
      have "forest_wf (b # ns)" using IH wf by (auto simp: forest_wf_def)
      moreover have "subs_at (b # ns) p = (if p = hd tokens # tokens then leaf_add db c qos (subs_at (b # bs) p)
          else subs_at (b # bs) p)" for p
        using IH False by (cases p) auto
      ultimately show ?thesis using False Some x IH by auto
    qed
  qed
qed simp

lemma sub_add_paths:
  assumes "forest_wf (db_subs db)" and "nul_free f"
  shows "forest_wf (db_subs (snd (mqtt3_sub_add db c f qos)))"
    and "subs_at (db_subs (snd (mqtt3_sub_add db c f qos))) p =
      (if p = filter_path f then leaf_add db c qos (subs_at (db_subs db) p) else subs_at (db_subs db) p)"
proof -
  let ?t = "topic_levels f"
  define ns where "ns = db_subs (snd (mqtt3_sub_add db c f qos))"
  have "forest_wf ns \<and> (\<forall>p. subs_at ns p = (if p = hd ?t # ?t then leaf_add db c qos (subs_at (db_subs db) p) else subs_at (db_subs db) p))"
  proof (cases "sub_add_top db c qos (db_subs db) ?t")
    case None
    obtain r db1 n where b: "sub_add db (Some c) qos [hd ?t] (Subhier (hd ?t) [] [] None True) ?t = (r, db1, n)" using prod_cases3 by blast
    have db1: "db_subs db1 = db_subs db" by (rule clear_subs_eqD(1) [OF sub_add_frame(1) [OF b]])
    note t = sub_add_table(1) [OF b]
    have absent: "hd ?t \<notin> sh_topic ` set (db_subs db)" using sub_add_top_table [OF assms(1), where db = db and c = c and qos = qos and tokens = ?t] None by simp
    have "forest_wf (n # db_subs db)" using t sub_add_wf(1) [OF _ b] absent assms(1) by (auto simp: forest_wf_def)
    moreover have "subs_at (n # db_subs db) p = (if p = hd ?t # ?t then leaf_add db c qos (subs_at (db_subs db) p)
        else subs_at (db_subs db) p)" for p
      using t subs_at_absent [OF absent] by (cases p) (auto simp: leaf_change_def empty_node_below)
    moreover have "ns = n # db_subs db"
      using None b db1 by (simp add: ns_def mqtt3_sub_add_def Let_def sub_topic_tokenise_eq [OF assms(2)])
    ultimately show ?thesis by simp
  next
    case (Some x)
    obtain r db1 ns' where x: "x = (r, db1, ns')" using prod_cases3 by blast
    then show ?thesis using Some sub_add_top_table [OF assms(1), where db = db and c = c and qos = qos and tokens = ?t]
      by (auto simp: ns_def mqtt3_sub_add_def Let_def sub_topic_tokenise_eq [OF assms(2)])
  qed
  then show "forest_wf (db_subs (snd (mqtt3_sub_add db c f qos)))"
    "subs_at (db_subs (snd (mqtt3_sub_add db c f qos))) p =
      (if p = filter_path f then leaf_add db c qos (subs_at (db_subs db) p) else subs_at (db_subs db) p)"
    by (auto simp: ns_def filter_path_def)
qed

lemma sub_add_lookup:
  assumes "forest_wf (db_subs db)" and "nul_free f"
  shows "sub_lookup (snd (mqtt3_sub_add db c f qos)) g = (if g = f then leaf_add db c qos (sub_lookup db f) else sub_lookup db g)"
  by (simp add: sub_lookup_def sub_add_paths(2) [OF assms] filter_path_inj)

lemma sub_remove_top_table:
  "forest_wf nodes \<Longrightarrow> sub_remove_top db c nodes tokens = (db', nodes') \<Longrightarrow>
   forest_wf nodes' \<and> sh_topic ` set nodes' = sh_topic ` set nodes \<and>
   (\<forall>p. subs_at nodes' p = (if p = hd tokens # tokens then leaf_remove c (subs_at nodes p) else subs_at nodes p))"
proof (induction nodes arbitrary: db' nodes')
  case Nil
  then show ?case by (simp add: leaf_remove_def)
next
  case (Cons b bs)
  have wf: "node_wf b" "forest_wf bs" "sh_topic b \<notin> sh_topic ` set bs" using Cons.prems by (auto simp: forest_wf_def)
  show ?case
  proof (cases "sh_topic b = hd tokens")
    case True
    obtain db1 n where b: "sub_remove db c [hd tokens] b tokens = (db1, n)" by fastforce
    note t = sub_remove_table(1) [OF wf(1) b]
    have "forest_wf (n # bs)" using t wf by (auto simp: forest_wf_def)
    moreover have "subs_at (n # bs) p = (if p = hd tokens # tokens then leaf_remove c (subs_at (b # bs) p)
        else subs_at (b # bs) p)" for p
      using t True by (cases p) auto
    moreover have "nodes' = n # bs" using Cons.prems(2) b True by simp
    ultimately show ?thesis using t by simp
  next
    case False
    obtain db1 ns where b: "sub_remove_top db c bs tokens = (db1, ns)" by fastforce
    note IH = Cons.IH [OF wf(2) b]
    have "forest_wf (b # ns)" using IH wf by (auto simp: forest_wf_def)
    moreover have "subs_at (b # ns) p = (if p = hd tokens # tokens then leaf_remove c (subs_at (b # bs) p)
        else subs_at (b # bs) p)" for p
      using IH False by (cases p) auto
    moreover have "nodes' = b # ns" using Cons.prems(2) b False by simp
    ultimately show ?thesis using IH by simp
  qed
qed

lemma sub_remove_paths:
  assumes "forest_wf (db_subs db)" and "nul_free f"
  shows "forest_wf (db_subs (snd (mqtt3_sub_remove db c f)))"
    and "subs_at (db_subs (snd (mqtt3_sub_remove db c f))) p =
      (if p = filter_path f then leaf_remove c (subs_at (db_subs db) p) else subs_at (db_subs db) p)"
proof -
  obtain db1 ns where b: "sub_remove_top db c (db_subs db) (topic_levels f) = (db1, ns)" by fastforce
  have "db_subs (snd (mqtt3_sub_remove db c f)) = ns"
    using b by (simp add: mqtt3_sub_remove_def sub_topic_tokenise_eq [OF assms(2)])
  then show "forest_wf (db_subs (snd (mqtt3_sub_remove db c f)))"
    "subs_at (db_subs (snd (mqtt3_sub_remove db c f))) p =
      (if p = filter_path f then leaf_remove c (subs_at (db_subs db) p) else subs_at (db_subs db) p)"
    using sub_remove_top_table [OF assms(1) b] by (auto simp: filter_path_def)
qed

lemma sub_remove_lookup:
  assumes "forest_wf (db_subs db)" and "nul_free f"
  shows "sub_lookup (snd (mqtt3_sub_remove db c f)) g = (if g = f then leaf_remove c (sub_lookup db f) else sub_lookup db g)"
  by (simp add: sub_lookup_def sub_remove_paths(2) [OF assms] filter_path_inj)

section \<open>The table as an interface\<close>

text \<open>
  A table of subscriptions by filter.  \<open>who d c\<close> is the client identifier of a connection, which
  neither operation changes.  A client appears at most once under a filter.
\<close>

locale subscription_table =
  fixes inv :: "'d \<Rightarrow> bool" and look :: "'d \<Rightarrow> 'f \<Rightarrow> ('c \<times> int) list" and who :: "'d \<Rightarrow> 'c \<Rightarrow> string option"
    and add :: "'d \<Rightarrow> 'c \<Rightarrow> 'f \<Rightarrow> int \<Rightarrow> 'd" and remove :: "'d \<Rightarrow> 'c \<Rightarrow> 'f \<Rightarrow> 'd" and ok :: "'f \<Rightarrow> bool"
  assumes inv_add: "inv d \<Longrightarrow> ok f \<Longrightarrow> inv (add d c f q)"
    and inv_remove: "inv d \<Longrightarrow> ok f \<Longrightarrow> inv (remove d c f)"
    and who_add: "who (add d c f q) = who d" and who_remove: "who (remove d c f) = who d"
    and look_add_other: "inv d \<Longrightarrow> ok f \<Longrightarrow> g \<noteq> f \<Longrightarrow> look (add d c f q) g = look d g"
    and look_remove_other: "inv d \<Longrightarrow> ok f \<Longrightarrow> g \<noteq> f \<Longrightarrow> look (remove d c f) g = look d g"
    and look_add_new: "inv d \<Longrightarrow> ok f \<Longrightarrow> who d c = Some client \<Longrightarrow> \<forall>(b, _) \<in> set (look d f). who d b \<noteq> Some client
          \<Longrightarrow> look (add d c f q) f = look d f @ [(c, q)]"
    and look_add_again: "inv d \<Longrightarrow> ok f \<Longrightarrow> who d c = Some client \<Longrightarrow> look d f = xs @ (b, p) # ys \<Longrightarrow> who d b = Some client
          \<Longrightarrow> \<forall>(a, _) \<in> set xs. who d a \<noteq> Some client \<Longrightarrow> look (add d c f q) f = xs @ (b, q) # ys"
    and look_remove: "inv d \<Longrightarrow> ok f \<Longrightarrow> look d f = xs @ (c, p) # ys \<Longrightarrow> c \<notin> fst ` set xs \<Longrightarrow> look (remove d c f) f = xs @ ys"
begin

lemma subscribe_unsubscribe:
  assumes "inv d" and "ok f" and "who d c = Some client" and "\<forall>(b, _) \<in> set (look d f). who d b \<noteq> Some client"
  shows "look (remove (add d c f q) c f) g = look d g"
proof (cases "g = f")
  case True
  have "look (add d c f q) f = look d f @ (c, q) # []" using look_add_new [OF assms] by simp
  moreover have "c \<notin> fst ` set (look d f)" using assms(3,4) by auto
  ultimately show ?thesis using look_remove [OF inv_add [OF assms(1,2)] assms(2)] True by simp
next
  case False
  then show ?thesis
    using look_add_other [OF assms(1,2) False] look_remove_other [OF inv_add [OF assms(1,2)] assms(2) False] by simp
qed

lemma subscribe_twice:
  assumes "inv d" and "ok f" and "who d c = Some client" and "\<forall>(b, _) \<in> set (look d f). who d b \<noteq> Some client"
  shows "look (add (add d c f p) c f q) g = look (add d c f q) g"
proof (cases "g = f")
  case True
  have "look (add d c f p) f = look d f @ (c, p) # []" using look_add_new [OF assms] by simp
  from look_add_again [OF inv_add [OF assms(1,2)] assms(2) _ this] assms(3,4)
  have "look (add (add d c f p) c f q) f = look d f @ [(c, q)]" by (simp add: who_add)
  then show ?thesis using look_add_new [OF assms] True by simp
next
  case False
  then show ?thesis
    using look_add_other [OF assms(1,2) False] look_add_other [OF inv_add [OF assms(1,2)] assms(2) False] by simp
qed

end

definition ctx_client :: "mosquitto_db \<Rightarrow> ctxid \<Rightarrow> string option" where
  "ctx_client db c = ctx_id (db_contexts db c)"

lemma clear_subs_client: "clear_subs db' = clear_subs db \<Longrightarrow> ctx_client db' = ctx_client db"
proof
  fix c assume "clear_subs db' = clear_subs db"
  from arg_cong [OF clear_subs_eqD(3) [OF this, of c], of ctx_id] show "ctx_client db' c = ctx_client db c"
    by (simp add: ctx_client_def)
qed

lemma ctx_client_subs [simp]: "ctx_client (db\<lparr>db_subs := ns\<rparr>) = ctx_client db"
  by (simp add: ctx_client_def fun_eq_iff)

lemma sub_add_top_frame:
  "sub_add_top db c qos nodes tokens = Some (rc, db', nodes') \<Longrightarrow> clear_subs db' = clear_subs db"
  by (induction nodes arbitrary: nodes') (auto dest: sub_add_frame split: prod.splits if_splits option.splits)

lemma sub_remove_top_frame:
  "sub_remove_top db c nodes tokens = (db', nodes') \<Longrightarrow> clear_subs db' = clear_subs db"
  by (induction nodes arbitrary: nodes') (auto dest: sub_remove_frame split: prod.splits if_splits)

lemma update_first_append: "\<forall>x \<in> set xs. \<not> P x \<Longrightarrow> P y \<Longrightarrow> update_first P f (xs @ y # ys) = xs @ f y # ys"
  by (induction xs) auto

lemma find_append: "\<forall>x \<in> set xs. \<not> P x \<Longrightarrow> P y \<Longrightarrow> find P (xs @ y # ys) = Some y"
  by (induction xs) auto

lemma remove1_append_notin: "y \<notin> set xs \<Longrightarrow> remove1 y (xs @ y # ys) = xs @ ys"
  by (simp add: remove1_append)

interpretation broker_subs: subscription_table "\<lambda>db. forest_wf (db_subs db)" sub_lookup ctx_client
  "\<lambda>db c f q. snd (mqtt3_sub_add db c f q)" "\<lambda>db c f. snd (mqtt3_sub_remove db c f)" nul_free
proof
  fix d :: mosquitto_db and c f q
  obtain db1 ns where r: "sub_remove_top d c (db_subs d) (sub_topic_tokenise f) = (db1, ns)" by fastforce
  show "ctx_client (snd (mqtt3_sub_remove d c f)) = ctx_client d"
    using r clear_subs_client [OF sub_remove_top_frame [OF r]] by (simp add: mqtt3_sub_remove_def)
  obtain rc db1 n where b: "sub_add d (Some c) q [hd (sub_topic_tokenise f)] (Subhier (hd (sub_topic_tokenise f)) [] [] None True)
      (sub_topic_tokenise f) = (rc, db1, n)" using prod_cases3 by blast
  show "ctx_client (snd (mqtt3_sub_add d c f q)) = ctx_client d"
    using clear_subs_client [OF sub_add_frame(1) [OF b]] b
    by (auto simp: mqtt3_sub_add_def Let_def dest!: sub_add_top_frame clear_subs_client split: option.split prod.split)
next
  fix d :: mosquitto_db and f c client q
  assume *: "forest_wf (db_subs d)" "nul_free f" "ctx_client d c = Some client"
  show "sub_lookup (snd (mqtt3_sub_add d c f q)) f = sub_lookup d f @ [(c, q)]"
    if "\<forall>(b, _) \<in> set (sub_lookup d f). ctx_client d b \<noteq> Some client"
    using sub_add_lookup [OF *(1,2), of c q f] *(3) that
    by (auto simp: leaf_add_def ctx_client_def list_ex_iff Let_def)
  show "sub_lookup (snd (mqtt3_sub_add d c f q)) f = xs @ (b, q) # ys"
    if l: "sub_lookup d f = xs @ (b, p) # ys" "ctx_client d b = Some client" "\<forall>(a, _) \<in> set xs. ctx_client d a \<noteq> Some client"
    for xs b p ys
    using sub_add_lookup [OF *(1,2), of c q f] *(3) l
      update_first_append [of xs "\<lambda>(a, _). ctx_id (db_contexts d a) = Some client" "(b, p)" "\<lambda>(d, _). (d, q)" ys]
    by (auto simp: leaf_add_def ctx_client_def Let_def)
next
  fix d :: mosquitto_db and f xs c p ys
  assume *: "forest_wf (db_subs d)" "nul_free f" and l: "sub_lookup d f = xs @ (c, p) # ys" "c \<notin> fst ` set xs"
  have "find (\<lambda>(d, _). d = c) (xs @ (c, p) # ys) = Some (c, p)" using l(2) by (intro find_append) force+
  moreover have "remove1 (c, p) (xs @ (c, p) # ys) = xs @ ys" using l(2) by (intro remove1_append_notin) force
  ultimately show "sub_lookup (snd (mqtt3_sub_remove d c f)) f = xs @ ys"
    using sub_remove_lookup [OF *, of c f] l(1) by (simp add: leaf_remove_def)
qed (simp_all add: sub_add_paths(1) sub_remove_paths(1) sub_add_lookup sub_remove_lookup)

end
