(* ===== verification/Mosq_Route.thy ===== *)
theory Mosq_Route
  imports Mosq_Tree
begin

text \<open>
  Which subscriptions a published message reaches: the search of the tree visits exactly the
  filters that match the topic by the rules of the protocol.
\<close>

section \<open>The paths the search visits\<close>

fun visits :: "subhier list \<Rightarrow> string list \<Rightarrow> string list list" where
  "visits [] ts = []"
| "visits (Subhier t subs children retained parent # branches) ts =
     (if ts \<noteq> [] \<and> (t = hd ts \<or> t = ''+'')
      then map ((#) t) (visits children (tl ts)) @ (if tl ts = [] then [[t]] else [])
      else if t = ''#'' \<and> children = [] then [[t]] else []) @ visits branches ts"

lemma visits_Cons:
  "visits (b # bs) ts =
     (if ts \<noteq> [] \<and> (sh_topic b = hd ts \<or> sh_topic b = ''+'')
      then map ((#) (sh_topic b)) (visits (sh_children b) (tl ts)) @ (if tl ts = [] then [[sh_topic b]] else [])
      else if sh_topic b = ''#'' \<and> sh_children b = [] then [[sh_topic b]] else []) @ visits bs ts"
  by (cases b) simp

declare visits.simps(2) [simp del]

lemma visits_hd: "p \<in> set (visits nodes ts) \<Longrightarrow> \<exists>t q. p = t # q \<and> t \<in> sh_topic ` set nodes"
  by (induction nodes) (auto simp: visits_Cons split: if_splits)

text \<open>Nothing stands below a \<open>#\<close>.\<close>

fun hash_last :: "subhier \<Rightarrow> bool" where
  "hash_last (Subhier t subs children retained parent) \<longleftrightarrow> (t = ''#'' \<longrightarrow> children = []) \<and> list_all hash_last children"

lemma hash_last_node: "hash_last b \<longleftrightarrow> (sh_topic b = ''#'' \<longrightarrow> sh_children b = []) \<and> list_all hash_last (sh_children b)"
  by (cases b) simp

lemma forest_wf_Cons:
  "forest_wf (b # bs) \<longleftrightarrow> forest_wf (sh_children b) \<and> forest_wf bs \<and> sh_topic b \<notin> sh_topic ` set bs"
  by (auto simp: forest_wf_def node_wf_children)

lemma node_at_Cons:
  "node_at (b # bs) (t # p) =
     (if sh_topic b = t then if p = [] then Some b else node_at (sh_children b) p else node_at bs (t # p))"
  by simp

lemma visits_distinct: "forest_wf nodes \<Longrightarrow> distinct (visits nodes ts)"
proof (induction nodes arbitrary: ts rule: forest_induct)
  case (Cons b bs)
  have wf: "forest_wf (sh_children b)" "forest_wf bs" "sh_topic b \<notin> sh_topic ` set bs"
    using Cons.prems forest_wf_Cons by auto
  have "sh_topic b # q \<notin> set (visits bs ts)" for q using visits_hd wf(3) by fastforce
  moreover have "[] \<notin> set (visits (sh_children b) us)" for us using visits_hd by fastforce
  ultimately show ?case using Cons.IH(1) [OF wf(1), of "tl ts"] Cons.IH(2) [OF wf(2), of ts]
    by (auto simp: visits_Cons distinct_map)
qed simp

lemma visits_iff:
  "forest_wf nodes \<Longrightarrow> list_all hash_last nodes \<Longrightarrow> \<forall>l \<in> set ts. plain_level l \<Longrightarrow>
   p \<in> set (visits nodes ts) \<longleftrightarrow> node_at nodes p \<noteq> None \<and> levels_match p ts"
proof (induction nodes arbitrary: ts p rule: forest_induct)
  case Nil
  show ?case by (cases p) simp_all
next
  case (Cons b bs)
  have wf: "forest_wf (sh_children b)" "forest_wf bs" "sh_topic b \<notin> sh_topic ` set bs"
    using Cons.prems(1) forest_wf_Cons by auto
  have h: "sh_topic b = ''#'' \<Longrightarrow> sh_children b = []" "list_all hash_last (sh_children b)" "list_all hash_last bs"
    using Cons.prems(2) hash_last_node [of b] by auto
  have plain: "\<forall>l \<in> set (tl ts). plain_level l" using Cons.prems(3) by (cases ts) auto
  note IH = Cons.IH(1) [OF wf(1) h(2) plain] Cons.IH(2) [OF wf(2) h(3) Cons.prems(3)]
  show ?case
  proof (cases p)
    case Nil
    then show ?thesis using visits_hd by fastforce
  next
    case p: (Cons t q)
    show ?thesis
    proof (cases "sh_topic b = t")
      case False
      then have "p \<in> set (visits (b # bs) ts) \<longleftrightarrow> p \<in> set (visits bs ts)" using p by (auto simp: visits_Cons)
      then show ?thesis using False p IH(2) [of p] by simp
    next
      case True
      then have out: "p \<notin> set (visits bs ts)" using visits_hd [of p bs ts] wf(3) p by auto
      have ts: "ts \<noteq> [] \<Longrightarrow> hd ts \<noteq> ''#''" using Cons.prems(3) by (cases ts) (auto simp: plain_level_def)
      show ?thesis
      proof (cases q)
        case Nil
        then show ?thesis using p True out ts h(1) visits_hd [of "[]" "sh_children b" "tl ts"]
          by (cases ts) (auto simp: visits_Cons)
      next
        case (Cons x r)
        then show ?thesis using p True out ts h(1) IH(1) [of q]
          by (cases ts) (auto simp: visits_Cons)
      qed
    qed
  qed
qed


section \<open>The search as a sequence of deliveries\<close>

lemma sub_search_visits:
  "forest_wf nodes \<Longrightarrow>
   sub_search e db nodes ts source_id topic qos False stored sr =
     (foldl (\<lambda>db p. snd (subs_loop e db (subs_at nodes p) source_id topic qos False stored 0)) db (visits nodes ts), nodes)"
proof (induction nodes arbitrary: db ts sr rule: forest_induct)
  case (Cons b bs)
  have wf: "forest_wf (sh_children b)" "forest_wf bs" "sh_topic b \<notin> sh_topic ` set bs"
    using Cons.prems forest_wf_Cons by auto
  let ?d = "\<lambda>nodes db p. snd (subs_loop e db (subs_at nodes p) source_id topic qos False stored 0)"
  obtain t subs children retained parent where b: "b = Subhier t subs children retained parent" by (cases b)
  have below: "foldl (?d (b # bs)) db (map ((#) t) (visits children us)) = foldl (?d children) db (visits children us)" for db us
    unfolding foldl_map
    by (rule foldl_cong [OF refl refl], drule visits_hd) (auto simp: b)
  have side: "foldl (?d (b # bs)) db (visits bs ts) = foldl (?d bs) db (visits bs ts)" for db
    by (rule foldl_cong [OF refl refl], drule visits_hd) (use wf(3) in auto)
  have leaf: "?d (b # bs) db [t] = snd (subs_loop e db subs source_id topic qos False stored 0)" for db
    by (simp add: b)
  show ?case using Cons.IH(1) [OF wf(1)] Cons.IH(2) [OF wf(2)] leaf
    by (simp add: visits_Cons b below [unfolded b] side [unfolded b] subs_process_def Let_def split: prod.split)
qed simp


lemma queue_loop_absent:
  "hd ts \<notin> sh_topic ` set nodes \<Longrightarrow> queue_loop e db nodes ts source_id topic qos retain stored = (db, nodes)"
  by (induction nodes) auto

definition top_children :: "subhier list \<Rightarrow> string \<Rightarrow> subhier list" where
  "top_children nodes t = (case find (\<lambda>node. sh_topic node = t) nodes of None \<Rightarrow> [] | Some node \<Rightarrow> sh_children node)"

lemma queue_loop_visits:
  "forest_wf nodes \<Longrightarrow>
   queue_loop e db nodes ts source_id topic qos False stored =
     (foldl (\<lambda>db p. snd (subs_loop e db (subs_at nodes (hd ts # p)) source_id topic qos False stored 0)) db
        (visits (top_children nodes (hd ts)) ts), nodes)"
proof (induction nodes)
  case Nil
  show ?case by (simp add: top_children_def)
next
  case (Cons b bs)
  have wf: "forest_wf (sh_children b)" "forest_wf bs" "sh_topic b \<notin> sh_topic ` set bs"
    using Cons.prems forest_wf_Cons by auto
  show ?case
  proof (cases "sh_topic b = hd ts")
    case True
    obtain t subs children retained parent where b: "b = Subhier t subs children retained parent" by (cases b)
    have "foldl (\<lambda>db p. snd (subs_loop e db (subs_at (b # bs) (hd ts # p)) source_id topic qos False stored 0)) db (visits children ts)
        = foldl (\<lambda>db p. snd (subs_loop e db (subs_at children p) source_id topic qos False stored 0)) db (visits children ts)"
      by (rule foldl_cong [OF refl refl], drule visits_hd) (use True b in auto)
    then show ?thesis using True b wf sub_search_visits [OF wf(1)] queue_loop_absent
      by (simp add: top_children_def Let_def split: prod.split)
  next
    case False
    then show ?thesis using Cons.IH [OF wf(2)] by (simp add: top_children_def)
  qed
qed

section \<open>Filters that match\<close>

lemma topic_levels_match:
  assumes "valid_filter (levels f)"
  shows "hd (topic_levels f) = hd (topic_levels t) \<and> levels_match (topic_levels f) (topic_levels t)
     \<longleftrightarrow> same_dollar f t \<and> levels_match (levels f) (levels t)"
proof -
  have dollar: "char_at x 0 = CHR ''$'' \<Longrightarrow> \<exists>l ls. levels x = (CHR ''$'' # l) # ls" for x by (cases x) auto
  show ?thesis
    using dollar [of f] dollar [of t] levels_nonempty [of f] levels_nonempty [of t]
    by (cases "levels t") (auto simp: topic_levels_def same_dollar_def)
qed

text \<open>
  The shape of the tree: siblings differ, nothing stands below a \<open>#\<close>, and subscriptions stand at
  the nodes of valid filters only.
\<close>

definition filter_tree :: "subhier list \<Rightarrow> bool" where
  "filter_tree nodes \<longleftrightarrow> forest_wf nodes \<and> list_all hash_last nodes \<and>
     (\<forall>p. subs_at nodes p \<noteq> [] \<longrightarrow> (\<exists>f. p = filter_path f \<and> valid_filter (levels f)))"

lemma top_children_simps:
  "top_children [] t = []"
  "top_children (b # bs) t = (if sh_topic b = t then sh_children b else top_children bs t)"
  by (simp_all add: top_children_def)

lemma top_children_keep:
  "forest_wf nodes \<Longrightarrow> forest_wf (top_children nodes t)"
  "list_all hash_last nodes \<Longrightarrow> list_all hash_last (top_children nodes t)"
  by (induction nodes) (auto simp: top_children_simps forest_wf_Cons hash_last_node)

lemma node_at_top: "q \<noteq> [] \<Longrightarrow> node_at nodes (t # q) = node_at (top_children nodes t) q"
  by (cases q) (auto simp: top_children_def split: option.split)

text \<open>The order in which the filters are visited.\<close>

definition matching_filters :: "subhier list \<Rightarrow> string \<Rightarrow> string list" where
  "matching_filters nodes topic =
     map (\<lambda>p. join_levels (if hd p = [] then tl p else p))
       (filter (\<lambda>p. subs_at nodes (hd (topic_levels topic) # p) \<noteq> [])
          (visits (top_children nodes (hd (topic_levels topic))) (topic_levels topic)))"

lemma join_topic_levels: "join_levels (if hd (topic_levels f) = [] then tl (topic_levels f) else topic_levels f) = f"
  using hd_levels [of f] levels_nonempty [of f] join_levels_levels [of f]
  by (cases f) (auto simp: topic_levels_def)

lemma visited_filter:
  assumes "filter_tree nodes" and "\<forall>l \<in> set (levels topic). plain_level l"
  shows "p \<in> set (visits (top_children nodes (hd (topic_levels topic))) (topic_levels topic))
           \<and> subs_at nodes (hd (topic_levels topic) # p) \<noteq> []
     \<longleftrightarrow> (\<exists>f. p = topic_levels f \<and> subs_at nodes (filter_path f) \<noteq> [] \<and> same_dollar f topic
           \<and> levels_match (levels f) (levels topic))" (is "?l \<longleftrightarrow> ?r")
proof -
  let ?t = "topic_levels topic" and ?ch = "top_children nodes (hd (topic_levels topic))"
  have wf: "forest_wf ?ch" "list_all hash_last ?ch"
    using assms(1) top_children_keep by (auto simp: filter_tree_def)
  have plain: "\<forall>l \<in> set ?t. plain_level l" using assms(2) by (auto simp: topic_levels_def plain_level_def)
  note visit = visits_iff [OF wf plain]
  have ne: "topic_levels f \<noteq> []" for f by (simp add: topic_levels_def)
  have path: "\<exists>f. q = filter_path f \<and> valid_filter (levels f)" if "subs_at nodes q \<noteq> []" for q
    using that assms(1) by (auto simp: filter_tree_def)
  show ?thesis
  proof
    assume l: ?l
    then obtain f where f: "hd ?t # p = filter_path f" "valid_filter (levels f)" using path by blast
    then have "p = topic_levels f" "hd (topic_levels f) = hd ?t" by (simp_all add: filter_path_def)
    with l visit topic_levels_match [OF f(2), of topic] show ?r
      by (auto simp: filter_path_def)
  next
    assume ?r
    then obtain f where f: "p = topic_levels f" "subs_at nodes (filter_path f) \<noteq> []" "same_dollar f topic"
      "levels_match (levels f) (levels topic)" by blast
    have "valid_filter (levels f)" using path [OF f(2)] filter_path_inj by auto
    from topic_levels_match [OF this, of topic] f
    have m: "hd p = hd ?t" "levels_match p ?t" by auto
    have "node_at nodes (hd ?t # p) \<noteq> None" using f(1,2) m(1) by (auto simp: subs_at_def filter_path_def split: option.splits)
    then have "node_at ?ch p \<noteq> None" using node_at_top [of p nodes] f(1) ne by metis
    then show ?l using visit m f by (auto simp: filter_path_def)
  qed
qed

lemma matching_filters_set:
  assumes "filter_tree nodes" and "\<forall>l \<in> set (levels topic). plain_level l"
  shows "f \<in> set (matching_filters nodes topic)
     \<longleftrightarrow> subs_at nodes (filter_path f) \<noteq> [] \<and> same_dollar f topic \<and> levels_match (levels f) (levels topic)"
    and "distinct (matching_filters nodes topic)"
proof -
  let ?ps = "filter (\<lambda>p. subs_at nodes (hd (topic_levels topic) # p) \<noteq> [])
      (visits (top_children nodes (hd (topic_levels topic))) (topic_levels topic))"
  let ?j = "\<lambda>p. join_levels (if hd p = [] then tl p else p)"
  have ps: "p \<in> set ?ps \<longleftrightarrow> (\<exists>f. p = topic_levels f \<and> subs_at nodes (filter_path f) \<noteq> [] \<and> same_dollar f topic
           \<and> levels_match (levels f) (levels topic))" for p
    using visited_filter [OF assms, of p] by simp
  show "f \<in> set (matching_filters nodes topic)
     \<longleftrightarrow> subs_at nodes (filter_path f) \<noteq> [] \<and> same_dollar f topic \<and> levels_match (levels f) (levels topic)"
    unfolding matching_filters_def set_map image_iff Bex_def ps
    using join_topic_levels by metis
  have "inj_on ?j (set ?ps)"
    by (rule inj_onI) (metis (no_types, lifting) ps join_topic_levels)
  moreover have "distinct ?ps"
    using visits_distinct top_children_keep(1) assms(1) by (auto simp: filter_tree_def)
  ultimately show "distinct (matching_filters nodes topic)" unfolding matching_filters_def distinct_map by blast
qed

lemma foldl_filter_id: "(\<And>a x. \<not> P x \<Longrightarrow> f a x = a) \<Longrightarrow> foldl f a xs = foldl f a (filter P xs)"
  by (induction xs arbitrary: a) auto

lemma queue_loop_filters:
  assumes "filter_tree nodes" and "\<forall>l \<in> set (levels topic). plain_level l"
  shows "queue_loop e db nodes (topic_levels topic) source_id topic qos False stored =
     (foldl (\<lambda>db f. snd (subs_loop e db (subs_at nodes (filter_path f)) source_id topic qos False stored 0)) db
        (matching_filters nodes topic), nodes)"
proof -
  let ?t = "topic_levels topic"
  let ?j = "\<lambda>p. join_levels (if hd p = [] then tl p else p)"
  let ?d = "\<lambda>db p. snd (subs_loop e db (subs_at nodes p) source_id topic qos False stored 0)"
  let ?vs = "visits (top_children nodes (hd ?t)) ?t"
  let ?ps = "filter (\<lambda>p. subs_at nodes (hd ?t # p) \<noteq> []) ?vs"
  have wf: "forest_wf nodes" using assms(1) by (simp add: filter_tree_def)
  have path: "hd ?t # p = filter_path (?j p)" if p: "p \<in> set ?ps" for p
  proof -
    obtain f where "hd ?t # p = filter_path f" using p assms(1) by (auto simp: filter_tree_def)
    moreover from this have "p = topic_levels f" by (simp add: filter_path_def)
    ultimately show ?thesis using join_topic_levels [of f] by (simp only:)
  qed
  have "foldl (\<lambda>db p. ?d db (hd ?t # p)) db ?vs = foldl (\<lambda>db p. ?d db (hd ?t # p)) db ?ps"
    by (rule foldl_filter_id) simp
  also have "\<dots> = foldl (\<lambda>db p. ?d db (filter_path (?j p))) db ?ps"
    by (rule foldl_cong [OF refl refl]) (simp only: path)
  also have "\<dots> = foldl (\<lambda>db f. ?d db (filter_path f)) db (matching_filters nodes topic)"
    by (simp add: matching_filters_def foldl_map)
  finally show ?thesis by (simp add: queue_loop_visits [OF wf])
qed

section \<open>The shape of the tree is kept\<close>

lemma valid_filter_topic_levels: "valid_filter (levels f) \<Longrightarrow> valid_filter (topic_levels f)"
  by (simp add: topic_levels_def plain_level_def)

lemma sub_add_hash:
  "hash_last node \<Longrightarrow> valid_filter (sh_topic node # tokens) \<Longrightarrow> sub_add db c qos path node tokens = (rc, db', node')
   \<Longrightarrow> hash_last node'"
  "list_all hash_last nodes \<Longrightarrow> valid_filter (token # tokens) \<Longrightarrow>
   sub_add_branch db c qos path nodes token tokens = (rc, db', nodes') \<Longrightarrow> list_all hash_last nodes'"
proof (induction db c qos path node tokens and db c qos path nodes token tokens arbitrary: rc db' node' and rc db' nodes'
    rule: sub_add_sub_add_branch.induct)
  case (1 db c qos path t subs children retained parent)
  then show ?case by (auto split: prod.splits)
next
  case (2 db c qos path t subs children retained parent token tokens)
  obtain r db1 ch where b: "sub_add_branch db c qos path children token tokens = (r, db1, ch)" using prod_cases3 by blast
  from "2.IH" [OF _ _ b] "2.prems" b show ?case by (auto simp: plain_level_def)
next
  case (3 db c qos path token tokens)
  obtain r db1 n where b: "sub_add db c qos (path @ [token]) (Subhier token [] [] None True) tokens = (r, db1, n)" using prod_cases3 by blast
  then show ?case using "3.IH" [OF _ _ b] "3.prems" by auto
next
  case (4 db c qos path branch branches token tokens)
  show ?case
  proof (cases "sh_topic branch = token")
    case True
    obtain r db1 n where b: "sub_add db c qos (path @ [token]) branch tokens = (r, db1, n)" using prod_cases3 by blast
    show ?thesis using "4.IH"(1) [OF True _ _ b] "4.prems" b True by auto
  next
    case False
    obtain r db1 bs where b: "sub_add_branch db c qos path branches token tokens = (r, db1, bs)" using prod_cases3 by blast
    show ?thesis using "4.IH"(2) [OF False _ _ b] "4.prems" b False by auto
  qed
qed

lemma sub_add_top_hash:
  "list_all hash_last nodes \<Longrightarrow> valid_filter tokens \<Longrightarrow> plain_level (hd tokens) \<Longrightarrow>
   sub_add_top db c qos nodes tokens = Some (rc, db', nodes') \<Longrightarrow> list_all hash_last nodes'"
proof (induction nodes arbitrary: rc db' nodes')
  case (Cons b bs)
  show ?case
  proof (cases "sh_topic b = hd tokens")
    case True
    obtain r db1 n where s: "sub_add db (Some c) qos [hd tokens] b tokens = (r, db1, n)" using prod_cases3 by blast
    have "hash_last n" by (rule sub_add_hash(1) [OF _ _ s]) (use Cons.prems True in auto)
    then show ?thesis using Cons.prems True s by auto
  next
    case False
    then show ?thesis using Cons by (auto split: option.splits)
  qed
qed simp

lemma sub_remove_hash:
  "hash_last node \<Longrightarrow> sub_remove db c path node tokens = (db', node') \<Longrightarrow> hash_last node'"
  "list_all hash_last nodes \<Longrightarrow> sub_remove_branch db c path nodes token tokens = (db', nodes')
   \<Longrightarrow> list_all hash_last nodes' \<and> (nodes = [] \<longrightarrow> nodes' = [])"
proof (induction db c path node tokens and db c path nodes token tokens arbitrary: db' node' and db' nodes'
    rule: sub_remove_sub_remove_branch.induct)
  case (4 db c path branch branches token tokens)
  show ?case
  proof (cases "sh_topic branch = token")
    case True
    obtain db1 n where b: "sub_remove db c (path @ [token]) branch tokens = (db1, n)" by fastforce
    show ?thesis using "4.IH"(1) [OF True _ b] "4.prems" b True by (auto split: if_splits)
  next
    case False
    obtain db1 bs where b: "sub_remove_branch db c path branches token tokens = (db1, bs)" by fastforce
    show ?thesis using "4.IH"(2) [OF False _ b] "4.prems" b False by auto
  qed
qed (auto split: prod.splits)

lemma sub_remove_top_hash:
  "list_all hash_last nodes \<Longrightarrow> sub_remove_top db c nodes tokens = (db', nodes') \<Longrightarrow> list_all hash_last nodes'"
  by (induction nodes arbitrary: nodes') (auto dest: sub_remove_hash(1) split: prod.splits if_splits)

lemma leaf_remove_empty: "leaf_remove c subs \<noteq> [] \<Longrightarrow> subs \<noteq> []"
  by (auto simp: leaf_remove_def)

lemma plain_hd_topic_levels: "valid_filter (levels f) \<Longrightarrow> plain_level (hd (topic_levels f))"
  using hd_levels [of f] by (cases "levels f") (auto simp: topic_levels_def plain_level_def)

lemma sub_add_filter_tree:
  assumes "filter_tree (db_subs db)" and "nul_free f" and "valid_filter (levels f)"
  shows "filter_tree (db_subs (snd (mqtt3_sub_add db c f qos)))"
proof -
  let ?t = "topic_levels f"
  have wf: "forest_wf (db_subs db)" "list_all hash_last (db_subs db)" using assms(1) by (auto simp: filter_tree_def)
  have t: "valid_filter ?t" "plain_level (hd ?t)"
    using assms(3) valid_filter_topic_levels plain_hd_topic_levels by auto
  obtain r db1 n where b: "sub_add db (Some c) qos [hd ?t] (Subhier (hd ?t) [] [] None True) ?t = (r, db1, n)" using prod_cases3 by blast
  have db1: "db_subs db1 = db_subs db" by (rule clear_subs_eqD(1) [OF sub_add_frame(1) [OF b]])
  have n: "hash_last n" by (rule sub_add_hash(1) [OF _ _ b]) (use t in auto)
  have "list_all hash_last (db_subs (snd (mqtt3_sub_add db c f qos)))"
  proof (cases "sub_add_top db c qos (db_subs db) ?t")
    case None
    then show ?thesis using b db1 n wf(2) by (simp add: mqtt3_sub_add_def Let_def sub_topic_tokenise_eq [OF assms(2)])
  next
    case (Some x)
    obtain r2 db2 ns where x: "x = (r2, db2, ns)" using prod_cases3 by blast
    then show ?thesis using Some sub_add_top_hash [OF wf(2) t]
      by (auto simp: mqtt3_sub_add_def Let_def sub_topic_tokenise_eq [OF assms(2)])
  qed
  then show ?thesis
    using assms(1,3) sub_add_paths [OF wf(1) assms(2), of c qos] by (auto simp: filter_tree_def)
qed

lemma sub_remove_filter_tree:
  assumes "filter_tree (db_subs db)" and "nul_free f"
  shows "filter_tree (db_subs (snd (mqtt3_sub_remove db c f)))"
proof -
  have wf: "forest_wf (db_subs db)" "list_all hash_last (db_subs db)" using assms(1) by (auto simp: filter_tree_def)
  have "list_all hash_last (db_subs (snd (mqtt3_sub_remove db c f)))"
    using sub_remove_top_hash [OF wf(2)] by (auto simp: mqtt3_sub_remove_def split: prod.split)
  then show ?thesis
    using assms(1) sub_remove_paths [OF wf(1) assms(2), of c] by (auto simp: filter_tree_def dest: leaf_remove_empty)
qed

lemma db_open_filter_tree: "filter_tree (db_subs (snd (mqtt3_db_open db)))"
proof -
  have "subs_at (db_subs (snd (mqtt3_db_open db))) p = []" for p
    by (cases p) (auto simp: mqtt3_db_open_def subs_below_def)
  then show ?thesis by (simp add: filter_tree_def) (simp add: mqtt3_db_open_def forest_wf_def)
qed

section \<open>Two subscribers\<close>

definition two_clients :: mosquitto_db where
  "two_clients =
     upd_ctx 1 (\<lambda>m. m\<lparr>ctx_id := Some ''a''\<rparr>) (upd_ctx 2 (\<lambda>m. m\<lparr>ctx_id := Some ''b''\<rparr>) (snd (mqtt3_db_open db_calloc)))"

definition two_subscribers :: mosquitto_db where
  "two_subscribers = snd (mqtt3_sub_add (snd (mqtt3_sub_add two_clients 1 ''s/+/t'' 1)) 2 ''#'' 0)"

lemma two_clients_tree: "filter_tree (db_subs two_clients)"
  using db_open_filter_tree by (simp add: two_clients_def)

lemma two_subscribers_tree: "filter_tree (db_subs two_subscribers)"
  unfolding two_subscribers_def
  by (intro sub_add_filter_tree two_clients_tree) (simp_all add: plain_level_def)

section \<open>Properties\<close>

text \<open>
  C19: Splitting a topic gives its levels, after an empty level when the topic does not start with a
  dollar, so that ordinary and system topics never meet in the tree.  Joining the levels gives the
  topic back: two topics share a node only when they are equal.
\<close>

theorem topic_split_roundtrip:
  assumes "nul_free s"
  shows "sub_topic_tokenise s = (if char_at s 0 = CHR ''$'' then levels s else [] # levels s)
    \<and> join_levels (if hd (sub_topic_tokenise s) = [] then tl (sub_topic_tokenise s) else sub_topic_tokenise s) = s"
  using join_topic_levels [of s] unfolding sub_topic_tokenise_eq [OF assms] by (simp add: topic_levels_def)

theorem topic_split_roundtrip_witness:
  "sub_topic_tokenise ''$SYS/x'' = [''$SYS'', ''x''] \<and> sub_topic_tokenise ''/x'' = [[], [], ''x'']"
  using topic_split_roundtrip [of "''$SYS/x''"] topic_split_roundtrip [of "''/x''"] by simp

text \<open>
  C17: The tree refines the table of filters.  Subscribing with a client identifier appends the
  client to its filter, or changes the quality of service in place when that client is there;
  unsubscribing takes the first entry of the connection out; no other filter changes, and the tree
  keeps its shape.
\<close>

theorem subscriptions_refine_table:
  assumes "filter_tree (db_subs db)" and "nul_free f" and "valid_filter (levels f)"
    and "ctx_id (db_contexts db c) = Some client"
  shows "sub_lookup (snd (mqtt3_sub_add db c f qos)) g =
        (if g \<noteq> f then sub_lookup db g
         else if list_ex (\<lambda>(d, _). ctx_id (db_contexts db d) = Some client) (sub_lookup db f)
         then update_first (\<lambda>(d, _). ctx_id (db_contexts db d) = Some client) (\<lambda>(d, _). (d, qos)) (sub_lookup db f)
         else sub_lookup db f @ [(c, qos)])
    \<and> sub_lookup (snd (mqtt3_sub_remove db c f)) g =
        (if g \<noteq> f then sub_lookup db g
         else case find (\<lambda>(d, _). d = c) (sub_lookup db f) of
                None \<Rightarrow> sub_lookup db f | Some leaf \<Rightarrow> remove1 leaf (sub_lookup db f))
    \<and> filter_tree (db_subs (snd (mqtt3_sub_add db c f qos)))
    \<and> filter_tree (db_subs (snd (mqtt3_sub_remove db c f)))" (is "?add \<and> ?remove \<and> ?t1 \<and> ?t2")
proof (intro conjI)
  have wf: "forest_wf (db_subs db)" using assms(1) by (simp add: filter_tree_def)
  show ?add using sub_add_lookup [OF wf assms(2), of c qos g] assms(4) by (simp add: leaf_add_def Let_def)
  show ?remove using sub_remove_lookup [OF wf assms(2), of c g] by (simp add: leaf_remove_def)
qed (use sub_add_filter_tree sub_remove_filter_tree assms in auto)

theorem subscriptions_refine_table_witness:
  "sub_lookup (snd (mqtt3_sub_add two_clients 1 ''s/+/t'' 1)) ''s/+/t'' = [(1, 1)]
   \<and> sub_lookup (snd (mqtt3_sub_add two_clients 1 ''s/+/t'' 1)) ''s'' = []"
proof -
  have "sub_lookup two_clients f = []" for f
    by (cases "filter_path f") (auto simp: sub_lookup_def two_clients_def mqtt3_db_open_def subs_below_def)
  then show ?thesis
    using subscriptions_refine_table [OF two_clients_tree, of "''s/+/t''" 1 "''a''" 1 "''s/+/t''"]
      subscriptions_refine_table [OF two_clients_tree, of "''s/+/t''" 1 "''a''" 1 "''s''"]
    by (simp add: plain_level_def two_clients_def)
qed



text \<open>
  C16: Publishing a message that is not retained delivers it to the subscribers of every filter that
  matches its topic by the rules of the protocol, each filter once, and to no others; the tree
  stays as it is.  A wildcard filter does not match a topic that starts with a dollar.
\<close>

theorem publish_reaches_matching_filters:
  assumes "filter_tree (db_subs db)" and "nul_free topic" and "\<forall>l \<in> set (levels topic). plain_level l"
  shows "\<exists>fs. distinct fs
    \<and> (\<forall>f. f \<in> set fs \<longleftrightarrow> sub_lookup db f \<noteq> [] \<and> same_dollar f topic \<and> levels_match (levels f) (levels topic))
    \<and> mqtt3_db_messages_queue e db source_id topic qos False stored =
        (MOSQ_ERR_SUCCESS,
         msg_store_deref
           ((foldl (\<lambda>db1 f. snd (subs_loop e db1 (sub_lookup db f) source_id topic qos False stored 0))
               (msg_store_ref db stored) fs)\<lparr>db_subs := db_subs db\<rparr>) stored)"
  using matching_filters_set [OF assms(1,3)] queue_loop_filters [OF assms(1,3)]
  by (intro exI [of _ "matching_filters (db_subs db) topic"])
    (simp add: mqtt3_db_messages_queue_def sub_topic_tokenise_eq [OF assms(2)] sub_lookup_def)

theorem publish_reaches_matching_filters_witness:
  "\<exists>fs. distinct fs \<and> ''s/+/t'' \<in> set fs \<and> ''#'' \<in> set fs
    \<and> mqtt3_db_messages_queue plain_env two_subscribers [] ''s/1/t'' 1 False 0 =
        (MOSQ_ERR_SUCCESS,
         msg_store_deref
           ((foldl (\<lambda>db1 f. snd (subs_loop plain_env db1 (sub_lookup two_subscribers f) [] ''s/1/t'' 1 False 0 0))
               (msg_store_ref two_subscribers 0) fs)\<lparr>db_subs := db_subs two_subscribers\<rparr>) 0)"
proof -
  have "sub_lookup two_subscribers ''s/+/t'' \<noteq> []" "sub_lookup two_subscribers ''#'' \<noteq> []" by code_simp+
  moreover obtain fs where "distinct fs"
    "\<forall>f. f \<in> set fs \<longleftrightarrow> sub_lookup two_subscribers f \<noteq> [] \<and> same_dollar f ''s/1/t'' \<and> levels_match (levels f) (levels ''s/1/t'')"
    "mqtt3_db_messages_queue plain_env two_subscribers [] ''s/1/t'' 1 False 0 =
        (MOSQ_ERR_SUCCESS,
         msg_store_deref
           ((foldl (\<lambda>db1 f. snd (subs_loop plain_env db1 (sub_lookup two_subscribers f) [] ''s/1/t'' 1 False 0 0))
               (msg_store_ref two_subscribers 0) fs)\<lparr>db_subs := db_subs two_subscribers\<rparr>) 0)"
    using publish_reaches_matching_filters [OF two_subscribers_tree, of "''s/1/t''" plain_env "[]" 1 0]
    by (auto simp: plain_level_def)
  ultimately show ?thesis by (intro exI [of _ fs]) (simp add: same_dollar_def)
qed

end
