(* ===== verification/Mosq_Deliver.thy ===== *)
theory Mosq_Deliver
  imports Mosq_Refs Mosq_Route
begin

text \<open>
  Delivery keeps the invariant of the message database: searching the tree, retaining a message,
  adding and removing subscriptions, and sending the retained messages of a new subscription.
\<close>

section \<open>What the operations leave alone\<close>

text \<open>The tables that only the configuration changes, and the contents of the stored messages.\<close>

definition store_content :: "mosquitto_msg_store \<Rightarrow> string option \<times> byte list \<times> int \<times> string \<times> u16" where
  "store_content st = (store_topic st, store_payload st, store_qos st, store_source_id st, store_source_mid st)"

definition db_static where
  "db_static db = (db_acl_list db, db_acl_patterns db, db_unpwd db, db_max_inflight db, db_max_queued db,
     \<lambda>s. store_content (db_stores db s))"

lemma store_content_upd [simp]:
  "store_content (add_ref n st) = store_content st" "store_content (add_dest_id client st) = store_content st"
  by (simp_all add: store_content_def add_ref_def add_dest_id_def)

lemma db_static_upd [simp]:
  "db_static (upd_ctx c f db) = db_static db"
  "(\<And>st. store_content (g st) = store_content st) \<Longrightarrow> db_static (upd_store s g db) = db_static db"
  "db_static (db\<lparr>db_persistence_changes := a\<rparr>) = db_static db" "db_static (db\<lparr>db_msgs_dropped := b\<rparr>) = db_static db"
  "db_static (db\<lparr>db_subs := h\<rparr>) = db_static db" "db_static (db\<lparr>db_retained_count := k\<rparr>) = db_static db"
  "db_static (db\<lparr>db_subscription_count := k\<rparr>) = db_static db" "db_static (db\<lparr>db_aborted := x\<rparr>) = db_static db"
  "db_static (db\<lparr>db_msg_store := y, db_msg_store_count := z\<rparr>) = db_static db"
  by (auto simp: db_static_def fun_eq_iff)

lemma db_static_refs [simp]:
  "db_static (msg_store_ref db s) = db_static db" "db_static (msg_store_deref db s) = db_static db"
  by (simp_all add: msg_store_ref_def msg_store_deref_def msg_store_remove_def Let_def)

text \<open>The tables of connections.\<close>

definition db_tables where
  "db_tables db = (db_contexts_by_id db, db_contexts_by_sock db, db_ll_for_free db, db_client_count db)"

lemma db_tables_upd [simp]:
  "db_tables (upd_ctx c f db) = db_tables db" "db_tables (upd_store s g db) = db_tables db"
  "db_tables (db\<lparr>db_persistence_changes := a\<rparr>) = db_tables db" "db_tables (db\<lparr>db_msgs_dropped := b\<rparr>) = db_tables db"
  "db_tables (db\<lparr>db_subs := h\<rparr>) = db_tables db" "db_tables (db\<lparr>db_retained_count := k\<rparr>) = db_tables db"
  "db_tables (db\<lparr>db_subscription_count := k\<rparr>) = db_tables db" "db_tables (db\<lparr>db_aborted := x\<rparr>) = db_tables db"
  "db_tables (db\<lparr>db_msg_store := y, db_msg_store_count := z\<rparr>) = db_tables db"
  by (simp_all add: db_tables_def)

lemma db_tables_refs [simp]:
  "db_tables (msg_store_ref db s) = db_tables db" "db_tables (msg_store_deref db s) = db_tables db"
  by (simp_all add: msg_store_ref_def msg_store_deref_def msg_store_remove_def Let_def)

lemma enqueue_msg_static [simp]: "db_static (enqueue_msg e db c client msg) = db_static db"
  by (simp add: enqueue_msg_def Let_def)

lemma message_insert_static [simp]:
  "db_static (snd (mqtt3_db_message_insert e db c mid dir qos retain stored)) = db_static db"
  by (simp add: mqtt3_db_message_insert_def Let_def split: option.split insert_decision.split)

lemma gen_mid_static: "gen_mid c qos db = (mid, db') \<Longrightarrow> db_static db' = db_static db"
  by (auto simp: gen_mid_def split: prod.splits if_splits)

lemma subs_deliver_static [simp]: "db_static (snd (subs_deliver e db c cq qos retain stored)) = db_static db"
  by (auto simp: subs_deliver_def Let_def split: prod.split dest: gen_mid_static)

definition patterns_wf :: "mosquitto_db \<Rightarrow> bool" where
  "patterns_wf db \<longleftrightarrow> (\<forall>acl \<in> set (db_acl_patterns db). acl_pattern_wf acl)"

lemma patterns_wf_static: "db_static db' = db_static db \<Longrightarrow> patterns_wf db' = patterns_wf db"
  by (simp add: db_static_def patterns_wf_def)

lemma acl_pattern_loop_total:
  "\<forall>acl \<in> set acls. acl_pattern_wf acl \<Longrightarrow> acl_pattern_loop e acls client u topic access \<noteq> None"
  by (induction acls) (auto simp: acl_expand_subst split: if_splits)

lemma acl_check_total:
  assumes "patterns_wf db"
  shows "mosquitto_acl_check e db m topic access \<noteq> None"
  using acl_pattern_loop_total assms
  by (auto simp: mosquitto_acl_check_def mosquitto_acl_check_default_def patterns_wf_def Let_def split: option.splits)

section \<open>Delivering\<close>

text \<open>The granted QoS values in the tree.\<close>

definition leaves_ok :: "(ctxid \<times> int) list \<Rightarrow> bool" where
  "leaves_ok subs \<longleftrightarrow> (\<forall>(c, q) \<in> set subs. q \<in> {0, 1, 2})"

fun tree_ok :: "subhier \<Rightarrow> bool" where
  "tree_ok (Subhier topic subs children retained parent) \<longleftrightarrow> leaves_ok subs \<and> list_all tree_ok children"

lemma tree_ok_node: "tree_ok node \<longleftrightarrow> leaves_ok (sh_subs node) \<and> list_all tree_ok (sh_children node)"
  by (cases node) simp

abbreviation forest_refs :: "subhier list \<Rightarrow> storeid multiset" where
  "forest_refs nodes \<equiv> sum_list (map tree_refs nodes)"

definition opt_refs :: "storeid option \<Rightarrow> storeid multiset" where
  "opt_refs r = (case r of None \<Rightarrow> {#} | Some s \<Rightarrow> {#s#})"

lemma tree_refs_node: "tree_refs node = opt_refs (sh_retained node) + forest_refs (sh_children node)"
  by (cases node) (simp add: opt_refs_def)

lemma db_inv_aborted: "db_inv E db \<Longrightarrow> \<not> db_aborted db"
  by (simp add: db_inv_def store_inv_def)

lemma gen_mid_inv: "db_inv E db \<Longrightarrow> db_inv E (snd (gen_mid c qos db))"
  by (auto simp: gen_mid_def mosquitto_mid_generate_def Let_def intro!: db_inv_same)

lemma subs_deliver_inv:
  assumes "db_inv E db" and "stored \<in># E" and "qos \<in> {0, 1, 2}" and "client_qos \<in> {0, 1, 2}"
  shows "db_inv E (snd (subs_deliver e db c client_qos qos retain stored))"
proof -
  let ?q = "if cfg_upgrade_outgoing_qos (env_config e) then client_qos else if qos > client_qos then client_qos else qos"
  obtain mid db' where g: "gen_mid c ?q db = (mid, db')" by fastforce
  have inv: "db_inv E db'" using gen_mid_inv [OF assms(1), of c ?q] g by simp
  have "db_inv E (snd (mqtt3_db_message_insert e db' c mid mosq_md_out ?q r stored))" for r
    by (rule message_insert_inv [OF inv db_inv_live [OF inv assms(2)]]) (use assms(3,4) in auto)
  then show ?thesis using g by (simp add: subs_deliver_def Let_def)
qed

lemma subs_loop_inv:
  "db_inv E db \<Longrightarrow> stored \<in># E \<Longrightarrow> qos \<in> {0, 1, 2} \<Longrightarrow> leaves_ok leaves \<Longrightarrow> patterns_wf db
   \<Longrightarrow> db_inv E (snd (subs_loop e db leaves source_id topic qos retain stored rc))
      \<and> db_static (snd (subs_loop e db leaves source_id topic qos retain stored rc)) = db_static db"
proof (induction e db leaves source_id topic qos retain stored rc rule: subs_loop.induct)
  case (2 e db c q leaves source_id topic qos retain stored rc)
  obtain r db' where d: "subs_deliver e db c q qos retain stored = (r, db')" by fastforce
  have q: "q \<in> {0, 1, 2}" "leaves_ok leaves" using "2.prems"(4) by (auto simp: leaves_ok_def)
  have inv': "db_inv E db'" using subs_deliver_inv [OF "2.prems"(1-3) q(1), of e c retain] d by simp
  have st: "db_static db' = db_static db" using subs_deliver_static [of e db c q qos retain stored] d by simp
  obtain rc2 where acl: "mosquitto_acl_check e db (db_contexts db c) topic MOSQ_ACL_READ = Some rc2"
    using acl_check_total [OF "2.prems"(5)] by blast
  have wf': "patterns_wf db'" using "2.prems"(5) patterns_wf_static [OF st] by simp
  note IH = "2.IH"(1) [OF refl _ "2.prems"(1-3) q(2) "2.prems"(5)]
    "2.IH"(2) [OF refl _ acl _ "2.prems"(1-3) q(2) "2.prems"(5)]
    "2.IH"(3) [OF refl _ acl _ _ d [symmetric] inv' "2.prems"(2,3) q(2) wf']
  show ?case using IH "2.prems"(1) acl d st by (simp add: Let_def)
qed simp

lemma subs_retain_inv:
  assumes "db_inv (opt_refs retained + E) db" and "stored \<in># E" and "subs_retain db retained topic stored = (db', retained')"
  shows "db_inv (opt_refs retained' + E) db'" and "db_static db' = db_static db"
proof -
  define db1 where "db1 = (if take 4 topic \<noteq> ''$SYS'' then db\<lparr>db_persistence_changes := db_persistence_changes db + 1\<rparr> else db)"
  define db2 where "db2 = (case retained of None \<Rightarrow> db1
    | Some r \<Rightarrow> (msg_store_deref db1 r)\<lparr>db_retained_count := db_retained_count db1 - 1\<rparr>)"
  have db1: "db_inv (opt_refs retained + E) db1" using assms(1) by (simp add: db1_def)
  then have db2: "db_inv E db2" by (auto simp: db2_def opt_refs_def db_inv_deref split: option.splits)
  have new: "db_inv (add_mset stored E) (msg_store_ref db2 stored)"
    by (rule db_inv_ref [OF db2 db_inv_live [OF db2 assms(2)]])
  have eq: "subs_retain db retained topic stored = (if store_payload (db_stores db2 stored) \<noteq> []
      then ((msg_store_ref db2 stored)\<lparr>db_retained_count := db_retained_count db2 + 1\<rparr>, Some stored) else (db2, None))"
    by (simp only: subs_retain_def Let_def db2_def db1_def)
  then show "db_inv (opt_refs retained' + E) db'" using assms(3) new db2
    by (auto simp: opt_refs_def split: if_splits)
  have "db_static db2 = db_static db" by (simp add: db2_def db1_def split: option.split)
  then show "db_static db' = db_static db" using assms(3) eq by (auto split: if_splits)
qed

lemma subs_process_inv:
  assumes "db_inv (tree_refs hier + E) db" and "stored \<in># E" and "qos \<in> {0, 1, 2}" and "tree_ok hier" and "patterns_wf db"
    and "subs_process e db hier source_id topic qos retain stored sr = (rc, db', hier')"
  shows "db_inv (tree_refs hier' + E) db'" and "db_static db' = db_static db" and "tree_ok hier'"
proof -
  let ?F = "forest_refs (sh_children hier) + E"
  obtain db1 r where s: "(if retain \<and> sr then subs_retain db (sh_retained hier) topic stored else (db, sh_retained hier)) = (db1, r)"
    by fastforce
  have inv: "db_inv (opt_refs (sh_retained hier) + ?F) db" using assms(1) by (simp add: tree_refs_node ac_simps)
  have db1: "db_inv (opt_refs r + ?F) db1" "db_static db1 = db_static db"
    using s inv assms(2) subs_retain_inv [OF inv, of stored topic db1 r] by (auto split: if_splits)
  obtain rc' db2 where l: "subs_loop e db1 (sh_subs hier) source_id topic qos retain stored 0 = (rc', db2)" by fastforce
  have "patterns_wf db1" using assms(5) patterns_wf_static [OF db1(2)] by simp
  moreover have "leaves_ok (sh_subs hier)" using assms(4) by (simp add: tree_ok_node)
  ultimately have db2: "db_inv (opt_refs r + ?F) db2" "db_static db2 = db_static db1"
    using subs_loop_inv [OF db1(1), of stored qos "sh_subs hier" e source_id topic retain 0] assms(2,3) l by auto
  have res: "db' = db2" "hier' = Subhier (sh_topic hier) (sh_subs hier) (sh_children hier) r (sh_has_parent hier)"
    using assms(6) s l by (auto simp: subs_process_def)
  show "db_inv (tree_refs hier' + E) db'" using db2 res by (simp add: opt_refs_def ac_simps)
  show "db_static db' = db_static db" using db1 db2 res by simp
  show "tree_ok hier'" using assms(4) res by (simp add: tree_ok_node)
qed

section \<open>Searching the tree\<close>

text \<open>What the search does with one child.\<close>

definition search_branch :: "mosq_env \<Rightarrow> mosquitto_db \<Rightarrow> subhier \<Rightarrow> string list \<Rightarrow> string \<Rightarrow> string \<Rightarrow> int \<Rightarrow> bool
    \<Rightarrow> storeid \<Rightarrow> bool \<Rightarrow> mosquitto_db \<times> subhier" where
  "search_branch e db b tokens source_id topic qos retain stored set_retain =
     (if tokens \<noteq> [] \<and> (sh_topic b = hd tokens \<or> sh_topic b = ''+'')
      then let sr = (if sh_topic b = ''+'' then False else set_retain);
               (db, children) = sub_search e db (sh_children b) (tl tokens) source_id topic qos retain stored sr;
               branch = set_children children b
           in if tl tokens = []
              then case subs_process e db branch source_id topic qos retain stored sr of (_, db, branch) \<Rightarrow> (db, branch)
              else (db, branch)
      else if sh_topic b = ''#'' \<and> sh_children b = []
      then case subs_process e db b source_id topic qos retain stored False of (_, db, branch) \<Rightarrow> (db, branch)
      else (db, b))"

lemma sub_search_Cons:
  "sub_search e db (b # bs) tokens source_id topic qos retain stored set_retain =
     (case search_branch e db b tokens source_id topic qos retain stored set_retain of
        (db, b) \<Rightarrow> (case sub_search e db bs tokens source_id topic qos retain stored set_retain of
          (db, bs) \<Rightarrow> (db, b # bs)))"
  by (cases b) (simp add: search_branch_def set_children_def Let_def split: prod.split)

lemma tree_refs_set_children: "tree_refs (set_children ch b) = opt_refs (sh_retained b) + forest_refs ch"
  by (simp add: set_children_def opt_refs_def)

lemma tree_ok_set_children: "tree_ok (set_children ch b) \<longleftrightarrow> leaves_ok (sh_subs b) \<and> list_all tree_ok ch"
  by (simp add: set_children_def)

definition keeps_inv :: "storeid multiset \<Rightarrow> mosquitto_db \<Rightarrow> mosquitto_db \<times> subhier list \<Rightarrow> bool" where
  "keeps_inv E db r \<longleftrightarrow> db_inv (forest_refs (snd r) + E) (fst r) \<and> db_static (fst r) = db_static db \<and> list_all tree_ok (snd r)"

lemma search_branch_inv:
  assumes ch: "\<And>tokens E db sr. db_inv (forest_refs (sh_children b) + E) db \<Longrightarrow> stored \<in># E \<Longrightarrow> list_all tree_ok (sh_children b)
      \<Longrightarrow> patterns_wf db \<Longrightarrow> keeps_inv E db (sub_search e db (sh_children b) tokens source_id topic qos retain stored sr)"
    and qos: "qos \<in> {0, 1, 2}" and inv: "db_inv (tree_refs b + E) db" and s: "stored \<in># E" and ok: "tree_ok b" and wf: "patterns_wf db"
    and r: "search_branch e db b tokens source_id topic qos retain stored set_retain = (db', b')"
  shows "db_inv (tree_refs b' + E) db' \<and> db_static db' = db_static db \<and> tree_ok b'"
proof -
  let ?sr = "if sh_topic b = ''+'' then False else set_retain"
  obtain db1 ch where c: "sub_search e db (sh_children b) (tl tokens) source_id topic qos retain stored ?sr = (db1, ch)" by fastforce
  have okc: "list_all tree_ok (sh_children b)" "leaves_ok (sh_subs b)" using ok by (simp_all add: tree_ok_node)
  have "db_inv (forest_refs (sh_children b) + (opt_refs (sh_retained b) + E)) db" using inv by (simp add: tree_refs_node ac_simps)
  from ch [OF this _ okc(1) wf, of "tl tokens" ?sr] s
  have k: "db_inv (forest_refs ch + (opt_refs (sh_retained b) + E)) db1" "db_static db1 = db_static db" "list_all tree_ok ch"
    using c by (auto simp: keeps_inv_def)
  have inv1: "db_inv (tree_refs (set_children ch b) + E) db1" using k(1) by (simp add: tree_refs_set_children ac_simps)
  have ok1: "tree_ok (set_children ch b)" using okc(2) k(3) by (simp add: tree_ok_set_children)
  have wf1: "patterns_wf db1" using wf patterns_wf_static [OF k(2)] by simp
  note process = subs_process_inv [OF inv1 s qos ok1 wf1] subs_process_inv [OF inv s qos ok wf]
  show ?thesis using r c k inv1 ok1 inv ok process
    by (auto simp: search_branch_def Let_def split: if_splits prod.splits)
qed

lemma sub_search_inv:
  assumes "qos \<in> {0, 1, 2}"
  shows "db_inv (forest_refs nodes + E) db \<Longrightarrow> stored \<in># E \<Longrightarrow> list_all tree_ok nodes \<Longrightarrow> patterns_wf db \<Longrightarrow>
   keeps_inv E db (sub_search e db nodes tokens source_id topic qos retain stored sr)"
proof (induction nodes arbitrary: tokens E db sr rule: forest_induct)
  case Nil
  then show ?case by (simp add: keeps_inv_def)
next
  case (Cons b bs)
  obtain db1 b' where b: "search_branch e db b tokens source_id topic qos retain stored sr = (db1, b')" by fastforce
  have inv: "db_inv (tree_refs b + (forest_refs bs + E)) db" using Cons.prems(1) by (simp add: ac_simps)
  have s: "stored \<in># forest_refs bs + E" using Cons.prems(2) by simp
  have "db_inv (tree_refs b' + (forest_refs bs + E)) db1 \<and> db_static db1 = db_static db \<and> tree_ok b'"
    by (rule search_branch_inv [OF Cons.IH(1) assms inv s _ Cons.prems(4) b]) (use Cons.prems in simp_all)
  then have k: "db_inv (forest_refs bs + (tree_refs b' + E)) db1" "db_static db1 = db_static db" "tree_ok b'" "patterns_wf db1"
    using Cons.prems(4) patterns_wf_static [of db1 db] by (simp_all add: ac_simps)
  have "keeps_inv (tree_refs b' + E) db1 (sub_search e db1 bs tokens source_id topic qos retain stored sr)"
    by (rule Cons.IH(2)) (use k Cons.prems in simp_all)
  then show ?case using b k by (auto simp: keeps_inv_def sub_search_Cons ac_simps split: prod.split)
qed

section \<open>Changing subscriptions\<close>

lemma clear_subs_inv: "db_inv E (clear_subs db) = db_inv E db"
  by (simp add: db_inv_def store_inv_def all_queue_refs_def busy_def queue_refs_def queue_wf_def queue_ok_def clear_subs_def)

lemma clear_subs_static: "db_static (clear_subs db) = db_static db"
  by (simp add: db_static_def clear_subs_def)

lemma clear_subs_keeps:
  assumes "clear_subs db' = clear_subs db"
  shows "db_inv E db' = db_inv E db" and "db_static db' = db_static db"
proof -
  show "db_inv E db' = db_inv E db" using assms clear_subs_inv by metis
  show "db_static db' = db_static db" using assms clear_subs_static by metis
qed

lemma leaves_ok_update:
  assumes "leaves_ok subs" and "qos \<in> {0, 1, 2}"
  shows "leaves_ok (update_first P (\<lambda>(d, _). (d, qos)) subs)"
  using assms by (induction subs) (auto simp: leaves_ok_def)

lemma leaves_ok_snoc: "leaves_ok (subs @ [(c, q)]) \<longleftrightarrow> leaves_ok subs \<and> q \<in> {0, 1, 2}"
  by (auto simp: leaves_ok_def)

lemma sub_add_leaf_keeps:
  assumes "sub_add_leaf db c qos path subs = (rc, db', subs')" and "leaves_ok subs" and "qos \<in> {0, 1, 2}"
  shows "clear_subs db' = clear_subs db \<and> leaves_ok subs'"
  using assms(1,2) leaves_ok_update [OF assms(2,3)] leaves_ok_snoc [of subs _ qos] assms(3)
  by (auto simp: sub_add_leaf_def Let_def simp del: insert_iff split: option.splits if_splits)

lemma sub_add_keeps:
  "qos \<in> {0, 1, 2} \<Longrightarrow> tree_ok node \<Longrightarrow> sub_add db c qos path node tokens = (rc, db', node')
   \<Longrightarrow> clear_subs db' = clear_subs db \<and> tree_ok node' \<and> tree_refs node' = tree_refs node"
  "qos \<in> {0, 1, 2} \<Longrightarrow> list_all tree_ok nodes \<Longrightarrow> sub_add_branch db c qos path nodes token tokens = (rc, db', nodes')
   \<Longrightarrow> clear_subs db' = clear_subs db \<and> list_all tree_ok nodes' \<and> forest_refs nodes' = forest_refs nodes"
proof (induction db c qos path node tokens and db c qos path nodes token tokens arbitrary: rc db' node' and rc db' nodes'
    rule: sub_add_sub_add_branch.induct)
  case (1 db c qos path t subs children retained parent)
  then show ?case using sub_add_leaf_keeps by (fastforce split: prod.splits)
next
  case (2 db c qos path t subs children retained parent token tokens)
  then show ?case by (fastforce split: prod.splits)
next
  case (3 db c qos path token tokens)
  then show ?case by (fastforce simp: leaves_ok_def split: prod.splits)
next
  case (4 db c qos path branch branches token tokens)
  show ?case
  proof (cases "sh_topic branch = token")
    case True
    obtain r db1 b where b: "sub_add db c qos (path @ [token]) branch tokens = (r, db1, b)" using prod_cases3 by blast
    then show ?thesis using "4.IH"(1) [OF True _ _ b] "4.prems" True by auto
  next
    case False
    obtain r db1 bs where b: "sub_add_branch db c qos path branches token tokens = (r, db1, bs)" using prod_cases3 by blast
    then show ?thesis using "4.IH"(2) [OF False _ _ b] "4.prems" False by auto
  qed
qed

lemma sub_remove_leaf_keeps:
  assumes "sub_remove_leaf db c path subs = (db', subs')" and "leaves_ok subs"
  shows "clear_subs db' = clear_subs db \<and> leaves_ok subs'"
  using assms by (auto simp: sub_remove_leaf_def leaves_ok_def dest: notin_set_remove1 split: option.splits)

lemma sh_unused_refs: "sh_unused node \<Longrightarrow> tree_refs node = {#}"
  by (simp add: sh_unused_def tree_refs_node opt_refs_def)

lemma sub_remove_keeps:
  "tree_ok node \<Longrightarrow> sub_remove db c path node tokens = (db', node')
   \<Longrightarrow> clear_subs db' = clear_subs db \<and> tree_ok node' \<and> tree_refs node' = tree_refs node"
  "list_all tree_ok nodes \<Longrightarrow> sub_remove_branch db c path nodes token tokens = (db', nodes')
   \<Longrightarrow> clear_subs db' = clear_subs db \<and> list_all tree_ok nodes' \<and> forest_refs nodes' = forest_refs nodes"
proof (induction db c path node tokens and db c path nodes token tokens arbitrary: db' node' and db' nodes'
    rule: sub_remove_sub_remove_branch.induct)
  case (1 db c path t subs children retained parent)
  then show ?case using sub_remove_leaf_keeps by (fastforce split: prod.splits)
next
  case (2 db c path t subs children retained parent token tokens)
  then show ?case by (fastforce split: prod.splits)
next
  case (4 db c path branch branches token tokens)
  show ?case
  proof (cases "sh_topic branch = token")
    case True
    obtain db1 b where b: "sub_remove db c (path @ [token]) branch tokens = (db1, b)" by fastforce
    from "4.IH"(1) [OF True _ b] "4.prems"
    have "clear_subs db1 = clear_subs db \<and> tree_ok b \<and> tree_refs b = tree_refs branch" by simp
    then show ?thesis using "4.prems" True b sh_unused_refs [of b] by (auto split: if_splits)
  next
    case False
    obtain db1 bs where b: "sub_remove_branch db c path branches token tokens = (db1, bs)" by fastforce
    then show ?thesis using "4.IH"(2) [OF False _ b] "4.prems" False by auto
  qed
qed simp

section \<open>Queueing for the subscribers\<close>

text \<open>One top node in \<open>mqtt3_db_messages_queue\<close>.\<close>

definition queue_top :: "mosq_env \<Rightarrow> mosquitto_db \<Rightarrow> subhier \<Rightarrow> string list \<Rightarrow> string \<Rightarrow> string \<Rightarrow> int \<Rightarrow> bool
    \<Rightarrow> storeid \<Rightarrow> mosquitto_db \<times> subhier" where
  "queue_top e db b tokens source_id topic qos retain stored =
     (if sh_topic b = hd tokens
      then let (db, b) =
                 (if retain then case sub_add db None 0 [hd tokens] b tokens of (_, db, b) \<Rightarrow> (db, b) else (db, b));
               (db, children) = sub_search e db (sh_children b) tokens source_id topic qos retain stored True
           in (db, set_children children b)
      else (db, b))"

lemma queue_loop_Cons:
  "queue_loop e db (b # bs) tokens source_id topic qos retain stored =
     (case queue_top e db b tokens source_id topic qos retain stored of
        (db, b) \<Rightarrow> (case queue_loop e db bs tokens source_id topic qos retain stored of (db, bs) \<Rightarrow> (db, b # bs)))"
  by (simp add: queue_top_def set_children_def Let_def split: prod.split)

lemma queue_top_inv:
  assumes "qos \<in> {0, 1, 2}" and "db_inv (tree_refs b + E) db" and "stored \<in># E" and "tree_ok b" and "patterns_wf db"
    and "queue_top e db b tokens source_id topic qos retain stored = (db', b')"
  shows "db_inv (tree_refs b' + E) db' \<and> db_static db' = db_static db \<and> tree_ok b'"
proof -
  obtain db1 b1 where a: "(if retain then case sub_add db None 0 [hd tokens] b tokens of (_, db, b) \<Rightarrow> (db, b) else (db, b)) = (db1, b1)"
    by fastforce
  then have k: "clear_subs db1 = clear_subs db" "tree_ok b1" "tree_refs b1 = tree_refs b"
    using sub_add_keeps(1) [of 0 b db None "[hd tokens]" tokens] assms(4) by (auto split: if_splits prod.splits)
  obtain db2 ch where c: "sub_search e db1 (sh_children b1) tokens source_id topic qos retain stored True = (db2, ch)" by fastforce
  have inv1: "db_inv (forest_refs (sh_children b1) + (opt_refs (sh_retained b1) + E)) db1"
    using assms(2) clear_subs_keeps(1) [OF k(1)] k(3) by (simp add: tree_refs_node ac_simps)
  have wf1: "patterns_wf db1" using assms(5) patterns_wf_static [OF clear_subs_keeps(2) [OF k(1)]] by simp
  have "keeps_inv (opt_refs (sh_retained b1) + E) db1 (db2, ch)"
    unfolding c [symmetric] by (rule sub_search_inv [OF assms(1) inv1 _ _ wf1]) (use assms(3) k(2) in \<open>simp_all add: tree_ok_node\<close>)
  then have "db_inv (tree_refs (set_children ch b1) + E) db2" "db_static db2 = db_static db" "tree_ok (set_children ch b1)"
    using iffD1 [OF tree_ok_node k(2)] clear_subs_keeps(2) [OF k(1)]
    by (simp_all add: keeps_inv_def tree_refs_set_children tree_ok_set_children ac_simps)
  then show ?thesis using assms(2,4,6) a c by (auto simp: queue_top_def Let_def split: if_splits prod.splits)
qed

lemma queue_loop_inv:
  assumes "qos \<in> {0, 1, 2}"
  shows "db_inv (forest_refs nodes + E) db \<Longrightarrow> stored \<in># E \<Longrightarrow> list_all tree_ok nodes \<Longrightarrow> patterns_wf db \<Longrightarrow>
   keeps_inv E db (queue_loop e db nodes tokens source_id topic qos retain stored)"
proof (induction nodes arbitrary: E db)
  case (Cons b bs)
  obtain db1 b' where b: "queue_top e db b tokens source_id topic qos retain stored = (db1, b')" by fastforce
  have "db_inv (tree_refs b' + (forest_refs bs + E)) db1 \<and> db_static db1 = db_static db \<and> tree_ok b'"
    by (rule queue_top_inv [OF assms _ _ _ Cons.prems(4) b]) (use Cons.prems in \<open>simp_all add: ac_simps\<close>)
  then have k: "db_inv (forest_refs bs + (tree_refs b' + E)) db1" "db_static db1 = db_static db" "tree_ok b'" "patterns_wf db1"
    using Cons.prems(4) patterns_wf_static [of db1 db] by (simp_all add: ac_simps)
  have "keeps_inv (tree_refs b' + E) db1 (queue_loop e db1 bs tokens source_id topic qos retain stored)"
    by (rule Cons.IH) (use k Cons.prems in simp_all)
  then show ?case using b k by (auto simp: keeps_inv_def queue_loop_Cons ac_simps split: prod.split simp del: queue_loop.simps)
qed (simp add: keeps_inv_def)

lemma static_store:
  assumes "db_static db' = db_static db"
  shows "store_content (db_stores db' s) = store_content (db_stores db s)"
proof -
  have "(\<lambda>s. store_content (db_stores db' s)) = (\<lambda>s. store_content (db_stores db s))" using assms by (simp add: db_static_def)
  then show ?thesis by (rule fun_cong)
qed

lemma subs_process_refs:
  assumes "subs_process e db hier source_id topic qos retain stored sr = (rc, db', hier')"
  shows "set_mset (tree_refs hier') \<subseteq> insert stored (set_mset (tree_refs hier))"
proof -
  obtain t subs children retained parent where h: "hier = Subhier t subs children retained parent" by (cases hier)
  obtain db1 r1 where r: "(if retain \<and> sr then subs_retain db retained topic stored else (db, retained)) = (db1, r1)" by (rule prod.exhaust)
  have "set_mset (opt_refs r1) \<subseteq> insert stored (set_mset (opt_refs retained))"
    using r by (auto simp: subs_retain_def opt_refs_def Let_def split: if_splits)
  moreover have "hier' = Subhier t subs children r1 parent"
    using assms unfolding subs_process_def h subhier.sel r by (simp split: prod.splits)
  ultimately show ?thesis by (auto simp: h opt_refs_def)
qed

lemma search_branch_refs:
  assumes ch: "\<And>tokens db sr. set_mset (forest_refs (snd (sub_search e db (sh_children b) tokens source_id topic qos retain stored sr)))
      \<subseteq> insert stored (set_mset (forest_refs (sh_children b)))"
    and r: "search_branch e db b tokens source_id topic qos retain stored set_retain = (db', b')"
  shows "set_mset (tree_refs b') \<subseteq> insert stored (set_mset (tree_refs b))"
proof -
  have sc: "set_mset (tree_refs (set_children (snd (sub_search e db (sh_children b) tokens source_id topic qos retain stored sr)) b))
      \<subseteq> insert stored (set_mset (tree_refs b))" for db tokens sr
    using ch [of db tokens sr] tree_refs_node [of b] by (auto simp: tree_refs_set_children)
  show ?thesis using r sc subs_process_refs
    by (auto simp: search_branch_def Let_def split_beta prod_eq_iff split: if_splits) (metis (no_types, lifting) insert_iff subset_iff)+
qed

lemma sub_search_refs:
  "set_mset (forest_refs (snd (sub_search e db nodes tokens source_id topic qos retain stored sr)))
     \<subseteq> insert stored (set_mset (forest_refs nodes))"
proof (induction nodes arbitrary: db tokens sr rule: forest_induct)
  case (Cons b bs)
  obtain db1 b1 where b: "search_branch e db b tokens source_id topic qos retain stored sr = (db1, b1)" by (rule prod.exhaust)
  show ?case using search_branch_refs [OF Cons.IH(1) b] Cons.IH(2) [of db1 tokens sr] b
    by (auto simp: sub_search_Cons split_beta)
qed simp

lemma queue_loop_refs:
  "list_all tree_ok nodes \<Longrightarrow>
   set_mset (forest_refs (snd (queue_loop e db nodes tokens source_id topic qos retain stored)))
     \<subseteq> insert stored (set_mset (forest_refs nodes))"
proof (induction nodes arbitrary: db)
  case (Cons b bs)
  obtain db1 b1 where b: "queue_top e db b tokens source_id topic qos retain stored = (db1, b1)" by (rule prod.exhaust)
  obtain r db2 b2 where a: "sub_add db None 0 [hd tokens] b tokens = (r, db2, b2)" using prod_cases3 by blast
  have ok: "tree_ok b" using Cons.prems by simp
  have b2: "tree_refs b2 = tree_refs b" using sub_add_keeps(1) [OF _ ok a] by simp
  have "set_mset (tree_refs (set_children (snd (sub_search e d (sh_children c) tokens source_id topic qos retain stored True)) c))
      \<subseteq> insert stored (set_mset (tree_refs c))" for c d
    using sub_search_refs [of e d "sh_children c" tokens source_id topic qos retain stored True] tree_refs_node [of c]
    by (auto simp: tree_refs_set_children)
  from this [of _ b] this [of _ b2] have "set_mset (tree_refs b1) \<subseteq> insert stored (set_mset (tree_refs b))"
    using b a unfolding queue_top_def b2 by (auto simp: Let_def split_beta split: if_splits)
  then show ?case using Cons.IH [of db1] Cons.prems b by (auto simp: queue_loop_Cons split_beta simp del: queue_loop.simps)
qed simp

section \<open>The invariant of the database\<close>

definition stores_ok :: "mosquitto_db \<Rightarrow> bool" where
  "stores_ok db \<longleftrightarrow> (\<forall>s. store_qos (db_stores db s) \<in> {0, 1, 2})"

lemma stores_ok_static: "db_static db' = db_static db \<Longrightarrow> stores_ok db' = stores_ok db"
  using static_store [of db' db] by (simp add: stores_ok_def store_content_def)

text \<open>The messages that a tree retains have a topic.\<close>

definition retained_ok :: "mosquitto_db \<Rightarrow> subhier list \<Rightarrow> bool" where
  "retained_ok db nodes \<longleftrightarrow> (\<forall>s \<in># forest_refs nodes. store_topic (db_stores db s) \<noteq> None)"

lemma retained_ok_static: "db_static db' = db_static db \<Longrightarrow> retained_ok db' nodes = retained_ok db nodes"
  using static_store [of db' db] by (simp add: retained_ok_def store_content_def)

text \<open>\<open>E\<close> are the references in local variables.\<close>

definition broker_inv :: "storeid multiset \<Rightarrow> mosquitto_db \<Rightarrow> bool" where
  "broker_inv E db \<longleftrightarrow> db_inv (forest_refs (db_subs db) + E) db \<and> list_all tree_ok (db_subs db)
     \<and> patterns_wf db \<and> stores_ok db \<and> retained_ok db (db_subs db)"

lemma broker_inv_same_tree:
  assumes "broker_inv E db" and "db_inv (forest_refs (db_subs db) + E) db'" and "db_subs db' = db_subs db"
    and "db_static db' = db_static db"
  shows "broker_inv E db'"
  using assms patterns_wf_static [OF assms(4)] stores_ok_static [OF assms(4)] retained_ok_static [OF assms(4)]
  by (simp add: broker_inv_def)

lemma messages_queue_inv:
  assumes "broker_inv E db" and "stored \<in> live_stores db" and "qos \<in> {0, 1, 2}"
    and "store_topic (db_stores db stored) \<noteq> None"
  shows "broker_inv E (snd (mqtt3_db_messages_queue e db source_id topic qos retain stored))"
proof -
  let ?db = "msg_store_ref db stored"
  obtain db1 nodes where q: "queue_loop e ?db (db_subs db) (sub_topic_tokenise topic) source_id topic qos retain stored = (db1, nodes)"
    by fastforce
  have inv: "db_inv (forest_refs (db_subs db) + add_mset stored E) ?db"
    using db_inv_ref [of "forest_refs (db_subs db) + E" db stored] assms(1,2) by (simp add: broker_inv_def)
  have "keeps_inv (add_mset stored E) ?db (db1, nodes)"
    unfolding q [symmetric]
    by (rule queue_loop_inv [OF assms(3) inv])
      (use assms(1) patterns_wf_static [of ?db db] in \<open>simp_all add: broker_inv_def\<close>)
  then have k: "db_inv (add_mset stored (forest_refs nodes + E)) db1" "db_static db1 = db_static db" "list_all tree_ok nodes"
    by (simp_all add: keeps_inv_def)
  have "db_inv (forest_refs nodes + E) (msg_store_deref (db1\<lparr>db_subs := nodes\<rparr>) stored)"
    by (rule db_inv_deref) (use k in simp)
  moreover have "retained_ok db nodes"
    using queue_loop_refs [of "db_subs db" e ?db "sub_topic_tokenise topic" source_id topic qos retain stored] q assms(1,4)
    by (auto simp: broker_inv_def retained_ok_def)
  moreover define db2 where "db2 = msg_store_deref (db1\<lparr>db_subs := nodes\<rparr>) stored"
  moreover have "db_static db2 = db_static db" "db_subs db2 = nodes" by (simp_all add: db2_def k)
  ultimately have "broker_inv E db2"
    using k assms(1) patterns_wf_static [of db2 db] stores_ok_static [of db2 db] retained_ok_static [of db2 db]
    by (simp add: broker_inv_def)
  then show ?thesis using q by (simp add: mqtt3_db_messages_queue_def db2_def)
qed

lemma broker_inv_clear:
  assumes "broker_inv E db" and "clear_subs db' = clear_subs db" and "forest_refs nodes = forest_refs (db_subs db)"
    and "list_all tree_ok nodes"
  shows "broker_inv E (db'\<lparr>db_subs := nodes\<rparr>)"
  using assms clear_subs_keeps [OF assms(2)] patterns_wf_static [of "db'\<lparr>db_subs := nodes\<rparr>" db]
    stores_ok_static [of "db'\<lparr>db_subs := nodes\<rparr>" db] retained_ok_static [of "db'\<lparr>db_subs := nodes\<rparr>" db]
  by (simp add: broker_inv_def retained_ok_def)

lemma sub_add_top_keeps:
  assumes "qos \<in> {0, 1, 2}"
  shows "list_all tree_ok nodes \<Longrightarrow> sub_add_top db c qos nodes tokens = Some (rc, db', nodes') \<Longrightarrow>
    clear_subs db' = clear_subs db \<and> list_all tree_ok nodes' \<and> forest_refs nodes' = forest_refs nodes"
proof (induction nodes arbitrary: rc db' nodes')
  case (Cons b bs)
  obtain r db1 n where s: "sub_add db (Some c) qos [hd tokens] b tokens = (r, db1, n)" using prod_cases3 by blast
  have "tree_ok b" using Cons.prems by simp
  from sub_add_keeps(1) [OF assms this s] Cons s show ?case by (auto split: if_splits option.splits)
qed simp

lemma sub_add_inv:
  assumes "broker_inv E db" and "qos \<in> {0, 1, 2}"
  shows "broker_inv E (snd (mqtt3_sub_add db c f qos))"
proof -
  let ?t = "sub_topic_tokenise f"
  have ok: "list_all tree_ok (db_subs db)" using assms(1) by (simp add: broker_inv_def)
  show ?thesis
  proof (cases "sub_add_top db c qos (db_subs db) ?t")
    case None
    obtain r db1 n where s: "sub_add db (Some c) qos [hd ?t] (Subhier (hd ?t) [] [] None True) ?t = (r, db1, n)" using prod_cases3 by blast
    note k = sub_add_keeps(1) [OF assms(2) _ s]
    have "broker_inv E (db1\<lparr>db_subs := n # db_subs db\<rparr>)"
      by (rule broker_inv_clear [OF assms(1)]) (use k ok in \<open>simp_all add: leaves_ok_def\<close>)
    moreover have "db_subs db1 = db_subs db" by (rule clear_subs_eqD(1) [OF sub_add_frame(1) [OF s]])
    ultimately show ?thesis using None s by (simp add: mqtt3_sub_add_def Let_def)
  next
    case (Some x)
    obtain r db1 ns where x: "x = (r, db1, ns)" using prod_cases3 by blast
    have "broker_inv E (db1\<lparr>db_subs := ns\<rparr>)"
      by (rule broker_inv_clear [OF assms(1)]) (use sub_add_top_keeps [OF assms(2) ok Some [unfolded x]] in simp_all)
    then show ?thesis using Some x by (simp add: mqtt3_sub_add_def Let_def)
  qed
qed

lemma sub_remove_top_keeps:
  "list_all tree_ok nodes \<Longrightarrow> sub_remove_top db c nodes tokens = (db', nodes') \<Longrightarrow>
    clear_subs db' = clear_subs db \<and> list_all tree_ok nodes' \<and> forest_refs nodes' = forest_refs nodes"
proof (induction nodes arbitrary: db' nodes')
  case (Cons b bs)
  obtain db1 n where s: "sub_remove db c [hd tokens] b tokens = (db1, n)" by fastforce
  have "tree_ok b" using Cons.prems by simp
  from sub_remove_keeps(1) [OF this s] Cons s show ?case by (auto split: if_splits prod.splits)
qed simp

lemma sub_remove_inv:
  assumes "broker_inv E db"
  shows "broker_inv E (snd (mqtt3_sub_remove db c f))"
proof -
  obtain db1 ns where s: "sub_remove_top db c (db_subs db) (sub_topic_tokenise f) = (db1, ns)" by fastforce
  have "broker_inv E (db1\<lparr>db_subs := ns\<rparr>)"
    by (rule broker_inv_clear [OF assms]) (use sub_remove_top_keeps [OF _ s] assms in \<open>simp_all add: broker_inv_def\<close>)
  then show ?thesis using s by (simp add: mqtt3_sub_remove_def)
qed

lemma message_store_frame:
  assumes "mqtt3_db_message_store e db source source_mid topic qos payload retain store_id = (rc, s, db')"
  shows "db_subs db' = db_subs db" and "patterns_wf db' = patterns_wf db"
    and "stores_ok db \<Longrightarrow> qos \<in> {0, 1, 2} \<Longrightarrow> stores_ok db'"
    and "t \<noteq> db_next_store db \<Longrightarrow> db_stores db' t = db_stores db t"
    and "s = Some t \<Longrightarrow> store_topic (db_stores db' t) = topic"
  using assms
  by (auto simp: mqtt3_db_message_store_def msg_store_add_def patterns_wf_def stores_ok_def new_store_def Let_def split: if_splits)

lemma message_store_broker_inv:
  assumes "broker_inv E db" and "qos \<in> {0, 1, 2}"
    and "mqtt3_db_message_store e db source source_mid topic qos payload retain store_id = (rc, s, db')"
  shows "broker_inv E db'" and "s = Some t \<Longrightarrow> t \<in> live_stores db'"
proof -
  note f = message_store_frame [OF assms(3)]
  have inv: "db_inv (forest_refs (db_subs db) + E) db" using assms(1) by (simp add: broker_inv_def)
  have "t \<noteq> db_next_store db" if "t \<in># forest_refs (db_subs db)" for t
    using db_inv_live [OF inv, of t] that inv by (auto simp: live_stores_def db_inv_def store_inv_def)
  then have "retained_ok db' (db_subs db)" using assms(1) f(4) by (auto simp: broker_inv_def retained_ok_def)
  then show "broker_inv E db'" using f(1,2,3) assms(1,2) message_store_inv(1) [OF inv assms(3)] by (simp add: broker_inv_def)
  show "s = Some t \<Longrightarrow> t \<in> live_stores db'" by (rule message_store_inv(3) [OF inv assms(3)])
qed

lemma easy_queue_inv:
  assumes "broker_inv E db" and "qos \<in> {0, 1, 2}"
  shows "broker_inv E (snd (mqtt3_db_messages_easy_queue e db context topic qos payload retain))"
proof (cases topic)
  case None
  then show ?thesis using assms by (simp add: mqtt3_db_messages_easy_queue_def)
next
  case (Some t)
  define src where "src = (case context of None \<Rightarrow> [] | Some c \<Rightarrow> (case ctx_id (db_contexts db c) of None \<Rightarrow> [] | Some client \<Rightarrow> client))"
  obtain rc s db1 where st: "mqtt3_db_message_store e db src 0 (Some t) qos payload retain 0 = (rc, s, db1)" using prod_cases3 by blast
  note inv = message_store_broker_inv [OF assms st]
  show ?thesis
    using inv messages_queue_inv [OF inv(1) _ assms(2)] message_store_frame(5) [OF st] st Some src_def
    by (cases s) (simp_all add: mqtt3_db_messages_easy_queue_def)
qed

section \<open>Retained messages\<close>

definition retain_branch :: "mosq_env \<Rightarrow> mosquitto_db \<Rightarrow> subhier \<Rightarrow> bool \<Rightarrow> string list \<Rightarrow> ctxid \<Rightarrow> int \<Rightarrow> nat \<Rightarrow> mosquitto_db" where
  "retain_branch e db b is_last tokens c sub_qos level =
     (if hd tokens = ''#'' \<and> tl tokens = []
      then let db = retain_here e db (sh_retained b) c sub_qos
           in if sh_children b \<noteq> [] then snd (retain_search e db (sh_children b) tokens c sub_qos (level + 1) 0) else db
      else if sh_topic b \<noteq> ''+'' \<and> (sh_topic b = hd tokens \<or> hd tokens = ''+'')
      then if tl tokens \<noteq> []
           then case retain_search e db (sh_children b) (tl tokens) c sub_qos (level + 1) 0 of
                  (f, db) \<Rightarrow>
                    if f = -1 \<or> is_last \<and> hd (tl tokens) = ''#'' \<and> level > 0
                    then retain_here e db (sh_retained b) c sub_qos else db
           else retain_here e db (sh_retained b) c sub_qos
      else db)"

lemma retain_search_Cons:
  "retain_search e db (b # bs) tokens c sub_qos level flag =
     retain_search e (retain_branch e db b (bs = []) tokens c sub_qos level) bs tokens c sub_qos level
       (if hd tokens = ''#'' \<and> tl tokens = [] then -1 else flag)"
  by (cases b) (auto simp: retain_branch_def Let_def split: prod.split)

definition kept :: "storeid multiset \<Rightarrow> mosquitto_db \<Rightarrow> mosquitto_db \<Rightarrow> bool" where
  "kept E db db' \<longleftrightarrow> db_inv E db' \<and> db_static db' = db_static db \<and> db_subs db' = db_subs db"

lemma message_insert_subs: "db_subs (snd (mqtt3_db_message_insert e db c mid dir qos retain stored)) = db_subs db"
  by (simp add: mqtt3_db_message_insert_def enqueue_msg_def Let_def split: option.split insert_decision.split)

lemma gen_mid_subs: "gen_mid c qos db = (mid, db') \<Longrightarrow> db_subs db' = db_subs db"
  by (auto simp: gen_mid_def split: prod.splits if_splits)

lemma acl_check_stored_total:
  assumes "patterns_wf db" and "topic = None \<longrightarrow> env_auth_plugin e = None"
  shows "acl_check_stored e db m topic access \<noteq> None"
  using acl_check_total [OF assms(1)] assms(2) by (auto simp: acl_check_stored_def split: option.splits)

lemma retain_process_kept:
  assumes "db_inv E db" and "r \<in># E" and "patterns_wf db" and "stores_ok db" and "sub_qos \<in> {0, 1, 2}"
    and "store_topic (db_stores db r) \<noteq> None"
  shows "kept E db (snd (retain_process e db r c sub_qos))"
proof -
  define q where "q = (if store_qos (db_stores db r) > sub_qos then sub_qos else store_qos (db_stores db r))"
  obtain mid db1 where g: "(if q > 0 then gen_mid c q db else (0, db)) = (mid, db1)" by (rule prod.exhaust)
  obtain rc where a: "acl_check_stored e db (db_contexts db c) (store_topic (db_stores db r)) MOSQ_ACL_READ = Some rc"
    using acl_check_stored_total [OF assms(3), of "store_topic (db_stores db r)" e "db_contexts db c" MOSQ_ACL_READ] assms(6)
    by (meson not_None_eq)
  have q: "q \<in> {0, 1, 2}" using assms(4,5) unfolding q_def stores_ok_def by presburger
  have db1: "db_inv E db1 \<and> db_static db1 = db_static db \<and> db_subs db1 = db_subs db"
  proof (cases "q > 0")
    case True
    then have m: "gen_mid c q db = (mid, db1)" using g by simp
    then show ?thesis
      using gen_mid_inv [OF assms(1), of c q] gen_mid_static [OF m] gen_mid_subs [OF m] by simp
  qed (use g assms(1) in simp)
  then have "db_inv E (snd (mqtt3_db_message_insert e db1 c mid mosq_md_out q True r))"
    by (intro message_insert_inv q db_inv_live [OF _ assms(2)]) simp_all
  moreover have "snd (retain_process e db r c sub_qos) =
      (if rc = MOSQ_ERR_SUCCESS then snd (mqtt3_db_message_insert e db1 c mid mosq_md_out q True r) else db)"
    unfolding retain_process_def a Let_def q_def [symmetric] g by simp
  ultimately show ?thesis using db1 assms(1) by (simp add: kept_def message_insert_subs)
qed

lemma kept_trans: "kept E db db' \<Longrightarrow> kept E db' db'' \<Longrightarrow> kept E db db''"
  by (simp add: kept_def)

text \<open>What the search of retained messages relies on.\<close>

definition retain_ready :: "storeid multiset \<Rightarrow> mosquitto_db \<Rightarrow> storeid multiset \<Rightarrow> bool" where
  "retain_ready E db R \<longleftrightarrow> db_inv E db \<and> patterns_wf db \<and> stores_ok db \<and>
     (\<forall>r \<in># R. r \<in># E \<and> store_topic (db_stores db r) \<noteq> None)"

lemma retain_ready_kept: "retain_ready E db R \<Longrightarrow> kept E db db' \<Longrightarrow> retain_ready E db' R"
  using patterns_wf_static [of db' db] stores_ok_static [of db' db] static_store [of db' db]
  by (auto simp: retain_ready_def kept_def store_content_def)

lemma retain_ready_mono: "retain_ready E db R \<Longrightarrow> set_mset S \<subseteq> set_mset R \<Longrightarrow> retain_ready E db S"
  by (auto simp: retain_ready_def)

lemma retain_here_kept:
  assumes "retain_ready E db R" and "set_mset (opt_refs r) \<subseteq> set_mset R" and "sub_qos \<in> {0, 1, 2}"
  shows "kept E db (retain_here e db r c sub_qos)"
  using assms retain_process_kept [of E db _ sub_qos e c]
  by (cases r) (auto simp: retain_here_def retain_ready_def opt_refs_def kept_def simp del: insert_iff)

lemma retain_search_kept:
  assumes q: "sub_qos \<in> {0, 1, 2}"
  shows "retain_ready E db R \<Longrightarrow> set_mset (forest_refs nodes) \<subseteq> set_mset R \<Longrightarrow>
    kept E db (snd (retain_search e db nodes tokens c sub_qos level flag))"
proof (induction nodes arbitrary: db tokens level flag rule: forest_induct)
  case Nil
  then show ?case by (simp add: kept_def retain_ready_def)
next
  case (Cons b bs)
  have sub: "set_mset (opt_refs (sh_retained b)) \<subseteq> set_mset R" "set_mset (forest_refs (sh_children b)) \<subseteq> set_mset R"
    "set_mset (forest_refs bs) \<subseteq> set_mset R"
    using Cons.prems(2) tree_refs_node [of b] by auto
  have here: "kept E d (retain_here e d (sh_retained b) c sub_qos)" if "retain_ready E d R" for d
    by (rule retain_here_kept [OF that sub(1) q])
  have ch: "kept E d (snd (retain_search e d (sh_children b) ts c sub_qos l f))" if "retain_ready E d R" for d ts l f
    by (rule Cons.IH(1) [OF that sub(2)])
  have refl: "kept E db db" using Cons.prems(1) by (simp add: kept_def retain_ready_def)
  have seq: "kept E d d2" if "kept E d d1" and "retain_ready E d1 R \<Longrightarrow> kept E d1 d2" and "retain_ready E d R" for d d1 d2
    using that retain_ready_kept kept_trans by blast
  have b: "kept E db (retain_branch e db b last tokens c sub_qos level)" for last
    using seq [OF here ch] seq [OF ch here] here ch refl Cons.prems(1)
    by (auto simp: retain_branch_def Let_def split_beta)
  show ?case unfolding retain_search_Cons
    using b Cons.IH(2) [OF retain_ready_kept [OF Cons.prems(1) b] sub(3)] kept_trans by blast
qed

lemma retain_queue_inv:
  assumes "broker_inv E db" and "sub_qos \<in> {0, 1, 2}"
  shows "broker_inv E (snd (mqtt3_retain_queue e db c sub sub_qos))"
proof (cases "find (\<lambda>node. sh_topic node = hd (sub_topic_tokenise sub)) (db_subs db)")
  case None
  then show ?thesis using assms by (simp add: mqtt3_retain_queue_def)
next
  case (Some node)
  let ?E = "forest_refs (db_subs db) + E"
  have node: "node \<in> set (db_subs db)" using Some by (auto simp: find_Some_iff)
  have "set_mset (forest_refs (sh_children node)) \<subseteq> set_mset (tree_refs node)"
    unfolding tree_refs_node [of node] by simp
  also have "\<dots> \<subseteq> set_mset (forest_refs (db_subs db))" using node by auto
  finally have "set_mset (forest_refs (sh_children node)) \<subseteq> set_mset (forest_refs (db_subs db))" .
  moreover have "retain_ready ?E db (forest_refs (db_subs db))"
    using assms(1) by (simp add: broker_inv_def retain_ready_def retained_ok_def)
  ultimately have "kept ?E db (snd (retain_search e db (sh_children node) (sub_topic_tokenise sub) c sub_qos 0 0))"
    by (intro retain_search_kept assms(2))
  then show ?thesis using Some broker_inv_same_tree [OF assms(1)] by (simp add: mqtt3_retain_queue_def kept_def)
qed

end
