(* ===== verification/Mosq_Release.thy ===== *)
theory Mosq_Release
  imports Mosq_Deliver
begin

text \<open>
  The release of a QoS 2 message (\<open>mqtt3_db_message_release\<close>), which delivers while it walks
  through a queue: delivery only appends outgoing messages, so the walk ends.
\<close>

section \<open>Release\<close>

text \<open>A queued message within the window; the acknowledgement of an incoming one is sent at once.\<close>

definition release_activate :: "mosq_env \<Rightarrow> ctxid \<Rightarrow> nat \<Rightarrow> mosquitto_client_msg \<Rightarrow> mosquitto_db \<Rightarrow> mosquitto_db" where
  "release_activate e c i tail db =
     upd_msg c i (activate (env_now e))
       (if cmsg_direction tail \<noteq> mosq_md_out \<and> cmsg_qos tail = 2
        then upd_ctx c (\<lambda>m. snd (mosquitto_send_pubrec e m (cmsg_mid tail))) db else db)"

definition release_deliver :: "mosq_env \<Rightarrow> mosquitto_db \<Rightarrow> mosquitto_client_msg \<Rightarrow> int \<times> mosquitto_db" where
  "release_deliver e db tail =
     (let store = db_stores db (cmsg_store tail)
      in case store_topic store of
           None \<Rightarrow> (MOSQ_ERR_SUCCESS, db)
         | Some topic \<Rightarrow>
             mqtt3_db_messages_queue e db (store_source_id store) topic (store_qos store) (cmsg_retain tail) (cmsg_store tail))"

partial_function (option) message_release_loop ::
    "mosq_env \<Rightarrow> mosquitto_db \<Rightarrow> ctxid \<Rightarrow> u16 \<Rightarrow> mosquitto_msg_direction \<Rightarrow> nat \<Rightarrow> int \<Rightarrow> bool
     \<Rightarrow> (int \<times> mosquitto_db) option" where
  "message_release_loop e db c mid dir i msg_index deleted =
     (if i < length (ctx_msgs (db_contexts db c))
      then let msg_index = msg_index + 1;
               tail = ctx_msgs (db_contexts db c) ! i;
               db = (if cmsg_state tail = mosq_ms_queued \<and> msg_index \<le> db_max_inflight db
                     then release_activate e c i tail db else db)
           in if cmsg_mid tail = mid \<and> cmsg_direction tail = dir
              then case release_deliver e db tail of
                     (rc, db) \<Rightarrow>
                       if rc = 0
                       then let db = message_remove db c i
                            in if msg_index > db_max_inflight db then Some (MOSQ_ERR_SUCCESS, db)
                               else message_release_loop e db c mid dir i msg_index True
                       else Some (1, db)
              else if msg_index > db_max_inflight db \<and> deleted then Some (MOSQ_ERR_SUCCESS, db)
              else message_release_loop e db c mid dir (i + 1) msg_index deleted
      else Some (if deleted then MOSQ_ERR_SUCCESS else 1, db))"

declare message_release_loop.simps [code]

definition mqtt3_db_message_release ::
    "mosq_env \<Rightarrow> mosquitto_db \<Rightarrow> ctxid \<Rightarrow> u16 \<Rightarrow> mosquitto_msg_direction \<Rightarrow> (int \<times> mosquitto_db) option" where
  "mqtt3_db_message_release e db c mid dir = message_release_loop e db c mid dir 0 0 False"

section \<open>Delivery appends\<close>

text \<open>
  The queues of \<open>db'\<close> are those of \<open>db\<close> with outgoing messages appended; identifiers and
  subscriptions of the clients and the contents of the stored messages are the same.
\<close>

definition out_msgs :: "mosquitto_client_msg list \<Rightarrow> bool" where
  "out_msgs = list_all (\<lambda>msg. cmsg_direction msg = mosq_md_out)"

definition linked :: "mosquitto \<Rightarrow> bool" where
  "linked m \<longleftrightarrow> (ctx_last_msg m = LastNull \<longrightarrow> ctx_msgs m = [])"

definition grows_ctx :: "mosquitto \<Rightarrow> mosquitto \<Rightarrow> bool" where
  "grows_ctx m m' \<longleftrightarrow> ctx_id m' = ctx_id m \<and> ctx_subs m' = ctx_subs m
     \<and> (linked m \<longrightarrow> linked m' \<and> (\<exists>ms. out_msgs ms \<and> ctx_msgs m' = ctx_msgs m @ ms))"

definition grows :: "mosquitto_db \<Rightarrow> mosquitto_db \<Rightarrow> bool" where
  "grows db db' \<longleftrightarrow> db_static db' = db_static db \<and> (\<forall>c. grows_ctx (db_contexts db c) (db_contexts db' c))"

lemma grows_ctx_same:
  "ctx_msgs m' = ctx_msgs m \<Longrightarrow> ctx_last_msg m' = ctx_last_msg m \<Longrightarrow> ctx_id m' = ctx_id m \<Longrightarrow> ctx_subs m' = ctx_subs m
   \<Longrightarrow> grows_ctx m m'"
  by (simp add: grows_ctx_def linked_def out_msgs_def exI [of _ "[]"])

lemma grows_refl: "db_contexts db' = db_contexts db \<Longrightarrow> db_static db' = db_static db \<Longrightarrow> grows db db'"
  by (simp add: grows_def grows_ctx_same)

lemma grows_ctx_trans: "grows_ctx m m' \<Longrightarrow> grows_ctx m' m'' \<Longrightarrow> grows_ctx m m''"
  by (auto simp: grows_ctx_def out_msgs_def)

lemma grows_trans: "grows db db' \<Longrightarrow> grows db' db'' \<Longrightarrow> grows db db''"
  unfolding grows_def using grows_ctx_trans by metis

lemma grows_upd_ctx: "grows_ctx (db_contexts db c) (f (db_contexts db c)) \<Longrightarrow> grows db (upd_ctx c f db)"
  using grows_ctx_same [OF refl refl refl refl] by (simp add: grows_def)

lemma grows_link: "cmsg_direction msg = mosq_md_out \<Longrightarrow> grows_ctx m (link_msg msg m)"
  by (cases "ctx_last_msg m") (auto simp: grows_ctx_def linked_def out_msgs_def link_msg_def Let_def)

lemma enqueue_msg_grows:
  assumes "cmsg_direction msg = mosq_md_out"
  shows "grows db (enqueue_msg e db c client msg)"
proof -
  let ?m = "db_contexts db c"
  have "grows_ctx ?m (wake_lazy_bridge (link_msg msg ?m))"
    using grows_link [OF assms, of ?m] by (simp add: grows_ctx_def linked_def wake_lazy_bridge_def split: option.split)
  then show ?thesis using grows_ctx_same [OF refl refl refl refl] by (simp add: enqueue_msg_def grows_def Let_def)
qed

lemma message_insert_grows: "grows db (snd (mqtt3_db_message_insert e db c mid mosq_md_out qos retain stored))"
proof -
  have "grows db (upd_ctx c (\<lambda>m. m\<lparr>ctx_is_dropping := True\<rparr>) (db\<lparr>db_msgs_dropped := n\<rparr>))" for n
    using grows_ctx_same by (simp add: grows_def)
  then show ?thesis using enqueue_msg_grows
    by (simp add: mqtt3_db_message_insert_def Let_def grows_refl split: option.split insert_decision.split)
qed

lemma gen_mid_grows: "gen_mid c qos db = (mid, db') \<Longrightarrow> grows db db'"
  by (auto simp: gen_mid_def mosquitto_mid_generate_def Let_def grows_refl intro!: grows_upd_ctx grows_ctx_same
      split: prod.splits if_splits)

lemma subs_retain_frame:
  "db_contexts (fst (subs_retain db retained topic stored)) = db_contexts db"
  "db_static (fst (subs_retain db retained topic stored)) = db_static db"
  "db_tables (fst (subs_retain db retained topic stored)) = db_tables db"
  by (simp_all add: subs_retain_def Let_def split: option.split)

lemma sub_add_none:
  "sub_add db None qos path node tokens = (rc, db', node') \<Longrightarrow> db' = db"
  "sub_add_branch db None qos path nodes token tokens = (rc, db', nodes') \<Longrightarrow> db' = db"
  by (induction db "None :: ctxid option" qos path node tokens and db "None :: ctxid option" qos path nodes token tokens
      arbitrary: rc db' node' and rc db' nodes' rule: sub_add_sub_add_branch.induct)
    (auto simp: sub_add_leaf_def split: prod.splits if_splits)

text \<open>
  Delivery reaches the queues only by generating identifiers and inserting outgoing messages, so a
  relation between databases that these two keep is kept by all of it.
\<close>

locale delivery =
  fixes R :: "mosquitto_db \<Rightarrow> mosquitto_db \<Rightarrow> bool"
  assumes same: "db_contexts db' = db_contexts db \<Longrightarrow> db_static db' = db_static db \<Longrightarrow> db_tables db' = db_tables db \<Longrightarrow> R db db'"
    and trans: "R db db' \<Longrightarrow> R db' db'' \<Longrightarrow> R db db''"
    and insert: "R db (snd (mqtt3_db_message_insert e db c mid mosq_md_out qos retain stored))"
    and mid: "gen_mid c qos db = (mid, db') \<Longrightarrow> R db db'"
begin

lemma refl: "R db db"
  by (rule same) simp_all

lemma subs_deliver: "R db (snd (subs_deliver e db c client_qos qos retain stored))"
  by (auto simp: subs_deliver_def Let_def split: prod.split intro: trans [OF mid insert])

lemma subs_loop: "R db (snd (subs_loop e db leaves source_id topic qos retain stored rc))"
proof (induction e db leaves source_id topic qos retain stored rc rule: subs_loop.induct)
  case (2 e db c client_qos leaves source_id topic qos retain stored rc)
  note d = subs_deliver [of db e c client_qos qos retain stored]
  have "R db (db\<lparr>db_aborted := True\<rparr>)" by (rule same) simp_all
  then show ?case using 2 trans [OF d] by (auto simp: Let_def refl split_beta split: option.split)
qed (simp add: refl)

lemma subs_process: "R db (fst (snd (subs_process e db hier source_id topic qos retain stored sr)))"
proof -
  have r: "R db (fst (if retain \<and> sr then subs_retain db (sh_retained hier) topic stored else (db, sh_retained hier)))"
    by (rule same) (simp_all add: subs_retain_frame)
  show ?thesis using trans [OF r subs_loop] by (simp add: subs_process_def Let_def split_beta)
qed

lemma sub_search: "R db (fst (sub_search e db nodes tokens source_id topic qos retain stored sr))"
proof (induction nodes arbitrary: db tokens sr rule: forest_induct)
  case (Cons b bs)
  have "R db (fst (search_branch e db b tokens source_id topic qos retain stored sr))"
    using Cons.IH(1) subs_process trans [OF Cons.IH(1) subs_process]
    by (simp add: search_branch_def Let_def split_beta refl)
  then show ?case using trans [OF _ Cons.IH(2)] by (simp add: sub_search_Cons split_beta)
qed (simp add: refl)

lemma queue_top: "R db (fst (queue_top e db b tokens source_id topic qos retain stored))"
proof -
  obtain r db1 b1 where a: "sub_add db None 0 [hd tokens] b tokens = (r, db1, b1)" using prod_cases3 by blast
  have "db1 = db" by (rule sub_add_none(1) [OF a])
  then show ?thesis using sub_search a by (simp add: queue_top_def Let_def split_beta refl)
qed

lemma queue_loop: "R db (fst (queue_loop e db nodes tokens source_id topic qos retain stored))"
proof (induction nodes arbitrary: db)
  case (Cons b bs)
  show ?case using trans [OF queue_top Cons.IH] by (simp add: queue_loop_Cons split_beta del: queue_loop.simps)
qed (simp add: refl)

lemma messages_queue: "R db (snd (mqtt3_db_messages_queue e db source_id topic qos retain stored))"
proof -
  define db1 where "db1 = fst (queue_loop e (msg_store_ref db stored) (db_subs db) (sub_topic_tokenise topic)
             source_id topic qos retain stored)"
  have "R db (msg_store_ref db stored)" by (rule same) simp_all
  then have "R db db1" unfolding db1_def by (rule trans [OF _ queue_loop])
  moreover have "R db1 (msg_store_deref (db1\<lparr>db_subs := nodes\<rparr>) stored)" for nodes by (rule same) simp_all
  ultimately show ?thesis using trans by (simp add: mqtt3_db_messages_queue_def split_beta flip: db1_def)
qed

lemma retain_process: "R db (snd (retain_process e db r c sub_qos))"
proof -
  have "R db (db\<lparr>db_aborted := True\<rparr>)" by (rule same) simp_all
  then show ?thesis by (auto simp: retain_process_def Let_def refl insert split: option.split prod.split intro: trans [OF mid insert])
qed

lemma retain_search: "R db (snd (retain_search e db nodes tokens c sub_qos level flag))"
proof (induction nodes arbitrary: db tokens level flag rule: forest_induct)
  case (Cons b bs)
  have here: "R db (retain_here e db r c sub_qos)" for r db by (simp add: retain_here_def retain_process refl split: option.split)
  have "R db (retain_branch e db b last tokens c sub_qos level)" for last
    using here trans [OF here Cons.IH(1)] trans [OF Cons.IH(1) here] Cons.IH(1)
    by (simp add: retain_branch_def Let_def refl split_beta)
  then show ?case using trans [OF _ Cons.IH(2)] by (simp add: retain_search_Cons)
qed (simp add: refl)

lemma retain_queue: "R db (snd (mqtt3_retain_queue e db c sub sub_qos))"
  by (simp add: mqtt3_retain_queue_def Let_def retain_search refl split: option.split)

end

interpretation delivers: delivery grows
  by unfold_locales (auto intro: grows_refl grows_trans message_insert_grows gen_mid_grows)

lemmas sub_search_grows = delivers.sub_search
  and subs_process_grows = delivers.subs_process
  and queue_top_grows = delivers.queue_top
  and messages_queue_grows = delivers.messages_queue

section \<open>The walk ends\<close>

abbreviation dirs :: "mosquitto_db \<Rightarrow> ctxid \<Rightarrow> mosquitto_msg_direction list" where
  "dirs db c \<equiv> map cmsg_direction (ctx_msgs (db_contexts db c))"

definition incoming_from :: "nat \<Rightarrow> mosquitto_db \<Rightarrow> ctxid \<Rightarrow> nat" where
  "incoming_from i db c = count_list (drop i (dirs db c)) mosq_md_in"

lemma same_msgs_dirs: "same_msgs xs ys \<Longrightarrow> map cmsg_direction xs = map cmsg_direction ys"
  unfolding same_msgs_def by (induction rule: list_all2_induct) auto

lemma grows_dirs:
  assumes "broker_inv E db" and "grows db db'"
  shows "\<exists>n. dirs db' c = dirs db c @ replicate n mosq_md_out"
proof -
  have "queue_ok (db_contexts db c)" using assms(1) by (simp add: broker_inv_def db_inv_def)
  then have "linked (db_contexts db c)" by (auto simp: linked_def queue_ok_def queue_wf_def split: if_splits)
  then obtain ms where "out_msgs ms" "ctx_msgs (db_contexts db' c) = ctx_msgs (db_contexts db c) @ ms"
    using assms(2) by (auto simp: grows_def grows_ctx_def)
  moreover have "out_msgs ms \<Longrightarrow> map cmsg_direction ms = replicate (length ms) mosq_md_out" for ms
    by (induction ms) (auto simp: out_msgs_def)
  ultimately show ?thesis by auto
qed

lemma message_remove_dirs:
  "i < length (dirs db c) \<Longrightarrow> dirs (message_remove db c i) c = take i (dirs db c) @ drop (Suc i) (dirs db c)"
  by (simp add: message_remove_def unlink_msg_def Let_def same_msgs_dirs [OF same_msgs_promote] take_map drop_map)

lemma remove_incoming:
  assumes "broker_inv E db" and "grows db db'" and "i < length (dirs db c)" and "dirs db c ! i = mosq_md_in"
  shows "incoming_from i (message_remove db' c i) c < incoming_from i db c"
proof -
  obtain n where n: "dirs db' c = dirs db c @ replicate n mosq_md_out" using grows_dirs [OF assms(1,2)] by blast
  have "dirs (message_remove db' c i) c = take i (dirs db' c) @ drop (Suc i) (dirs db' c)"
    by (rule message_remove_dirs) (use assms(3) n in simp)
  then have "drop i (dirs (message_remove db' c i) c) = drop (Suc i) (dirs db c) @ replicate n mosq_md_out"
    using assms(3) n by simp
  moreover have "drop i (dirs db c) = mosq_md_in # drop (Suc i) (dirs db c)"
    using Cons_nth_drop_Suc [OF assms(3)] assms(4) by simp
  moreover have "count_list (replicate n mosq_md_out) mosq_md_in = 0" by (induction n) auto
  ultimately show ?thesis by (simp add: incoming_from_def)
qed

lemma message_remove_frame:
  "db_subs (message_remove db c i) = db_subs db" "db_static (message_remove db c i) = db_static db"
  by (simp_all add: message_remove_def)

lemma message_remove_broker_inv: "broker_inv E db \<Longrightarrow> broker_inv E (message_remove db c i)"
  by (rule broker_inv_same_tree) (simp_all add: message_remove_frame message_remove_inv broker_inv_def)

lemma db_inv_upd_conn:
  assumes "db_inv E db" and "\<And>m. conn_frame (f m) = conn_frame m"
  shows "db_inv E (upd_ctx c f db)"
  by (rule db_inv_same [OF assms(1)]) (simp_all add: conn_frame_fields [OF assms(2)])

lemma release_activate_inv:
  assumes "broker_inv E db" and i: "i < length (ctx_msgs (db_contexts db c))"
  shows "broker_inv E (release_activate e c i tail db)"
    and "same_msgs (ctx_msgs (db_contexts (release_activate e c i tail db) c)) (ctx_msgs (db_contexts db c))"
    and "db_static (release_activate e c i tail db) = db_static db"
proof -
  let ?E = "forest_refs (db_subs db) + E"
  define db1 where "db1 = (if cmsg_direction tail \<noteq> mosq_md_out \<and> cmsg_qos tail = 2
        then upd_ctx c (\<lambda>m. snd (mosquitto_send_pubrec e m (cmsg_mid tail))) db else db)"
  have r: "release_activate e c i tail db = upd_msg c i (activate (env_now e)) db1"
    by (simp only: release_activate_def db1_def)
  have db1: "ctx_msgs (db_contexts db1 c) = ctx_msgs (db_contexts db c)" "db_subs db1 = db_subs db" "db_static db1 = db_static db"
    using conn_frame_fields(1) [of "snd (mosquitto_send_pubrec e (db_contexts db c) (cmsg_mid tail))" "db_contexts db c"]
    by (simp_all add: db1_def)
  have inv: "db_inv ?E db" using assms(1) by (simp add: broker_inv_def)
  then have "db_inv ?E db1" by (simp add: db1_def db_inv_upd_conn)
  then have "db_inv ?E (release_activate e c i tail db)"
    unfolding r by (rule upd_msg_inv) (use i activate_same db1 in simp_all)
  then show "broker_inv E (release_activate e c i tail db)"
    by (rule broker_inv_same_tree [OF assms(1)]) (simp_all add: r upd_msg_def db1)
  show "db_static (release_activate e c i tail db) = db_static db" by (simp add: r upd_msg_def db1)
  show "same_msgs (ctx_msgs (db_contexts (release_activate e c i tail db) c)) (ctx_msgs (db_contexts db c))"
    using same_msgs_update [OF i, of "activate (env_now e) (ctx_msgs (db_contexts db c) ! i)"] activate_same
    by (simp add: r upd_msg_contexts db1)
qed

lemma release_deliver_inv:
  assumes "broker_inv E db" and "i < length (ctx_msgs (db_contexts db c))"
    and "cmsg_store tail = cmsg_store (ctx_msgs (db_contexts db c) ! i)"
  shows "\<exists>db'. release_deliver e db tail = (MOSQ_ERR_SUCCESS, db') \<and> broker_inv E db' \<and> grows db db'"
proof -
  have inv: "db_inv (forest_refs (db_subs db) + E) db" using assms(1) by (simp add: broker_inv_def)
  have "cmsg_store tail \<in># queue_refs (db_contexts db c)" using assms(2,3) by (simp add: queue_refs_def)
  moreover have "c \<in> busy db" "finite (busy db)" using assms(2) inv by (auto simp: busy_def db_inv_def)
  ultimately have "cmsg_store tail \<in># all_queue_refs db" unfolding all_queue_refs_def by (subst sum.remove [of _ c]) auto
  then have live: "cmsg_store tail \<in> live_stores db"
    using msg_store.inv_live [OF db_invD(1) [OF inv]] by simp
  show ?thesis
  proof (cases "store_topic (db_stores db (cmsg_store tail))")
    case None
    then show ?thesis using assms(1) by (simp add: release_deliver_def grows_refl)
  next
    case (Some topic)
    have q: "store_qos (db_stores db (cmsg_store tail)) \<in> {0, 1, 2}" using assms(1) unfolding broker_inv_def stores_ok_def by blast
    obtain rc db' where r: "release_deliver e db tail = (rc, db')" by (rule prod.exhaust)
    then have m: "mqtt3_db_messages_queue e db (store_source_id (db_stores db (cmsg_store tail))) topic
        (store_qos (db_stores db (cmsg_store tail))) (cmsg_retain tail) (cmsg_store tail) = (rc, db')"
      using Some by (simp add: release_deliver_def Let_def)
    then have "rc = MOSQ_ERR_SUCCESS" by (simp add: mqtt3_db_messages_queue_def split: prod.splits)
    then show ?thesis
      using messages_queue_inv [OF assms(1) live q, of e] messages_queue_grows [of db e] Some m r by (metis option.distinct(1) snd_conv)
  qed
qed

text \<open>The walk ends and keeps every predicate that its steps keep.\<close>

lemma message_release_loop_returns:
  assumes inv: "\<And>db. P db \<Longrightarrow> broker_inv E db"
    and act: "\<And>db i tail. P db \<Longrightarrow> i < length (ctx_msgs (db_contexts db c)) \<Longrightarrow> P (release_activate e c i tail db)"
    and rem: "\<And>db i. P db \<Longrightarrow> P (message_remove db c i)"
    and del: "\<And>db i tail. P db \<Longrightarrow> i < length (ctx_msgs (db_contexts db c)) \<Longrightarrow>
      cmsg_store tail = cmsg_store (ctx_msgs (db_contexts db c) ! i) \<Longrightarrow> P (snd (release_deliver e db tail))"
  shows "P db \<Longrightarrow> \<exists>rc db'. message_release_loop e db c mid mosq_md_in i k deleted = Some (rc, db') \<and> P db'"
proof (induction "(db, i)" arbitrary: db i k deleted rule: wf_induct_rule [OF wf_measures
      [of "[\<lambda>(db, i). incoming_from i db c, \<lambda>(db, i). length (dirs db c) - i]"]])
  case (1 db i k deleted)
  let ?tail = "ctx_msgs (db_contexts db c) ! i" and ?hit = "\<lambda>t. cmsg_mid t = mid \<and> cmsg_direction t = mosq_md_in"
  define db1 where "db1 = (if cmsg_state ?tail = mosq_ms_queued \<and> k + 1 \<le> db_max_inflight db
                     then release_activate e c i ?tail db else db)"
  show ?case
  proof (cases "i < length (ctx_msgs (db_contexts db c))")
    case i: True
    have db1: "P db1" "same_msgs (ctx_msgs (db_contexts db1 c)) (ctx_msgs (db_contexts db c))"
      using act [OF "1.prems" i] release_activate_inv(2) [OF inv [OF "1.prems"] i, of e ?tail] "1.prems" by (simp_all add: db1_def)
    have dirs: "dirs db1 c = dirs db c" using db1(2) by (rule same_msgs_dirs)
    then have len: "length (ctx_msgs (db_contexts db1 c)) = length (ctx_msgs (db_contexts db c))" by (metis length_map)
    have store: "cmsg_store ?tail = cmsg_store (ctx_msgs (db_contexts db1 c) ! i)"
      using db1(2) i by (auto simp: same_msgs_def list_all2_conv_all_nth)
    obtain db2 where d: "release_deliver e db1 ?tail = (MOSQ_ERR_SUCCESS, db2)" "grows db1 db2"
      using release_deliver_inv [OF inv [OF db1(1)] _ store, of e] i len by auto
    have P2: "P db2" using del [OF db1(1) _ store] i len d(1) by simp
    show ?thesis
    proof (cases "?hit ?tail")
      case True
      have "incoming_from i (message_remove db2 c i) c < incoming_from i db1 c"
        by (rule remove_incoming [OF inv [OF db1(1)] d(2)]) (use i True dirs in simp_all)
      then have "incoming_from i (message_remove db2 c i) c < incoming_from i db c"
        using dirs by (simp add: incoming_from_def)
      then have "\<exists>rc db'. message_release_loop e (message_remove db2 c i) c mid mosq_md_in i (k + 1) True = Some (rc, db') \<and> P db'"
        by (intro "1.hyps" rem P2) simp
      then show ?thesis using i True d(1) rem [OF P2, of i]
        by (subst message_release_loop.simps) (auto simp: Let_def db1_def [symmetric])
    next
      case False
      have "drop i (dirs db c) = cmsg_direction ?tail # drop (Suc i) (dirs db c)"
        using Cons_nth_drop_Suc [of i "dirs db c"] i by simp
      then have "incoming_from (i + 1) db1 c \<le> incoming_from i db c" "length (dirs db1 c) - (i + 1) < length (dirs db c) - i"
        using dirs len i by (auto simp: incoming_from_def)
      then have "((db1, i + 1), db, i) \<in> measures [\<lambda>(db, i). incoming_from i db c, \<lambda>(db, i). length (dirs db c) - i]" by auto
      from "1.hyps" [OF this db1(1), of "k + 1" deleted] show ?thesis using i False db1(1)
        by (subst message_release_loop.simps) (auto simp: Let_def db1_def [symmetric])
    qed
  qed (use "1.prems" in \<open>subst message_release_loop.simps, simp\<close>)
qed

end
