(* ===== verification/Mosq_Session.thy ===== *)
theory Mosq_Session
  imports Mosq_Release
begin

text \<open>
  The subscriptions of a client: the slots of \<open>context->subs\<close> point to the nodes where the client
  is subscribed, and ending a clean session removes exactly those subscriptions.
\<close>

section \<open>Unlinking nodes\<close>

lemma update_first_map:
  assumes "\<And>x. sh_topic (f x) = sh_topic x"
  shows "map sh_topic (update_first P f xs) = map sh_topic xs"
  using assms by (induction xs) auto

lemma unlink_single: "unlink_node [t] nodes = remove_first (\<lambda>node. sh_topic node = t) nodes"
  by (simp add: unlink_node_def)

lemma unlink_Cons:
  "q \<noteq> [] \<Longrightarrow> unlink_node (t # q) nodes =
     update_first (\<lambda>node. sh_topic node = t) (\<lambda>node. set_children (unlink_node q (sh_children node)) node) nodes"
proof (cases q)
  case (Cons x r)
  then show ?thesis by (cases r) (auto simp: unlink_node_def intro!: arg_cong [of _ _ "\<lambda>f. update_first _ f nodes"])
qed simp

lemma set_children_sel [simp]:
  "sh_topic (set_children ch n) = sh_topic n" "sh_subs (set_children ch n) = sh_subs n"
  "sh_children (set_children ch n) = ch" "sh_retained (set_children ch n) = sh_retained n"
  "sh_has_parent (set_children ch n) = sh_has_parent n"
  by (simp_all add: set_children_def)

text \<open>What a change of the tree keeps when it only drops nodes without use.\<close>

definition trims :: "subhier list \<Rightarrow> subhier list \<Rightarrow> bool" where
  "trims nodes nodes' \<longleftrightarrow> (\<forall>p. subs_at nodes' p = subs_at nodes p) \<and> (forest_wf nodes \<longrightarrow> forest_wf nodes')
     \<and> sh_topic ` set nodes' \<subseteq> sh_topic ` set nodes \<and> (list_all hash_last nodes \<longrightarrow> list_all hash_last nodes')
     \<and> (nodes = [] \<longrightarrow> nodes' = [])
     \<and> (list_all tree_ok nodes \<longrightarrow> list_all tree_ok nodes') \<and> forest_refs nodes' = forest_refs nodes"

lemma trims_refl: "trims nodes nodes"
  by (simp add: trims_def)

lemma trims_trans:
  assumes a: "trims a b" and b: "trims b c"
  shows "trims a c"
  unfolding trims_def
proof (intro conjI allI impI)
  show "subs_at c p = subs_at a p" for p using a b unfolding trims_def by metis
  show "forest_wf a \<Longrightarrow> forest_wf c" using a b unfolding trims_def by argo
  show "sh_topic ` set c \<subseteq> sh_topic ` set a" using a b unfolding trims_def by (meson subset_trans)
  show "list_all hash_last a \<Longrightarrow> list_all hash_last c" using a b unfolding trims_def by argo
  show "a = [] \<Longrightarrow> c = []" using a b unfolding trims_def by argo
  show "list_all tree_ok a \<Longrightarrow> list_all tree_ok c" using a b unfolding trims_def by argo
  show "forest_refs c = forest_refs a" using a b unfolding trims_def by argo
qed

lemma trims_Cons:
  assumes "trims bs bs'"
  shows "trims (b # bs) (b # bs')"
proof -
  have "subs_at (b # bs') p = subs_at (b # bs) p" for p using assms by (cases p) (auto simp: trims_def)
  then show ?thesis using assms by (auto simp: trims_def forest_wf_Cons)
qed

lemma trims_children:
  assumes "trims (sh_children b) ch"
  shows "trims (b # bs) (set_children ch b # bs)"
proof -
  have "subs_at (set_children ch b # bs) p = subs_at (b # bs) p" for p
    using assms by (cases p) (auto simp: trims_def subs_below_def)
  then show ?thesis
    using assms tree_refs_node [of b] tree_ok_node [of b] hash_last_node [of b]
    by (auto simp: trims_def forest_wf_Cons tree_refs_set_children tree_ok_set_children hash_last_node [of "set_children ch b"])
qed

lemma trims_drop:
  assumes "sh_unused b" and "forest_wf (b # bs)"
  shows "trims (b # bs) bs"
proof -
  have "subs_at (b # bs) p = subs_at bs p" for p
    using sh_unused_below [OF assms(1)] assms(2) subs_at_absent [of "sh_topic b" bs]
    by (cases p) (auto simp: forest_wf_Cons)
  then show ?thesis using assms sh_unused_refs [OF assms(1)] by (auto simp: trims_def forest_wf_Cons)
qed

lemma unlink_trims:
  "node_at nodes path = Some n \<Longrightarrow> sh_unused n \<Longrightarrow> forest_wf nodes \<Longrightarrow> trims nodes (unlink_node path nodes)"
proof (induction path arbitrary: nodes)
  case (Cons t q)
  note below = Cons.IH
  show ?case
  proof (cases "q = []")
    case True
    have "trims nodes (remove_first (\<lambda>node. sh_topic node = t) nodes)"
      using Cons.prems True
    proof (induction nodes)
      case (Cons b bs)
      then show ?case using trims_drop [of b bs] trims_Cons [of bs _ b] by (auto simp: forest_wf_Cons)
    qed (simp add: trims_refl)
    then show ?thesis using True by (simp add: unlink_single)
  next
    case False
    have "trims nodes (update_first (\<lambda>node. sh_topic node = t) (\<lambda>node. set_children (unlink_node q (sh_children node)) node) nodes)"
      using Cons.prems
    proof (induction nodes)
      case (Cons b bs)
      then show ?case using trims_children [OF below, of b bs] False trims_Cons [of bs _ b]
        by (auto simp: forest_wf_Cons)
    qed (simp add: trims_refl)
    then show ?thesis using False by (simp add: unlink_Cons)
  qed
qed simp

lemma prune_loop_trims:
  "node_at nodes path = Some n \<Longrightarrow> sh_unused n \<Longrightarrow> forest_wf nodes \<Longrightarrow> trims nodes (prune_loop nodes path)"
proof (induction nodes path arbitrary: n rule: prune_loop.induct)
  case (1 nodes path)
  let ?ns = "unlink_node path nodes"
  have t: "trims nodes ?ns" by (rule unlink_trims [OF "1.prems"])
  show ?case
  proof (cases "tmp_remove_subs nodes path")
    case (Pair ns h)
    have ns: "ns = nodes \<and> h = None \<or> ns = ?ns"
      using Pair "1.prems" by (auto simp: tmp_remove_subs_def Let_def split: if_splits option.splits)
    show ?thesis
    proof (cases h)
      case None
      then show ?thesis using Pair ns t trims_refl by (subst prune_loop.simps) auto
    next
      case (Some hier)
      then obtain par where par: "node_at ns hier = Some par" "sh_unused par" and ns': "ns = ?ns"
        using Pair ns by (auto simp: tmp_remove_subs_def Let_def split: if_splits option.splits)
      have wf: "forest_wf ns" using t "1.prems"(3) ns' by (simp add: trims_def)
      have "trims ns (prune_loop ns hier)"
        using "1.IH" [OF Pair [symmetric] Some par wf] .
      then show ?thesis using Pair Some t ns' trims_trans by (subst prune_loop.simps) auto
    qed
  qed
qed

section \<open>Removing a leaf\<close>

lemma set_subs_sel [simp]:
  "sh_topic (set_subs s n) = sh_topic n" "sh_subs (set_subs s n) = s" "sh_children (set_subs s n) = sh_children n"
  "sh_retained (set_subs s n) = sh_retained n"
  by (simp_all add: set_subs_def)

text \<open>A change of the subscribers at some nodes.\<close>

definition relists :: "string list set \<Rightarrow> ((ctxid \<times> int) list \<Rightarrow> (ctxid \<times> int) list) \<Rightarrow> subhier list \<Rightarrow> subhier list \<Rightarrow> bool" where
  "relists S g nodes nodes' \<longleftrightarrow>
     (\<forall>p. subs_at nodes' p = (if p \<in> S then g (subs_at nodes p) else subs_at nodes p))
     \<and> sh_topic ` set nodes' \<subseteq> sh_topic ` set nodes \<and> (forest_wf nodes \<longrightarrow> forest_wf nodes')
     \<and> (list_all hash_last nodes \<longrightarrow> list_all hash_last nodes')
     \<and> (list_all tree_ok nodes \<longrightarrow> list_all tree_ok nodes') \<and> forest_refs nodes' = forest_refs nodes"

lemma relists_none: "relists {} g nodes nodes"
  by (simp add: relists_def)

lemma relists_here:
  assumes "\<And>subs. leaves_ok subs \<Longrightarrow> leaves_ok (g subs)"
  shows "relists {[sh_topic b]} g (b # bs) (set_subs (g (sh_subs b)) b # bs)"
proof -
  have "subs_at (set_subs (g (sh_subs b)) b # bs) p = (if p = [sh_topic b] then g (subs_at (b # bs) p) else subs_at (b # bs) p)" for p
    by (cases p) (auto simp: subs_below_def)
  then show ?thesis
    using assms tree_ok_node [of b] tree_ok_node [of "set_subs (g (sh_subs b)) b"]
      tree_refs_node [of b] tree_refs_node [of "set_subs (g (sh_subs b)) b"]
      hash_last_node [of b] hash_last_node [of "set_subs (g (sh_subs b)) b"]
    by (auto simp: relists_def forest_wf_Cons)
qed

lemma relists_children:
  assumes "relists {q} g (sh_children b) ch" and "q \<noteq> []"
  shows "relists {sh_topic b # q} g (b # bs) (set_children ch b # bs)"
proof -
  have "subs_at (set_children ch b # bs) p = (if p = sh_topic b # q then g (subs_at (b # bs) p) else subs_at (b # bs) p)" for p
    using assms by (cases p) (auto simp: subs_below_def relists_def)
  then show ?thesis
    using assms tree_ok_node [of b] tree_refs_node [of b] hash_last_node [of b] hash_last_node [of "set_children ch b"]
    by (auto simp: relists_def forest_wf_Cons tree_refs_set_children tree_ok_set_children)
qed

lemma relists_Cons:
  assumes "relists {t # q} g bs bs'" and "sh_topic b \<noteq> t"
  shows "relists {t # q} g (b # bs) (b # bs')"
proof -
  have "subs_at (b # bs') p = (if p = t # q then g (subs_at (b # bs) p) else subs_at (b # bs) p)" for p
    using assms by (cases p) (auto simp: relists_def)
  then show ?thesis using assms(1) unfolding relists_def forest_wf_Cons by auto
qed

lemma relists_trims:
  assumes "relists S g a b" and "trims b c"
  shows "relists S g a c"
  unfolding relists_def
proof (intro conjI allI)
  show "subs_at c p = (if p \<in> S then g (subs_at a p) else subs_at a p)" for p
    using assms unfolding relists_def trims_def by metis
  show "sh_topic ` set c \<subseteq> sh_topic ` set a" using assms unfolding relists_def trims_def by (meson subset_trans)
qed (use assms in \<open>unfold relists_def trims_def, argo\<close>)+

lemma relists_insert:
  assumes "relists {p} g a b" and "relists S g b c" and "p \<notin> S"
  shows "relists (insert p S) g a c"
  unfolding relists_def
proof (intro conjI allI)
  show "subs_at c q = (if q \<in> insert p S then g (subs_at a q) else subs_at a q)" for q
    using assms unfolding relists_def by (metis insert_iff empty_iff)
  show "sh_topic ` set c \<subseteq> sh_topic ` set a" using assms unfolding relists_def by (meson subset_trans)
qed (use assms in \<open>unfold relists_def, argo\<close>)+

lemma upd_node_relists:
  assumes "\<And>subs. leaves_ok subs \<Longrightarrow> leaves_ok (g subs)"
  shows "node_at nodes path \<noteq> None \<Longrightarrow> relists {path} g nodes (upd_node_at (\<lambda>node. set_subs (g (sh_subs node)) node) path nodes)"
proof (induction path arbitrary: nodes)
  case (Cons t q)
  note below = Cons.IH
  let ?f = "\<lambda>node. if q = [] then set_subs (g (sh_subs node)) node
     else set_children (upd_node_at (\<lambda>node. set_subs (g (sh_subs node)) node) q (sh_children node)) node"
  have "relists {t # q} g nodes (update_first (\<lambda>node. sh_topic node = t) ?f nodes)" using Cons.prems
  proof (induction nodes)
    case (Cons b bs)
    then show ?case
      using relists_here [OF assms, where b = b and bs = bs] relists_children [OF below, where b = b and bs = bs]
        relists_Cons [of t q g bs _ b]
      by (cases "sh_topic b = t") auto
  qed simp
  then show ?case by simp
qed simp

lemma upd_node_at_cong:
  "node_at nodes path = Some n \<Longrightarrow> f n = h n \<Longrightarrow> upd_node_at f path nodes = upd_node_at h path nodes"
proof (induction path arbitrary: nodes)
  case (Cons t q)
  note below = Cons.IH
  let ?u = "\<lambda>f node. if q = [] then f node else set_children (upd_node_at f q (sh_children node)) node"
  have "update_first (\<lambda>node. sh_topic node = t) (?u f) nodes = update_first (\<lambda>node. sh_topic node = t) (?u h) nodes"
    using Cons.prems
  proof (induction nodes)
    case (Cons b bs)
    then show ?case using below [of "sh_children b"] by (cases "sh_topic b = t"; cases "q = []") auto
  qed simp
  then show ?case by simp
qed simp

section \<open>The subscriptions of one client\<close>

text \<open>
  A slot holds the path of a node exactly when the client is a subscriber there, and there is one
  slot for it.
\<close>

definition used_slots :: "string list option list \<Rightarrow> string list option list" where
  "used_slots slots = filter (\<lambda>s. s \<noteq> None) slots"

definition slots_ok :: "mosquitto_db \<Rightarrow> bool" where
  "slots_ok db \<longleftrightarrow> (\<forall>p. distinct (map fst (subs_at (db_subs db) p)))
     \<and> (\<forall>c. distinct (used_slots (ctx_subs (db_contexts db c))))
     \<and> (\<forall>c p. Some p \<in> set (ctx_subs (db_contexts db c)) \<longleftrightarrow> c \<in> fst ` set (subs_at (db_subs db) p))"

definition without :: "ctxid \<Rightarrow> (ctxid \<times> int) list \<Rightarrow> (ctxid \<times> int) list" where
  "without c subs = filter (\<lambda>(d, _). d \<noteq> c) subs"

lemma leaves_ok_without: "leaves_ok subs \<Longrightarrow> leaves_ok (without c subs)"
  by (auto simp: leaves_ok_def without_def)

lemma without_absent: "c \<notin> fst ` set subs \<Longrightarrow> without c subs = subs"
  by (induction subs) (auto simp: without_def)

lemma remove_leaf_without:
  "distinct (map fst subs) \<Longrightarrow>
   (case find (\<lambda>(d, _). d = c) subs of None \<Rightarrow> subs | Some leaf \<Rightarrow> remove1 leaf subs) = without c subs"
proof (induction subs)
  case (Cons x xs)
  note absent = without_absent [of c xs]
  have "find (\<lambda>(d, _). d = c) xs = Some leaf \<Longrightarrow> fst x \<noteq> c \<Longrightarrow> leaf \<noteq> x" for leaf
    by (auto simp: find_Some_iff)
  then show ?case using Cons absent by (cases x) (auto simp: without_def split: option.splits)
qed (simp add: without_def)

lemma clean_slot_some:
  assumes wf: "forest_wf (db_subs db)" and d: "distinct (map fst (subs_at (db_subs db) path))"
    and c: "c \<in> fst ` set (subs_at (db_subs db) path)"
  shows "\<exists>nodes n. clean_slot c (Some path) db = db\<lparr>db_subscription_count := n, db_subs := nodes\<rparr>
     \<and> relists {path} (without c) (db_subs db) nodes"
proof -
  obtain node where node: "node_at (db_subs db) path = Some node" "sh_subs node = subs_at (db_subs db) path"
    using c by (cases "node_at (db_subs db) path") (auto simp: subs_at_def)
  obtain leaf where leaf: "find (\<lambda>(d, _). d = c) (sh_subs node) = Some leaf"
    using c node(2) by (cases "find (\<lambda>(d, _). d = c) (sh_subs node)") (auto simp: find_None_iff)
  let ?ns = "upd_node_at (\<lambda>node. set_subs (remove1 leaf (sh_subs node)) node) path (db_subs db)"
  have "?ns = upd_node_at (\<lambda>node. set_subs (without c (sh_subs node)) node) path (db_subs db)"
    by (rule upd_node_at_cong [OF node(1)]) (use remove_leaf_without [OF d, of c] leaf node(2) in simp)
  then have r: "relists {path} (without c) (db_subs db) ?ns"
    using upd_node_relists [OF leaves_ok_without, where nodes = "db_subs db" and path = path] node(1) by simp
  have t: "trims ?ns (prune_loop ?ns path)" if "node_at ?ns path = Some n" "sh_unused n" for n
    by (rule prune_loop_trims [OF that]) (use r wf in \<open>simp add: relists_def\<close>)
  let ?k = "db_subscription_count db - 1"
  have "clean_slot c (Some path) db = db\<lparr>db_subscription_count := ?k, db_subs :=
      (case node_at ?ns path of None \<Rightarrow> ?ns
       | Some n \<Rightarrow> if sh_unused n \<and> sh_has_parent n then prune_loop ?ns path else ?ns)\<rparr>"
    using node(1) leaf by (simp add: clean_slot_def Let_def split: option.split)
  moreover have "relists {path} (without c) (db_subs db)
      (case node_at ?ns path of None \<Rightarrow> ?ns
       | Some n \<Rightarrow> if sh_unused n \<and> sh_has_parent n then prune_loop ?ns path else ?ns)"
    using r relists_trims [OF r t] by (simp split: option.split)
  ultimately show ?thesis by blast
qed

lemma clean_slots:
  "forest_wf (db_subs db) \<Longrightarrow> distinct (used_slots slots) \<Longrightarrow>
   \<forall>p. Some p \<in> set slots \<longrightarrow> distinct (map fst (subs_at (db_subs db) p)) \<and> c \<in> fst ` set (subs_at (db_subs db) p) \<Longrightarrow>
   \<exists>nodes n. foldl (\<lambda>db slot. clean_slot c slot db) db slots = db\<lparr>db_subscription_count := n, db_subs := nodes\<rparr>
     \<and> relists {p. Some p \<in> set slots} (without c) (db_subs db) nodes"
proof (induction slots arbitrary: db)
  case Nil
  show ?case by (intro exI [of _ "db_subs db"] exI [of _ "db_subscription_count db"]) (simp add: relists_none)
next
  case (Cons s slots)
  show ?case
  proof (cases s)
    case None
    then show ?thesis using Cons by (simp add: clean_slot_def used_slots_def)
  next
    case (Some path)
    obtain ns n where 1: "clean_slot c (Some path) db = db\<lparr>db_subscription_count := n, db_subs := ns\<rparr>"
      "relists {path} (without c) (db_subs db) ns"
      using clean_slot_some [OF Cons.prems(1), of path c] Cons.prems(3) Some by auto
    let ?db = "db\<lparr>db_subscription_count := n, db_subs := ns\<rparr>"
    have path: "Some path \<notin> set slots" "distinct (used_slots slots)" using Cons.prems(2) Some by (auto simp: used_slots_def)
    have "subs_at ns p = subs_at (db_subs db) p" if "Some p \<in> set slots" for p using 1(2) path(1) that by (auto simp: relists_def)
    moreover have "forest_wf ns" using 1(2) Cons.prems(1) by (simp add: relists_def)
    ultimately obtain ns2 n2 where 2: "foldl (\<lambda>db slot. clean_slot c slot db) ?db slots = ?db\<lparr>db_subscription_count := n2, db_subs := ns2\<rparr>"
      "relists {p. Some p \<in> set slots} (without c) ns ns2"
      using Cons.IH [of ?db, OF _ path(2)] Cons.prems(3) by auto
    have "{p. Some p \<in> set (s # slots)} = insert path {p. Some p \<in> set slots}" using Some by auto
    then have "relists {p. Some p \<in> set (s # slots)} (without c) (db_subs db) ns2"
      using relists_insert [OF 1(2) 2(2)] path(1) by simp
    then show ?thesis using 1(1) 2(1) Some by auto
  qed
qed

lemma clean_session_relists:
  assumes "forest_wf (db_subs db)" and "slots_ok db"
  shows "\<exists>nodes n. mqtt3_subs_clean_session db c =
      (MOSQ_ERR_SUCCESS, upd_ctx c (\<lambda>m. m\<lparr>ctx_subs := []\<rparr>) (db\<lparr>db_subscription_count := n, db_subs := nodes\<rparr>))
    \<and> relists UNIV (without c) (db_subs db) nodes"
proof -
  let ?S = "{p. Some p \<in> set (ctx_subs (db_contexts db c))}"
  obtain ns n where r: "foldl (\<lambda>db slot. clean_slot c slot db) db (ctx_subs (db_contexts db c)) = db\<lparr>db_subscription_count := n, db_subs := ns\<rparr>"
    "relists ?S (without c) (db_subs db) ns"
    using clean_slots [OF assms(1), of "ctx_subs (db_contexts db c)" c] assms(2) by (auto simp: slots_ok_def)
  have "without c (subs_at (db_subs db) p) = subs_at (db_subs db) p" if "p \<notin> ?S" for p
    using that assms(2) by (simp add: slots_ok_def without_absent)
  then have "relists UNIV (without c) (db_subs db) ns" using r(2) by (auto simp: relists_def)
  then show ?thesis using r(1) by (auto simp: mqtt3_subs_clean_session_def)
qed

section \<open>Slots are kept\<close>

lemma sub_add_contexts:
  "sub_add db c qos path node tokens = (rc, db', node') \<Longrightarrow>
   (rc, db') = (case sub_add_leaf db c qos (path @ tokens) (subs_below node tokens) of (rc, db, _) \<Rightarrow> (rc, db))"
  "sub_add_branch db c qos path nodes token tokens = (rc, db', nodes') \<Longrightarrow>
   (rc, db') = (case sub_add_leaf db c qos (path @ token # tokens) (subs_at nodes (token # tokens)) of (rc, db, _) \<Rightarrow> (rc, db))"
  by (induction db c qos path node tokens and db c qos path nodes token tokens arbitrary: rc db' node' and rc db' nodes'
      rule: sub_add_sub_add_branch.induct)
    (auto simp: empty_node_below split: prod.splits if_splits)

lemma sub_add_top_contexts:
  "sub_add_top db c qos nodes tokens = Some (rc, db', nodes') \<Longrightarrow>
   (rc, db') = (case sub_add_leaf db (Some c) qos (hd tokens # tokens) (subs_at nodes (hd tokens # tokens)) of (rc, db, _) \<Rightarrow> (rc, db))"
proof (induction nodes arbitrary: nodes')
  case (Cons b bs)
  obtain r db1 n where a: "sub_add db (Some c) qos [hd tokens] b tokens = (r, db1, n)" using prod_cases3 by blast
  show ?case
  proof (cases "sh_topic b = hd tokens")
    case True
    then show ?thesis using Cons.prems a sub_add_contexts(1) [OF a] by simp
  next
    case False
    then obtain ns where "sub_add_top db c qos bs tokens = Some (rc, db', ns)"
      using Cons.prems by (auto split: option.splits)
    from Cons.IH [OF this] show ?thesis using False by simp
  qed
qed simp

lemma mqtt3_sub_add_contexts:
  assumes "nul_free f" and "forest_wf (db_subs db)"
  shows "db_contexts (snd (mqtt3_sub_add db c f qos)) =
    db_contexts (fst (snd (sub_add_leaf db (Some c) qos (filter_path f) (sub_lookup db f))))"
proof -
  let ?t = "topic_levels f"
  show ?thesis
  proof (cases "sub_add_top db c qos (db_subs db) ?t")
    case None
    obtain r db1 n where b: "sub_add db (Some c) qos [hd ?t] (Subhier (hd ?t) [] [] None True) ?t = (r, db1, n)" using prod_cases3 by blast
    have "hd ?t \<notin> sh_topic ` set (db_subs db)"
      using sub_add_top_table [OF assms(2), where db = db and c = c and qos = qos and tokens = ?t] None by simp
    then have "sub_lookup db f = []" using subs_at_absent by (simp add: sub_lookup_def filter_path_def)
    then show ?thesis using None b sub_add_contexts(1) [OF b]
      by (simp add: mqtt3_sub_add_def sub_topic_tokenise_eq [OF assms(1)] filter_path_def empty_node_below Let_def split: prod.splits)
  next
    case (Some x)
    obtain r db1 ns where x: "x = (r, db1, ns)" using prod_cases3 by blast
    show ?thesis using Some sub_add_top_contexts [OF Some [unfolded x]] x
      by (simp add: mqtt3_sub_add_def sub_topic_tokenise_eq [OF assms(1)] filter_path_def sub_lookup_def Let_def split: prod.splits)
  qed
qed

lemma add_sub_slot_set: "Some q \<in> set (add_sub_slot p slots) \<longleftrightarrow> q = p \<or> Some q \<in> set slots"
  by (induction p slots rule: add_sub_slot.induct) auto

lemma add_sub_slot_distinct:
  "distinct (used_slots slots) \<Longrightarrow> Some p \<notin> set slots \<Longrightarrow> distinct (used_slots (add_sub_slot p slots))"
  by (induction p slots rule: add_sub_slot.induct) (auto simp: add_sub_slot_set used_slots_def)

lemma update_first_fst: "map fst (update_first P (\<lambda>(d, _). (d, q)) subs) = map fst subs"
  by (induction subs) auto

lemma slots_ok_sub_add:
  assumes "slots_ok db" and "nul_free f" and "forest_wf (db_subs db)"
  shows "slots_ok (snd (mqtt3_sub_add db c f qos))"
proof -
  let ?db = "snd (mqtt3_sub_add db c f qos)"
  note paths = sub_add_paths(2) [OF assms(3,2), of c qos]
  note ctx = mqtt3_sub_add_contexts [OF assms(2,3), of c qos]
  have subs: "subs_at (db_subs db) (filter_path f) = sub_lookup db f" by (simp add: sub_lookup_def)
  show ?thesis
  proof (cases "ctx_id (db_contexts db c)")
    case None
    then have "db_contexts ?db = db_contexts db" "subs_at (db_subs ?db) p = subs_at (db_subs db) p" for p
      using ctx paths by (simp_all add: sub_add_leaf_def leaf_add_def)
    then show ?thesis using assms(1) by (simp add: slots_ok_def)
  next
    case (Some client)
    let ?same = "\<lambda>(d, _). ctx_id (db_contexts db d) = Some client"
    show ?thesis
    proof (cases "list_ex ?same (sub_lookup db f)")
      case True
      then have "db_contexts ?db = db_contexts db" "map fst (subs_at (db_subs ?db) p) = map fst (subs_at (db_subs db) p)" for p
        using ctx paths Some by (simp_all add: sub_add_leaf_def leaf_add_def subs Let_def update_first_fst)
      then show ?thesis using assms(1) unfolding slots_ok_def by (metis set_map)
    next
      case False
      have new: "subs_at (db_subs ?db) p = (if p = filter_path f then sub_lookup db f @ [(c, qos)] else subs_at (db_subs db) p)" for p
        using paths Some False by (simp add: leaf_add_def subs Let_def)
      have ctxs: "db_contexts ?db = (db_contexts db)(c := (db_contexts db c)\<lparr>ctx_subs := add_sub_slot (filter_path f) (ctx_subs (db_contexts db c))\<rparr>)"
        using ctx Some False by (simp add: sub_add_leaf_def Let_def)
      have absent: "c \<notin> fst ` set (sub_lookup db f)" using False Some by (auto simp: list_ex_iff)
      then have "Some (filter_path f) \<notin> set (ctx_subs (db_contexts db c))" using assms(1) subs by (simp add: slots_ok_def)
      moreover have "distinct (map fst (sub_lookup db f))" using assms(1) unfolding slots_ok_def sub_lookup_def by blast
      ultimately show ?thesis using assms(1) absent subs
        by (auto simp: slots_ok_def ctxs new add_sub_slot_set add_sub_slot_distinct)
    qed
  qed
qed

lemma sub_remove_contexts:
  "sub_remove db c path node tokens = (db', node') \<Longrightarrow> db' = fst (sub_remove_leaf db c (path @ tokens) (subs_below node tokens))"
  "sub_remove_branch db c path nodes token tokens = (db', nodes') \<Longrightarrow>
   db' = fst (sub_remove_leaf db c (path @ token # tokens) (subs_at nodes (token # tokens)))"
  by (induction db c path node tokens and db c path nodes token tokens arbitrary: db' node' and db' nodes'
      rule: sub_remove_sub_remove_branch.induct)
    (auto simp: sub_remove_leaf_def [of _ _ _ "[]"] split: prod.splits if_splits)

lemma sub_remove_top_contexts:
  "sub_remove_top db c nodes tokens = (db', nodes') \<Longrightarrow>
   db' = fst (sub_remove_leaf db c (hd tokens # tokens) (subs_at nodes (hd tokens # tokens)))"
proof (induction nodes arbitrary: nodes')
  case (Cons b bs)
  obtain db1 n where a: "sub_remove db c [hd tokens] b tokens = (db1, n)" by fastforce
  obtain db2 ns where t: "sub_remove_top db c bs tokens = (db2, ns)" by fastforce
  show ?case using Cons.prems a t sub_remove_contexts(1) [OF a] Cons.IH by (cases "sh_topic b = hd tokens") auto
qed (simp add: sub_remove_leaf_def)

lemma mqtt3_sub_remove_contexts:
  assumes "nul_free f"
  shows "db_contexts (snd (mqtt3_sub_remove db c f)) = db_contexts (fst (sub_remove_leaf db c (filter_path f) (sub_lookup db f)))"
proof -
  obtain db1 ns where t: "sub_remove_top db c (db_subs db) (topic_levels f) = (db1, ns)" by fastforce
  show ?thesis using t sub_remove_top_contexts [OF t]
    by (simp add: mqtt3_sub_remove_def sub_topic_tokenise_eq [OF assms] filter_path_def sub_lookup_def)
qed

lemma free_slot_set:
  "distinct (used_slots slots) \<Longrightarrow> Some q \<in> set (update_first (\<lambda>s. s = Some p) (\<lambda>_. None) slots) \<longleftrightarrow> Some q \<in> set slots \<and> q \<noteq> p"
  by (induction slots) (auto simp: used_slots_def split: if_splits)

lemma free_slot_distinct:
  "distinct (used_slots slots) \<Longrightarrow> distinct (used_slots (update_first (\<lambda>s. s = Some p) (\<lambda>_. None) slots))"
  by (induction slots) (auto simp: used_slots_def free_slot_set [unfolded used_slots_def])

lemma without_fst: "map fst (without c subs) = filter (\<lambda>d. d \<noteq> c) (map fst subs)"
  by (induction subs) (auto simp: without_def)

lemma slots_ok_without:
  assumes "slots_ok db" and "\<And>p. subs_at (db_subs db') p = (if p \<in> S then without c (subs_at (db_subs db) p) else subs_at (db_subs db) p)"
    and "db_contexts db' = (db_contexts db)(c := m)" and "distinct (used_slots (ctx_subs m))"
    and "\<And>p. Some p \<in> set (ctx_subs m) \<longleftrightarrow> Some p \<in> set (ctx_subs (db_contexts db c)) \<and> p \<notin> S"
  shows "slots_ok db'"
proof -
  have fst: "fst ` set (without c subs) = fst ` set subs - {c}" for subs by (auto simp: without_def)
  have "distinct (map fst (subs_at (db_subs db) p))" for p using assms(1) by (simp add: slots_ok_def)
  then show ?thesis using assms unfolding slots_ok_def by (auto simp: without_fst fst)
qed

lemma slots_ok_sub_remove:
  assumes "slots_ok db" and "nul_free f" and "forest_wf (db_subs db)"
  shows "slots_ok (snd (mqtt3_sub_remove db c f))"
proof -
  let ?db = "snd (mqtt3_sub_remove db c f)" and ?p = "filter_path f" and ?m = "db_contexts db c"
  have subs: "subs_at (db_subs db) ?p = sub_lookup db f" by (simp add: sub_lookup_def)
  have d: "distinct (map fst (sub_lookup db f))" "distinct (used_slots (ctx_subs ?m))"
    "\<And>p. Some p \<in> set (ctx_subs ?m) \<longleftrightarrow> c \<in> fst ` set (subs_at (db_subs db) p)"
    using assms(1) unfolding slots_ok_def sub_lookup_def by blast+
  have at: "subs_at (db_subs ?db) p = (if p \<in> {?p} then without c (subs_at (db_subs db) p) else subs_at (db_subs db) p)" for p
    using sub_remove_paths(2) [OF assms(3,2), of c] remove_leaf_without [OF d(1), of c] by (simp add: leaf_remove_def subs)
  let ?m' = "if c \<in> fst ` set (sub_lookup db f)
    then ?m\<lparr>ctx_subs := update_first (\<lambda>s. s = Some ?p) (\<lambda>_. None) (ctx_subs ?m)\<rparr> else ?m"
  have "find (\<lambda>(d, _). d = c) (sub_lookup db f) = None \<longleftrightarrow> c \<notin> fst ` set (sub_lookup db f)"
    by (force simp: find_None_iff)
  then have ctx: "db_contexts ?db = (db_contexts db)(c := ?m')"
    using mqtt3_sub_remove_contexts [OF assms(2), of db c]
    by (auto simp: sub_remove_leaf_def split: option.splits)
  show ?thesis
    by (rule slots_ok_without [OF assms(1) at ctx])
      (use d subs in \<open>auto simp: free_slot_set free_slot_distinct\<close>)
qed

lemma slots_ok_clean_session:
  assumes "slots_ok db" and "forest_wf (db_subs db)"
  shows "slots_ok (snd (mqtt3_subs_clean_session db c))"
proof -
  obtain nodes n where r: "mqtt3_subs_clean_session db c =
      (MOSQ_ERR_SUCCESS, upd_ctx c (\<lambda>m. m\<lparr>ctx_subs := []\<rparr>) (db\<lparr>db_subscription_count := n, db_subs := nodes\<rparr>))"
    "relists UNIV (without c) (db_subs db) nodes" using clean_session_relists [OF assms(2,1)] by blast
  show ?thesis
    by (rule slots_ok_without [OF assms(1), of _ UNIV c "(db_contexts db c)\<lparr>ctx_subs := []\<rparr>"])
      (use r in \<open>auto simp: relists_def used_slots_def\<close>)
qed

lemma filter_tree_clean_session:
  assumes "filter_tree (db_subs db)" and "slots_ok db"
  shows "filter_tree (db_subs (snd (mqtt3_subs_clean_session db c)))"
proof -
  obtain nodes n where r: "mqtt3_subs_clean_session db c =
      (MOSQ_ERR_SUCCESS, upd_ctx c (\<lambda>m. m\<lparr>ctx_subs := []\<rparr>) (db\<lparr>db_subscription_count := n, db_subs := nodes\<rparr>))"
    "relists UNIV (without c) (db_subs db) nodes" using clean_session_relists [of db c] assms by (auto simp: filter_tree_def)
  have "subs \<noteq> []" if "without c subs \<noteq> []" for subs using that by (auto simp: without_def)
  then show ?thesis using r assms(1) by (auto simp: filter_tree_def relists_def)
qed

lemma clean_session_inv:
  assumes "broker_inv E db" and "forest_wf (db_subs db)" and "slots_ok db"
  shows "broker_inv E (snd (mqtt3_subs_clean_session db c))"
proof -
  obtain nodes n where r: "mqtt3_subs_clean_session db c =
      (MOSQ_ERR_SUCCESS, upd_ctx c (\<lambda>m. m\<lparr>ctx_subs := []\<rparr>) (db\<lparr>db_subscription_count := n, db_subs := nodes\<rparr>))"
    "relists UNIV (without c) (db_subs db) nodes" using clean_session_relists [OF assms(2,3)] by blast
  let ?db = "upd_ctx c (\<lambda>m. m\<lparr>ctx_subs := []\<rparr>) (db\<lparr>db_subscription_count := n\<rparr>)"
  have "clear_subs ?db = clear_subs db" by simp
  from broker_inv_clear [OF assms(1) this, of nodes]
  have "broker_inv E (?db\<lparr>db_subs := nodes\<rparr>)" using r(2) assms(1) by (simp add: relists_def broker_inv_def)
  moreover have "?db\<lparr>db_subs := nodes\<rparr> = upd_ctx c (\<lambda>m. m\<lparr>ctx_subs := []\<rparr>) (db\<lparr>db_subscription_count := n, db_subs := nodes\<rparr>)"
    by (rule mosquitto_db.equality) (simp_all add: upd_ctx_def)
  ultimately show ?thesis using r(1) by simp
qed

section \<open>Properties\<close>

lemma two_clients_slots: "slots_ok two_clients"
proof -
  have "subs_at (db_subs two_clients) p = []" for p
    by (cases p) (auto simp: two_clients_def mqtt3_db_open_def subs_below_def)
  then show ?thesis
    by (simp add: slots_ok_def) (simp add: two_clients_def mqtt3_db_open_def db_calloc_def context_calloc_def used_slots_def)
qed

lemma two_subscribers_slots: "slots_ok two_subscribers"
  unfolding two_subscribers_def using two_clients_tree
  by (intro slots_ok_sub_add two_clients_slots sub_add_paths(1)) (simp_all add: filter_tree_def)

text \<open>
  C20: Ending a clean session takes the client out of every filter and leaves the other subscribers
  and their order alone.  No pointer to a freed node is followed, nodes that are still in use are
  not unlinked, and slots and tree agree afterwards.
\<close>

theorem clean_session_exact:
  assumes "filter_tree (db_subs db)" and "slots_ok db"
  shows "sub_lookup (snd (mqtt3_subs_clean_session db c)) f = filter (\<lambda>(d, _). d \<noteq> c) (sub_lookup db f)
    \<and> db_aborted (snd (mqtt3_subs_clean_session db c)) = db_aborted db
    \<and> filter_tree (db_subs (snd (mqtt3_subs_clean_session db c)))
    \<and> slots_ok (snd (mqtt3_subs_clean_session db c))"
proof -
  obtain nodes n where "mqtt3_subs_clean_session db c =
      (MOSQ_ERR_SUCCESS, upd_ctx c (\<lambda>m. m\<lparr>ctx_subs := []\<rparr>) (db\<lparr>db_subscription_count := n, db_subs := nodes\<rparr>))"
    "relists UNIV (without c) (db_subs db) nodes" using clean_session_relists [of db c] assms by (auto simp: filter_tree_def)
  then have "sub_lookup (snd (mqtt3_subs_clean_session db c)) f = filter (\<lambda>(d, _). d \<noteq> c) (sub_lookup db f)"
    "db_aborted (snd (mqtt3_subs_clean_session db c)) = db_aborted db"
    by (simp_all add: sub_lookup_def relists_def without_def upd_ctx_def)
  then show ?thesis
    using filter_tree_clean_session [OF assms, of c] slots_ok_clean_session [OF assms(2), of c] assms(1)
    by (simp add: filter_tree_def)
qed

theorem clean_session_exact_witness:
  "sub_lookup two_subscribers ''#'' = [(2, 0)]
   \<and> sub_lookup (snd (mqtt3_subs_clean_session two_subscribers 1)) ''#'' = [(2, 0)]
   \<and> sub_lookup two_subscribers ''s/+/t'' = [(1, 1)]
   \<and> sub_lookup (snd (mqtt3_subs_clean_session two_subscribers 1)) ''s/+/t'' = []"
proof -
  have "sub_lookup two_subscribers ''#'' = [(2, 0)]" "sub_lookup two_subscribers ''s/+/t'' = [(1, 1)]" by code_simp+
  then show ?thesis
    using clean_session_exact [OF two_subscribers_tree two_subscribers_slots, of 1 "''#''"]
      clean_session_exact [OF two_subscribers_tree two_subscribers_slots, of 1 "''s/+/t''"]
    by simp
qed

end
