(* ===== verification/Mosq_Retain.thy ===== *)
theory Mosq_Retain
  imports Mosq_Session
begin

text \<open>
  Retained messages: delivering a message changes nothing in the tree but the retained messages,
  and a retained message is kept at the node of its topic and nowhere else.
\<close>

section \<open>The shape of the tree under delivery\<close>

fun strip :: "subhier \<Rightarrow> subhier" where
  "strip (Subhier t subs children retained parent) = Subhier t subs (map strip children) None parent"

lemma strip_sel [simp]:
  "sh_topic (strip b) = sh_topic b" "sh_subs (strip b) = sh_subs b" "sh_children (strip b) = map strip (sh_children b)"
  by (cases b; simp)+

lemma strip_topics: "map strip xs = map strip ys \<Longrightarrow> map sh_topic xs = map sh_topic ys"
  by (metis (no_types, lifting) comp_apply list.map_comp map_eq_conv strip_sel(1))

lemma subs_at_strip: "subs_at (map strip nodes) p = subs_at nodes p"
proof (induction nodes arbitrary: p rule: forest_induct)
  case (Cons b bs)
  then show ?case by (cases p) (auto simp: subs_below_def)
qed simp

lemma forest_wf_strip: "forest_wf (map strip nodes) = forest_wf nodes"
proof (induction nodes rule: forest_induct)
  case (Cons b bs)
  then show ?case by (simp add: forest_wf_Cons image_image)
qed simp

lemma hash_last_strip: "list_all hash_last (map strip nodes) = list_all hash_last nodes"
proof (induction nodes rule: forest_induct)
  case (Cons b bs)
  have "hash_last (strip b) = hash_last b" using Cons.IH(1) hash_last_node [of b] hash_last_node [of "strip b"] by simp
  then show ?case using Cons.IH(2) by simp
qed simp

lemma same_strip:
  assumes "map strip nodes' = map strip nodes"
  shows "subs_at nodes' p = subs_at nodes p" and "forest_wf nodes' = forest_wf nodes"
    and "list_all hash_last nodes' = list_all hash_last nodes" and "sh_topic ` set nodes' = sh_topic ` set nodes"
    and "node_at nodes' p = None \<longleftrightarrow> node_at nodes p = None"
proof -
  show "subs_at nodes' p = subs_at nodes p" "forest_wf nodes' = forest_wf nodes"
    "list_all hash_last nodes' = list_all hash_last nodes"
    using assms subs_at_strip forest_wf_strip hash_last_strip by metis+
  show "sh_topic ` set nodes' = sh_topic ` set nodes"
    using arg_cong [OF strip_topics [OF assms], of set] by simp
  have "node_at (map strip ns) p = None \<longleftrightarrow> node_at ns p = None" for ns
  proof (induction ns arbitrary: p rule: forest_induct)
    case Nil
    show ?case by (cases p) simp_all
  next
    case (Cons b bs)
    then show ?case by (cases p) (auto simp: node_at_Cons simp del: node_at.simps(2))
  qed
  then show "node_at nodes' p = None \<longleftrightarrow> node_at nodes p = None" using assms by metis
qed

lemma subs_process_strip: "strip (snd (snd (subs_process e db hier source_id topic qos retain stored sr))) = strip hier"
  by (cases hier) (simp add: subs_process_def split_beta)

lemma sub_search_strip:
  "map strip (snd (sub_search e db nodes tokens source_id topic qos retain stored sr)) = map strip nodes"
proof (induction nodes arbitrary: db tokens sr rule: forest_induct)
  case (Cons b bs)
  have ch: "strip (set_children (snd (sub_search e d (sh_children b) ts source_id topic qos retain stored r)) b) = strip b" for d ts r
    using Cons.IH(1) [of d ts r] by (cases b) (simp add: set_children_def)
  have "strip (snd (search_branch e db b tokens source_id topic qos retain stored sr)) = strip b"
    using ch by (simp add: search_branch_def Let_def split_beta subs_process_strip)
  then show ?case using Cons.IH(2) by (simp add: sub_search_Cons split_beta)
qed simp

section \<open>Queueing\<close>

definition topic_ok :: "string \<Rightarrow> bool" where
  "topic_ok topic \<longleftrightarrow> nul_free topic \<and> (\<forall>l \<in> set (levels topic). plain_level l)"

lemma topic_ok_valid: "topic_ok topic \<Longrightarrow> valid_filter (levels topic)"
proof -
  have "\<forall>l \<in> set ls. plain_level l \<Longrightarrow> valid_filter ls" for ls by (induction ls) auto
  then show "topic_ok topic \<Longrightarrow> ?thesis" by (simp add: topic_ok_def)
qed

lemma plain_topic_levels: "topic_ok topic \<Longrightarrow> l \<in> set (topic_levels topic) \<Longrightarrow> plain_level l"
  by (auto simp: topic_ok_def topic_levels_def plain_level_def split: if_splits)

text \<open>The retained message at a path below a list of siblings, and below a node.\<close>

definition retained_at :: "subhier list \<Rightarrow> string list \<Rightarrow> storeid option" where
  "retained_at nodes path = (case node_at nodes path of None \<Rightarrow> None | Some node \<Rightarrow> sh_retained node)"

definition retained_below :: "subhier \<Rightarrow> string list \<Rightarrow> storeid option" where
  "retained_below node path = (if path = [] then sh_retained node else retained_at (sh_children node) path)"

lemma retained_at_simps [simp]:
  "retained_at nodes [] = None" "retained_at [] path = None"
  "retained_at (b # bs) (t # path) = (if sh_topic b = t then retained_below b path else retained_at bs (t # path))"
  by (simp_all add: retained_at_def retained_below_def) (cases path, simp_all add: retained_at_def)

definition exists_below :: "subhier \<Rightarrow> string list \<Rightarrow> bool" where
  "exists_below node path \<longleftrightarrow> path = [] \<or> node_at (sh_children node) path \<noteq> None"

lemma sub_add_retained:
  "sub_add db c qos path node tokens = (rc, db', node') \<Longrightarrow>
   sh_retained node' = sh_retained node \<and> (\<forall>p. retained_below node' p = retained_below node p) \<and> exists_below node' tokens"
  "sub_add_branch db c qos path nodes token tokens = (rc, db', nodes') \<Longrightarrow>
   (\<forall>p. retained_at nodes' p = retained_at nodes p) \<and> node_at nodes' (token # tokens) \<noteq> None"
proof (induction db c qos path node tokens and db c qos path nodes token tokens arbitrary: rc db' node' and rc db' nodes'
    rule: sub_add_sub_add_branch.induct)
  case (1 db c qos path t subs children retained parent)
  then show ?case by (auto simp: retained_below_def exists_below_def split: prod.splits)
next
  case (2 db c qos path t subs children retained parent token tokens)
  obtain r db1 ch where b: "sub_add_branch db c qos path children token tokens = (r, db1, ch)" using prod_cases3 by blast
  then show ?case using "2.IH" [OF b] "2.prems" by (auto simp: retained_below_def exists_below_def simp del: node_at.simps)
next
  case (3 db c qos path token tokens)
  obtain r db1 n where b: "sub_add db c qos (path @ [token]) (Subhier token [] [] None True) tokens = (r, db1, n)" using prod_cases3 by blast
  have t: "sh_topic n = token" using sub_add_table(1) [OF b] by simp
  note IH = "3.IH" [OF b]
  have "retained_below (Subhier token [] [] None True) q = None" for q by (cases q) (simp_all add: retained_below_def)
  then have "retained_at [n] p = retained_at [] p" for p using IH by (cases p) auto
  moreover have "node_at [n] (token # tokens) \<noteq> None" using IH t by (auto simp: exists_below_def node_at_Cons simp del: node_at.simps)
  ultimately show ?case using "3.prems" b by (auto simp del: node_at.simps)
next
  case (4 db c qos path branch branches token tokens)
  show ?case
  proof (cases "sh_topic branch = token")
    case True
    obtain r db1 n where b: "sub_add db c qos (path @ [token]) branch tokens = (r, db1, n)" using prod_cases3 by blast
    have t: "sh_topic n = token" using sub_add_table(1) [OF b] True by simp
    note IH = "4.IH"(1) [OF True b]
    have "retained_at (n # branches) p = retained_at (branch # branches) p" for p using IH t True by (cases p) auto
    moreover have "node_at (n # branches) (token # tokens) \<noteq> None"
      using IH t by (auto simp: exists_below_def node_at_Cons simp del: node_at.simps)
    ultimately show ?thesis using "4.prems" b True by (auto simp del: node_at.simps)
  next
    case False
    obtain r db1 bs where b: "sub_add_branch db c qos path branches token tokens = (r, db1, bs)" using prod_cases3 by blast
    note IH = "4.IH"(2) [OF False b]
    have "retained_at (branch # bs) p = retained_at (branch # branches) p" for p using IH by (cases p) auto
    then show ?thesis using "4.prems" b False IH by (auto simp: node_at_Cons simp del: node_at.simps)
  qed
qed

section \<open>Setting the retained message\<close>

definition retained_as :: "mosquitto_db \<Rightarrow> storeid \<Rightarrow> storeid option" where
  "retained_as db stored = (if store_payload (db_stores db stored) \<noteq> [] then Some stored else None)"

lemma retained_as_grows: "grows db db' \<Longrightarrow> retained_as db' stored = retained_as db stored"
  using static_store [of db' db stored] by (simp add: grows_def retained_as_def store_content_def)

lemma store_payload_deref: "store_payload (db_stores (msg_store_deref db r) s) = store_payload (db_stores db s)"
  using static_store [of "msg_store_deref db r" db s] by (simp add: store_content_def)

lemma subs_retain_retained: "snd (subs_retain db retained topic stored) = retained_as db stored"
  by (simp add: subs_retain_def retained_as_def store_payload_deref Let_def split: option.split)

lemma subs_process_sel:
  "sh_topic (snd (snd (subs_process e db hier source_id topic qos retain stored sr))) = sh_topic hier"
  "sh_children (snd (snd (subs_process e db hier source_id topic qos retain stored sr))) = sh_children hier"
  "sh_retained (snd (snd (subs_process e db hier source_id topic qos retain stored sr))) =
     (if retain \<and> sr then retained_as db stored else sh_retained hier)"
  by (simp_all add: subs_process_def split_beta subs_retain_retained)

lemma search_branch_sel:
  assumes "\<forall>t \<in> set tokens. plain_level t"
    and b'_def: "b' = snd (search_branch e db b tokens source_id topic qos retain stored sr)"
  shows "sh_topic b' = sh_topic b"
    and "sh_retained b' = (if retain \<and> sr \<and> tokens = [sh_topic b] then retained_as db stored else sh_retained b)"
    and "sh_children b' = (if tokens \<noteq> [] \<and> (sh_topic b = hd tokens \<or> sh_topic b = ''+'')
       then snd (sub_search e db (sh_children b) (tl tokens) source_id topic qos retain stored (sr \<and> sh_topic b \<noteq> ''+''))
       else sh_children b)"
proof -
  have "tokens \<noteq> [] \<Longrightarrow> plain_level (hd tokens)" using assms(1) by (cases tokens) auto
  then have plain: "tokens \<noteq> [] \<Longrightarrow> hd tokens \<noteq> ''+''" "tokens \<noteq> [] \<Longrightarrow> hd tokens \<noteq> ''#''"
    by (auto simp: plain_level_def)
  note ret = retained_as_grows [OF sub_search_grows]
  show "sh_topic b' = sh_topic b" by (simp add: b'_def search_branch_def Let_def split_beta subs_process_sel)
  show "sh_retained b' = (if retain \<and> sr \<and> tokens = [sh_topic b] then retained_as db stored else sh_retained b)"
    using plain by (cases tokens) (auto simp: b'_def search_branch_def Let_def split_beta subs_process_sel ret)
  show "sh_children b' = (if tokens \<noteq> [] \<and> (sh_topic b = hd tokens \<or> sh_topic b = ''+'')
       then snd (sub_search e db (sh_children b) (tl tokens) source_id topic qos retain stored (sr \<and> sh_topic b \<noteq> ''+''))
       else sh_children b)"
    by (auto simp: b'_def search_branch_def Let_def split_beta subs_process_sel)
qed

lemma sub_search_retained:
  "\<forall>t \<in> set tokens. plain_level t \<Longrightarrow>
   retained_at (snd (sub_search e db nodes tokens source_id topic qos True stored sr)) p =
     (if sr \<and> p = tokens \<and> node_at nodes p \<noteq> None then retained_as db stored else retained_at nodes p)"
proof (induction nodes arbitrary: db tokens sr p rule: forest_induct)
  case Nil
  show ?case by (cases p) auto
next
  case (Cons b bs)
  let ?r = "search_branch e db b tokens source_id topic qos True stored sr"
  note sel = search_branch_sel [OF Cons.prems refl, of e db b source_id topic qos True stored sr]
  have plain: "\<forall>t \<in> set (tl tokens). plain_level t" "tokens \<noteq> [] \<Longrightarrow> hd tokens \<noteq> ''+''"
    using Cons.prems by (cases tokens; auto simp: plain_level_def)+
  have g: "grows db (fst ?r)"
    using sub_search_grows subs_process_grows grows_trans [OF sub_search_grows subs_process_grows]
    by (simp add: search_branch_def Let_def split_beta grows_refl)
  note ch = Cons.IH(1) [OF plain(1)]
  note IH = Cons.IH(2) [OF Cons.prems, of "fst ?r" sr]
  have b: "retained_below (snd ?r) q = (if sr \<and> sh_topic b # q = tokens \<and> node_at (b # bs) (sh_topic b # q) \<noteq> None
      then retained_as db stored else retained_below b q)" for q
  proof -
    have tk: "sh_topic b # q = tokens \<longleftrightarrow> tokens \<noteq> [] \<and> sh_topic b = hd tokens \<and> q = tl tokens"
      "tokens = [sh_topic b] \<longleftrightarrow> tokens \<noteq> [] \<and> sh_topic b = hd tokens \<and> tl tokens = []" by (cases tokens; auto)+
    have rc: "retained_at (sh_children (snd ?r)) q =
        (if tokens \<noteq> [] \<and> sh_topic b = hd tokens \<and> sr \<and> q = tl tokens \<and> node_at (sh_children b) q \<noteq> None
         then retained_as db stored else retained_at (sh_children b) q)"
      using plain(2) unfolding sel(3) by (simp only: if_distrib [of "\<lambda>x. retained_at x q"] ch split: if_split) (intro conjI impI; auto)
    show ?thesis
    proof (cases "q = []")
      case True
      then show ?thesis using sel(2) tk by (auto simp: retained_below_def node_at_Cons)
    next
      case False
      then show ?thesis unfolding tk retained_below_def rc by (auto simp: node_at_Cons simp del: node_at.simps)
    qed
  qed
  show ?case
  proof (cases p)
    case (Cons x q)
    then show ?thesis using sel(1) b IH retained_as_grows [OF g, of stored]
      by (auto simp: sub_search_Cons split_beta node_at_Cons simp del: node_at.simps)
  qed auto
qed

lemma queue_top_sel:
  assumes b': "b' = snd (queue_top e db b ts source_id topic qos retain stored)"
  shows "sh_topic b' = sh_topic b" and "subs_below b' p = subs_below b p" and "node_wf b \<Longrightarrow> node_wf b'"
    and "hash_last b \<Longrightarrow> plain_level (hd ts) \<Longrightarrow> valid_filter ts \<Longrightarrow> hash_last b'"
proof -
  obtain r db1 b1 where a: "sub_add db None 0 [hd ts] b ts = (r, db1, b1)" using prod_cases3 by blast
  define b2 where "b2 = (if retain then b1 else b)"
  define db2 where "db2 = (if retain then db1 else db)"
  have t: "sh_topic b2 = sh_topic b" and s: "subs_below b2 q = subs_below b q" for q
    using sub_add_table(1) [OF a] by (simp_all add: b2_def leaf_change_def)
  let ?ch = "snd (sub_search e db2 (sh_children b2) ts source_id topic qos retain stored True)"
  have eq: "b' = (if sh_topic b = hd ts then set_children ?ch b2 else b)"
    using a by (simp add: b' queue_top_def b2_def db2_def Let_def split_beta)
  note strip = same_strip [OF sub_search_strip [of e db2 "sh_children b2" ts source_id topic qos retain stored True]]
  show "sh_topic b' = sh_topic b" by (simp add: eq t)
  show "subs_below b' p = subs_below b p" using s [of p] by (auto simp: eq subs_below_def strip(1))
  show "node_wf b'" if "node_wf b"
  proof -
    have "node_wf b2" using sub_add_wf(1) [OF that a] that by (simp add: b2_def)
    then show ?thesis using that strip(2) by (simp add: eq node_wf_children)
  qed
  show "hash_last b'" if "hash_last b" "plain_level (hd ts)" "valid_filter ts"
  proof (cases "sh_topic b = hd ts")
    case True
    have "valid_filter (sh_topic b # ts)" using that True by simp
    then have "hash_last b2" using sub_add_hash(1) [OF that(1) _ a] that(1) by (simp add: b2_def)
    then show ?thesis using strip(3) that(2) True hash_last_node [of b2] hash_last_node [of b'] t
      by (auto simp: eq plain_level_def)
  qed (use that in \<open>simp add: eq\<close>)
qed

lemma queue_top_retained:
  assumes "\<forall>t \<in> set ts. plain_level t" and "sh_topic b = hd ts" and "ts \<noteq> []"
  shows "retained_below (snd (queue_top e db b ts source_id topic qos True stored)) p =
     (if p = ts then retained_as db stored else retained_below b p)"
proof -
  obtain r db1 b1 where a: "sub_add db None 0 [hd ts] b ts = (r, db1, b1)" using prod_cases3 by blast
  note r = sub_add_retained(1) [OF a] and db1 = sub_add_none(1) [OF a]
  note ch = sub_search_retained [OF assms(1), of e db "sh_children b1" source_id topic qos stored True]
  have "node_at (sh_children b1) ts \<noteq> None" using r assms(3) by (simp add: exists_below_def)
  then have "retained_below (set_children (snd (sub_search e db (sh_children b1) ts source_id topic qos True stored True)) b1) p =
     (if p = ts then retained_as db stored else retained_below b1 p)"
    using assms(3) by (auto simp: retained_below_def ch)
  moreover have "retained_below b1 p = retained_below b p" using r by blast
  ultimately show ?thesis using a db1 assms(2) by (simp add: queue_top_def Let_def split_beta)
qed

lemma queue_loop_keeps:
  assumes "plain_level (hd ts)" and "valid_filter ts"
  defines "ns \<equiv> \<lambda>e db nodes source_id topic qos retain stored. snd (queue_loop e db nodes ts source_id topic qos retain stored)"
  shows "subs_at (ns e db nodes source_id topic qos retain stored) p = subs_at nodes p"
    and "sh_topic ` set (ns e db nodes source_id topic qos retain stored) = sh_topic ` set nodes"
    and "forest_wf nodes \<Longrightarrow> forest_wf (ns e db nodes source_id topic qos retain stored)"
    and "list_all hash_last nodes \<Longrightarrow> list_all hash_last (ns e db nodes source_id topic qos retain stored)"
proof -
  have "subs_at (ns e db nodes source_id topic qos retain stored) p = subs_at nodes p
    \<and> sh_topic ` set (ns e db nodes source_id topic qos retain stored) = sh_topic ` set nodes
    \<and> (forest_wf nodes \<longrightarrow> forest_wf (ns e db nodes source_id topic qos retain stored))
    \<and> (list_all hash_last nodes \<longrightarrow> list_all hash_last (ns e db nodes source_id topic qos retain stored))"
  proof (induction nodes arbitrary: db)
    case (Cons b bs)
    let ?r = "queue_top e db b ts source_id topic qos retain stored"
    note sel = queue_top_sel [OF refl, where e = e and db = db and b = b and ts = ts and source_id = source_id and topic = topic
        and qos = qos and retain = retain and stored = stored]
    have step: "ns e db (b # bs) source_id topic qos retain stored = snd ?r # ns e (fst ?r) bs source_id topic qos retain stored"
      by (simp add: ns_def queue_loop_Cons split_beta del: queue_loop.simps)
    have "subs_at (snd ?r # ns e (fst ?r) bs source_id topic qos retain stored) p = subs_at (b # bs) p"
      using sel(1,2) Cons [of "fst ?r"] by (cases p) auto
    then show ?case using sel Cons [of "fst ?r"] assms(1,2) unfolding step
      by (auto simp: forest_wf_Cons node_wf_children)
  qed (simp add: ns_def)
  then show "subs_at (ns e db nodes source_id topic qos retain stored) p = subs_at nodes p"
    "sh_topic ` set (ns e db nodes source_id topic qos retain stored) = sh_topic ` set nodes"
    "forest_wf nodes \<Longrightarrow> forest_wf (ns e db nodes source_id topic qos retain stored)"
    "list_all hash_last nodes \<Longrightarrow> list_all hash_last (ns e db nodes source_id topic qos retain stored)" by blast+
qed

lemma queue_loop_retained:
  assumes "\<forall>t \<in> set ts. plain_level t" and "ts \<noteq> []"
  shows "retained_at (snd (queue_loop e db nodes ts source_id topic qos True stored)) p =
     (if p = hd ts # ts \<and> hd ts \<in> sh_topic ` set nodes then retained_as db stored else retained_at nodes p)"
proof (induction nodes arbitrary: db)
  case (Cons b bs)
  let ?r = "queue_top e db b ts source_id topic qos True stored"
  have t: "sh_topic (snd ?r) = sh_topic b" by (rule queue_top_sel(1) [OF refl])
  have same: "sh_topic b \<noteq> hd ts \<Longrightarrow> ?r = (db, b)" by (simp add: queue_top_def)
  note q = queue_top_retained [OF assms(1) _ assms(2), of b e db source_id topic qos stored]
  show ?case
  proof (cases p)
    case (Cons x y)
    then show ?thesis
      using t q [of y] same Cons.IH [of "fst ?r"] retained_as_grows [OF queue_top_grows [of db e b ts source_id topic qos True stored], of stored]
      by (cases "sh_topic b = hd ts") (auto simp: queue_loop_Cons split_beta simp del: queue_loop.simps)
  qed simp
qed simp

section \<open>The whole database\<close>

definition topics_ok :: "mosquitto_db \<Rightarrow> bool" where
  "topics_ok db \<longleftrightarrow> (\<forall>s t. store_topic (db_stores db s) = Some t \<longrightarrow> topic_ok t)"

lemma topics_ok_static: "db_static db' = db_static db \<Longrightarrow> topics_ok db' = topics_ok db"
  using static_store [of db' db] by (simp add: topics_ok_def store_content_def)

definition broker_ok :: "mosquitto_db \<Rightarrow> bool" where
  "broker_ok db \<longleftrightarrow> broker_inv {#} db \<and> filter_tree (db_subs db) \<and> slots_ok db \<and> topics_ok db"

lemma messages_queue_parts:
  assumes "topic_ok topic"
    and db'_def: "db' = snd (mqtt3_db_messages_queue e db source_id topic qos retain stored)"
  shows "db_subs db' = snd (queue_loop e (msg_store_ref db stored) (db_subs db) (topic_levels topic) source_id topic qos retain stored)"
    and "subs_at (db_subs db') p = subs_at (db_subs db) p" and "filter_tree (db_subs db) \<Longrightarrow> filter_tree (db_subs db')"
proof -
  have nf: "nul_free topic" using assms(1) by (simp add: topic_ok_def)
  show eq: "db_subs db' = snd (queue_loop e (msg_store_ref db stored) (db_subs db) (topic_levels topic) source_id topic qos retain stored)"
    by (simp add: db'_def mqtt3_db_messages_queue_def sub_topic_tokenise_eq [OF nf] split_beta)
  have v: "plain_level (hd (topic_levels topic))" "valid_filter (topic_levels topic)"
    using topic_ok_valid [OF assms(1)] plain_hd_topic_levels valid_filter_topic_levels by auto
  note k = queue_loop_keeps [OF v, where e = e and db = "msg_store_ref db stored" and nodes = "db_subs db" and source_id = source_id
      and topic = topic and qos = qos and retain = retain and stored = stored, folded eq]
  show "subs_at (db_subs db') p = subs_at (db_subs db) p" by (rule k(1))
  show "filter_tree (db_subs db) \<Longrightarrow> filter_tree (db_subs db')"
    unfolding filter_tree_def using k by auto
qed

lemma slots_ok_same:
  assumes "slots_ok db" and "\<And>p. subs_at (db_subs db') p = subs_at (db_subs db) p"
    and "\<And>c. ctx_subs (db_contexts db' c) = ctx_subs (db_contexts db c)"
  shows "slots_ok db'"
  using assms by (simp add: slots_ok_def)

lemma messages_queue_ok:
  assumes "broker_ok db" and "stored \<in> live_stores db" and "qos \<in> {0, 1, 2}" and "topic_ok topic"
    and "store_topic (db_stores db stored) \<noteq> None"
  shows "broker_ok (snd (mqtt3_db_messages_queue e db source_id topic qos retain stored))"
proof -
  let ?db = "snd (mqtt3_db_messages_queue e db source_id topic qos retain stored)"
  note parts = messages_queue_parts [OF assms(4) refl, where e = e and db = db and source_id = source_id and qos = qos
      and retain = retain and stored = stored]
  have g: "grows db ?db" by (rule messages_queue_grows)
  have "slots_ok ?db"
    by (rule slots_ok_same [of db]) (use assms(1) parts g in \<open>auto simp: broker_ok_def grows_def grows_ctx_def\<close>)
  moreover have "topics_ok ?db" using assms(1) topics_ok_static [of ?db db] g by (simp add: broker_ok_def grows_def)
  ultimately show ?thesis
    using assms messages_queue_inv [of "{#}" db stored qos e source_id topic retain] parts(3) by (simp add: broker_ok_def)
qed

section \<open>Sending the retained message of a plain filter\<close>

lemma retain_search_plain:
  "forest_wf nodes \<Longrightarrow> \<forall>t \<in> set tokens. plain_level t \<Longrightarrow> tokens \<noteq> [] \<Longrightarrow>
   retain_search e db nodes tokens c sub_qos level flag = (flag, retain_here e db (retained_at nodes tokens) c sub_qos)"
proof (induction nodes arbitrary: db tokens level flag rule: forest_induct)
  case Nil
  show ?case by (simp add: retain_here_def)
next
  case (Cons b bs)
  have wf: "forest_wf (sh_children b)" "forest_wf bs" "sh_topic b \<notin> sh_topic ` set bs"
    using Cons.prems(1) forest_wf_Cons by auto
  obtain t ts where ts: "tokens = t # ts" using Cons.prems(3) by (cases tokens) auto
  have plain: "t \<noteq> ''#''" "t \<noteq> ''+''" "ts \<noteq> [] \<Longrightarrow> hd ts \<noteq> ''#''" "\<forall>x \<in> set ts. plain_level x"
    using Cons.prems(2) ts by (auto simp: plain_level_def) (cases ts; auto simp: plain_level_def)
  note ch = Cons.IH(1) [OF wf(1) plain(4)]
  note IH = Cons.IH(2) [OF wf(2) Cons.prems(2,3)]
  have "retain_branch e db b last tokens c sub_qos level =
      (if sh_topic b = t then retain_here e db (retained_below b ts) c sub_qos else db)" for last
    using plain ch by (auto simp: retain_branch_def ts retained_below_def)
  moreover have "sh_topic b = t \<Longrightarrow> retained_at bs tokens = None"
  proof -
    have "t \<notin> sh_topic ` set ns \<Longrightarrow> retained_at ns (t # ts) = None" for ns by (induction ns) auto
    then show "sh_topic b = t \<Longrightarrow> retained_at bs tokens = None" using wf(3) ts by simp
  qed
  ultimately show ?case using plain(1) IH by (auto simp: retain_search_Cons ts retain_here_def simp del: retain_search.simps)
qed

section \<open>Properties\<close>

lemma filter_path_topic: "hd (topic_levels topic) # topic_levels topic = filter_path topic"
  by (simp add: filter_path_def)

definition retain_demo :: mosquitto_db where
  "retain_demo =
     snd (mqtt3_db_messages_easy_queue plain_env
       (snd (mqtt3_db_messages_easy_queue plain_env two_clients None (Some ''a'') 1 [1] True)) None (Some ''b'') 1 [2] True)"

text \<open>
  C21: Publishing with the retain flag keeps the message at the node of its topic, replaces the one
  that was there, and removes it when the payload is empty; the retained messages of all other
  topics stay.  The first level of the topic must have a tree, which it has unless the topic starts
  with a dollar.
\<close>

theorem retained_message_kept:
  assumes "topic_ok topic" and "hd (topic_levels topic) \<in> sh_topic ` set (db_subs db)"
  shows "retained_at (db_subs (snd (mqtt3_db_messages_queue e db source_id topic qos True stored))) (filter_path f) =
    (if f \<noteq> topic then retained_at (db_subs db) (filter_path f)
     else if store_payload (db_stores db stored) = [] then None else Some stored)"
proof -
  have "\<forall>t \<in> set (topic_levels topic). plain_level t" using plain_topic_levels [OF assms(1)] by blast
  moreover have "topic_levels topic \<noteq> []" by (simp add: topic_levels_def)
  moreover have "store_payload (db_stores (msg_store_ref db stored) stored) = store_payload (db_stores db stored)"
    using static_store [of "msg_store_ref db stored" db stored] by (simp add: store_content_def)
  ultimately show ?thesis
    using assms(2) filter_path_inj [of f topic]
    by (simp add: messages_queue_parts(1) [OF assms(1) refl] queue_loop_retained filter_path_topic retained_as_def)
qed

theorem retained_message_kept_witness:
  "retained_at (db_subs (snd (mqtt3_db_messages_queue plain_env retain_demo [] ''a'' 1 True 1))) (filter_path ''a'') = Some 1
   \<and> retained_at (db_subs (snd (mqtt3_db_messages_queue plain_env retain_demo [] ''a'' 1 True 1))) (filter_path ''b'') = Some 1"
proof -
  have "hd (topic_levels ''a'') \<in> sh_topic ` set (db_subs retain_demo)" "store_payload (db_stores retain_demo 1) \<noteq> []"
    "retained_at (db_subs retain_demo) (filter_path ''b'') = Some 1" by code_simp+
  then show ?thesis
    using retained_message_kept [of "''a''" retain_demo plain_env "[]" 1 1 "''a''"]
      retained_message_kept [of "''a''" retain_demo plain_env "[]" 1 1 "''b''"]
    by (simp add: topic_ok_def plain_level_def)
qed

text \<open>
  C22: A new subscription without wildcards is sent the retained message of that topic if there is
  one, and nothing else.
\<close>

theorem retained_sent_on_subscribe:
  assumes "topic_ok topic" and "forest_wf (db_subs db)"
  shows "mqtt3_retain_queue e db c topic sub_qos =
    (MOSQ_ERR_SUCCESS,
     case retained_at (db_subs db) (filter_path topic) of
       None \<Rightarrow> db | Some stored \<Rightarrow> snd (retain_process e db stored c sub_qos))"
proof -
  have nf: "nul_free topic" using assms(1) by (simp add: topic_ok_def)
  have plain: "\<forall>t \<in> set (topic_levels topic). plain_level t" using plain_topic_levels [OF assms(1)] by blast
  have ne: "topic_levels topic \<noteq> []" by (simp add: topic_levels_def)
  show ?thesis
  proof (cases "find (\<lambda>node. sh_topic node = hd (topic_levels topic)) (db_subs db)")
    case None
    then have "retained_at (db_subs db) (filter_path topic) = None" by (simp add: retained_at_def filter_path_def)
    then show ?thesis using None by (simp add: mqtt3_retain_queue_def sub_topic_tokenise_eq [OF nf])
  next
    case (Some node)
    then have "node \<in> set (db_subs db)" by (auto simp: find_Some_iff)
    then have "node_wf node" using assms(2) by (simp add: forest_wf_def list_all_iff)
    then have "forest_wf (sh_children node)" by (simp add: node_wf_children)
    moreover have "retained_at (db_subs db) (filter_path topic) = retained_at (sh_children node) (topic_levels topic)"
      using Some ne by (simp add: retained_at_def filter_path_def)
    ultimately show ?thesis using Some retain_search_plain [OF _ plain ne, of "sh_children node" e db c sub_qos 0 0]
      by (simp add: mqtt3_retain_queue_def sub_topic_tokenise_eq [OF nf] retain_here_def)
  qed
qed

theorem retained_sent_on_subscribe_witness:
  "mqtt3_retain_queue plain_env retain_demo 2 ''a'' 1 = (MOSQ_ERR_SUCCESS, snd (retain_process plain_env retain_demo 0 2 1))"
proof -
  have "retained_at (db_subs retain_demo) (filter_path ''a'') = Some 0" "forest_wf (db_subs retain_demo)" by code_simp+
  then show ?thesis using retained_sent_on_subscribe [of "''a''" retain_demo plain_env 2 1]
    by (simp add: topic_ok_def plain_level_def)
qed


end
