(* ===== verification/Mosq_Queue.thy ===== *)
theory Mosq_Queue
  imports Mosq_Retain
begin

text \<open>
  What the operations on the queue of a client do: the bound on its length, the deletion of an
  acknowledged message, the restart after a reconnection, and that writing and releasing return.
\<close>

section \<open>Deleting\<close>

definition msg_key :: "mosquitto_client_msg \<Rightarrow> u16 \<times> mosquitto_msg_direction \<times> storeid \<times> int \<times> bool" where
  "msg_key msg = (cmsg_mid msg, cmsg_direction msg, cmsg_store msg, cmsg_qos msg, cmsg_retain msg)"

abbreviation queue_keys :: "mosquitto_db \<Rightarrow> ctxid \<Rightarrow> (u16 \<times> mosquitto_msg_direction \<times> storeid \<times> int \<times> bool) list" where
  "queue_keys db c \<equiv> map msg_key (ctx_msgs (db_contexts db c))"

definition has_id :: "u16 \<Rightarrow> mosquitto_msg_direction \<Rightarrow> u16 \<times> mosquitto_msg_direction \<times> storeid \<times> int \<times> bool \<Rightarrow> bool" where
  "has_id mid dir key \<longleftrightarrow> fst key = mid \<and> fst (snd key) = dir"

lemma same_msgs_keys: "same_msgs xs ys \<Longrightarrow> map msg_key xs = map msg_key ys"
  unfolding same_msgs_def by (induction rule: list_all2_induct) (auto simp: msg_key_def)

lemma message_remove_keys:
  assumes "i < length (ctx_msgs (db_contexts db c))"
  shows "queue_keys (message_remove db c i) c = take i (queue_keys db c) @ drop (Suc i) (queue_keys db c)"
  using assms by (simp add: message_remove_def unlink_msg_def Let_def same_msgs_keys [OF same_msgs_promote] take_map drop_map)

lemma activate_keys:
  assumes "i < length (ctx_msgs (db_contexts db c))"
  shows "queue_keys (upd_msg c i (activate now) db) c = queue_keys db c"
proof -
  have "same_msgs ((ctx_msgs (db_contexts db c))[i := activate now (ctx_msgs (db_contexts db c) ! i)]) (ctx_msgs (db_contexts db c))"
    by (rule same_msgs_update [OF assms]) (use activate_same in blast)+
  from same_msgs_keys [OF this] show ?thesis by (simp add: upd_msg_contexts)
qed

lemma filter_without_nth:
  assumes "i < length xs"
  shows "filter P xs = filter P (take i xs) @ (if P (xs ! i) then [xs ! i] else []) @ filter P (drop (Suc i) xs)"
  using arg_cong [OF id_take_nth_drop [OF assms], of "filter P"] by simp

text \<open>
  A message with the identifier is deleted if there is one, and no other message.
\<close>

definition deletes :: "u16 \<Rightarrow> mosquitto_msg_direction \<Rightarrow> bool \<Rightarrow> (u16 \<times> mosquitto_msg_direction \<times> storeid \<times> int \<times> bool) list
    \<Rightarrow> (u16 \<times> mosquitto_msg_direction \<times> storeid \<times> int \<times> bool) list \<Rightarrow> bool" where
  "deletes mid dir strict keys keys' \<longleftrightarrow>
     filter (\<lambda>k. \<not> has_id mid dir k) keys' = filter (\<lambda>k. \<not> has_id mid dir k) keys
     \<and> length (filter (has_id mid dir) keys') \<le> length (filter (has_id mid dir) keys)
     \<and> (strict \<longrightarrow> length (filter (has_id mid dir) keys') < length (filter (has_id mid dir) keys))"

lemma deletes_nth:
  assumes "i < length keys" and "has_id mid dir (keys ! i)"
    and "deletes mid dir strict (take i keys @ drop (Suc i) keys) keys'"
  shows "deletes mid dir any keys keys'"
  using assms filter_without_nth [OF assms(1), of "has_id mid dir"] filter_without_nth [OF assms(1), of "\<lambda>k. \<not> has_id mid dir k"]
  by (simp add: deletes_def)

lemma message_delete_loop_keys:
  "deletes mid dir (\<not> deleted \<and> (\<exists>k \<in> set (drop i (queue_keys db c)). has_id mid dir k))
     (queue_keys db c) (queue_keys (message_delete_loop e db c mid dir i n deleted) c)"
proof (induction e db c mid dir i n deleted rule: message_delete_loop.induct)
  case (1 e db c mid dir i n deleted)
  show ?case
  proof (cases "i < length (ctx_msgs (db_contexts db c))")
    case i: True
    let ?tail = "ctx_msgs (db_contexts db c) ! i"
    let ?hit = "cmsg_mid ?tail = mid \<and> cmsg_direction ?tail = dir"
    define db1 where "db1 = (if cmsg_state ?tail = mosq_ms_queued \<and> n + 1 \<le> db_max_inflight db
        then upd_msg c i (activate (env_now e)) db else db)"
    define db2 where "db2 = message_remove db1 c i"
    have loop: "message_delete_loop e db c mid dir i n deleted =
      (if ?hit then if n > db_max_inflight db2 then db2 else message_delete_loop e db2 c mid dir i n True
       else if n + 1 > db_max_inflight db1 \<and> deleted then db1 else message_delete_loop e db1 c mid dir (i + 1) (n + 1) deleted)"
      using i by (subst message_delete_loop.simps) (simp add: Let_def db1_def db2_def)
    have k1: "queue_keys db1 c = queue_keys db c" using activate_keys [OF i] by (simp add: db1_def)
    have len: "i < length (ctx_msgs (db_contexts db1 c))" using k1 i by (metis length_map)
    have key: "has_id mid dir (queue_keys db c ! i) \<longleftrightarrow> ?hit" using i by (simp add: has_id_def msg_key_def)
    have "drop i (queue_keys db c) = queue_keys db c ! i # drop (Suc i) (queue_keys db c)"
      using Cons_nth_drop_Suc [of i "queue_keys db c"] i by simp
    then have rest: "(\<exists>k \<in> set (drop i (queue_keys db c)). has_id mid dir k) \<longleftrightarrow>
        ?hit \<or> (\<exists>k \<in> set (drop (i + 1) (queue_keys db c)). has_id mid dir k)" using key by simp
    have k2: "queue_keys db2 c = take i (queue_keys db c) @ drop (Suc i) (queue_keys db c)"
      using message_remove_keys [OF len] k1 by (simp add: db2_def)
    have same: "deletes mid dir False ks ks" for ks by (simp add: deletes_def)
    note IH1 = "1.IH"(1) [OF i refl refl refl, folded db1_def] and IH2 = "1.IH"(2) [OF i refl refl refl, folded db1_def]
    show ?thesis
    proof (cases ?hit)
      case True
      have "n > db_max_inflight db2 \<or> deletes mid dir False (queue_keys db2 c) (queue_keys (message_delete_loop e db2 c mid dir i n True) c)"
        using IH1 [OF True refl refl] by (auto simp: db2_def)
      then have "deletes mid dir False (queue_keys db2 c) (queue_keys (message_delete_loop e db c mid dir i n deleted) c)"
        using True same [of "queue_keys db2 c"] unfolding loop by presburger
      then show ?thesis using deletes_nth [of i "queue_keys db c" mid dir False] key i True unfolding k2 by simp
    next
      case False
      then show ?thesis unfolding loop rest using same [of "queue_keys db c"] IH2 [OF False] k1 by auto
    qed
  qed (subst message_delete_loop.simps, simp add: deletes_def)
qed

section \<open>The empty database and changes of a connection\<close>

lemma broker_ok_open: "broker_ok (snd (mqtt3_db_open db_calloc))"
proof -
  let ?db = "snd (mqtt3_db_open db_calloc)"
  have c: "db_contexts ?db c = context_calloc" for c by (simp add: mqtt3_db_open_def db_calloc_def)
  have "busy ?db = {}" by (simp add: busy_def c) (simp add: context_calloc_def)
  then have "db_inv {#} ?db"
    by (simp add: db_inv_def all_queue_refs_def store_inv_def c) (simp add: mqtt3_db_open_def db_calloc_def context_calloc_def queue_ok_def queue_wf_def qos12_def)
  moreover have "forest_refs (db_subs ?db) = {#}" "list_all tree_ok (db_subs ?db)" "patterns_wf ?db" "stores_ok ?db" "topics_ok ?db"
    by (simp_all add: mqtt3_db_open_def patterns_wf_def stores_ok_def topics_ok_def db_calloc_def store_calloc_def leaves_ok_def)
  moreover have "slots_ok ?db"
  proof -
    have "subs_at (db_subs ?db) p = []" for p by (cases p) (auto simp: mqtt3_db_open_def subs_below_def)
    then show ?thesis by (simp add: slots_ok_def c) (simp add: context_calloc_def used_slots_def)
  qed
  ultimately show ?thesis using db_open_filter_tree by (simp add: broker_ok_def broker_inv_def retained_ok_def)
qed

lemma broker_ok_conn:
  assumes "broker_ok db" and "ctx_subs (f (db_contexts db c)) = ctx_subs (db_contexts db c)"
    and "same_msgs (ctx_msgs (f (db_contexts db c))) (ctx_msgs (db_contexts db c))"
    and "ctx_last_msg (f (db_contexts db c)) = ctx_last_msg (db_contexts db c)"
    and "ctx_msg_count (f (db_contexts db c)) = ctx_msg_count (db_contexts db c)"
    and "ctx_msg_count12 (f (db_contexts db c)) = ctx_msg_count12 (db_contexts db c)"
    and "ctx_id (db_contexts db c) = None \<longrightarrow> ctx_id (f (db_contexts db c)) = None \<or> queue_wf (db_contexts db c)"
  shows "broker_ok (upd_ctx c f db)"
proof -
  have inv: "broker_inv {#} db" "slots_ok db" "topics_ok db" using assms(1) by (simp_all add: broker_ok_def)
  have "broker_inv {#} (upd_ctx c f db)"
    by (rule broker_inv_same_tree [OF inv(1)]) (use inv(1) assms db_inv_same in \<open>simp_all add: broker_inv_def\<close>)
  moreover have "slots_ok (upd_ctx c f db)" by (rule slots_ok_same [OF inv(2)]) (simp_all add: assms(2))
  moreover have "topics_ok (upd_ctx c f db)" using inv(3) topics_ok_static [of "upd_ctx c f db" db] by simp
  ultimately show ?thesis using assms(1) by (simp add: broker_ok_def)
qed

lemma two_clients_ok: "broker_ok two_clients"
proof -
  have "queue_wf (db_contexts (snd (mqtt3_db_open db_calloc)) c)" for c
    by (simp add: mqtt3_db_open_def db_calloc_def context_calloc_def queue_wf_def qos12_def)
  then show ?thesis unfolding two_clients_def by (intro broker_ok_conn broker_ok_open) simp_all
qed

lemma sub_add_static: "db_static (snd (mqtt3_sub_add db c f qos)) = db_static db"
proof -
  let ?t = "sub_topic_tokenise f"
  obtain r db1 n where b: "sub_add db (Some c) qos [hd ?t] (Subhier (hd ?t) [] [] None True) ?t = (r, db1, n)" using prod_cases3 by blast
  show ?thesis
    using clear_subs_keeps(2) [OF sub_add_frame(1) [OF b]] b
    by (auto simp: mqtt3_sub_add_def Let_def dest!: sub_add_top_frame clear_subs_keeps(2) split: option.split prod.split)
qed

lemma sub_remove_static: "db_static (snd (mqtt3_sub_remove db c f)) = db_static db"
  by (auto simp: mqtt3_sub_remove_def dest!: sub_remove_top_frame clear_subs_keeps(2) split: prod.split)

lemma broker_ok_sub_add:
  assumes "broker_ok db" and "qos \<in> {0, 1, 2}" and "nul_free f" and "valid_filter (levels f)"
  shows "broker_ok (snd (mqtt3_sub_add db c f qos))"
  using assms sub_add_inv [OF _ assms(2), of "{#}" db c f] sub_add_filter_tree [OF _ assms(3,4), of db c qos]
    slots_ok_sub_add [OF _ assms(3), of db c qos] topics_ok_static [OF sub_add_static, of db c f qos]
  by (simp add: broker_ok_def filter_tree_def)

lemma broker_ok_sub_remove:
  assumes "broker_ok db" and "nul_free f"
  shows "broker_ok (snd (mqtt3_sub_remove db c f))"
  using assms sub_remove_inv [of "{#}" db c f] sub_remove_filter_tree [OF _ assms(2), of db c]
    slots_ok_sub_remove [OF _ assms(2), of db c] topics_ok_static [OF sub_remove_static, of db c f]
  by (simp add: broker_ok_def filter_tree_def)

lemma clean_session_static:
  assumes "forest_wf (db_subs db)" and "slots_ok db"
  shows "db_static (snd (mqtt3_subs_clean_session db c)) = db_static db"
  using clean_session_relists [OF assms, of c] by auto

lemma broker_ok_clean_session: "broker_ok db \<Longrightarrow> broker_ok (snd (mqtt3_subs_clean_session db c))"
  using clean_session_inv [of "{#}" db c] filter_tree_clean_session [of db c] slots_ok_clean_session [of db c]
    topics_ok_static [OF clean_session_static, of db c]
  by (simp add: broker_ok_def filter_tree_def)

text \<open>Operations that leave the tree, the slots and the contents of the messages alone.\<close>

lemma broker_ok_frame:
  assumes "broker_ok db" and "\<And>E. db_inv E db \<Longrightarrow> db_inv E db'" and "db_subs db' = db_subs db" and "db_static db' = db_static db"
    and "\<And>c. ctx_subs (db_contexts db' c) = ctx_subs (db_contexts db c)"
  shows "broker_ok db'"
proof -
  have inv: "broker_inv {#} db" "slots_ok db" "topics_ok db" using assms(1) by (simp_all add: broker_ok_def)
  have "broker_inv {#} db'" by (rule broker_inv_same_tree [OF inv(1) _ assms(3,4)]) (use inv(1) assms(2) in \<open>simp add: broker_inv_def\<close>)
  moreover have "slots_ok db'" by (rule slots_ok_same [OF inv(2)]) (simp_all add: assms(3,5))
  ultimately show ?thesis using assms(1,3) topics_ok_static [OF assms(4)] by (simp add: broker_ok_def)
qed

section \<open>The operations on queues\<close>

text \<open>What the operations on queues do not touch.\<close>

definition queue_frame where
  "queue_frame db = (db_subs db, db_static db, \<lambda>c. (ctx_subs (db_contexts db c), ctx_id (db_contexts db c)))"

lemma broker_ok_same_frame:
  assumes "broker_ok db" and "broker_inv {#} db'" and "queue_frame db' = queue_frame db"
  shows "broker_ok db'"
  using assms slots_ok_same [of db db'] topics_ok_static [of db' db] by (simp add: broker_ok_def queue_frame_def fun_eq_iff)

lemma broker_ok_queue_frame:
  assumes "broker_ok db" and "\<And>E. db_inv E db \<Longrightarrow> db_inv E db'" and "queue_frame db' = queue_frame db"
  shows "broker_ok db'"
  by (rule broker_ok_frame [OF assms(1,2)]) (use assms(3) in \<open>simp_all add: queue_frame_def fun_eq_iff\<close>)

lemma queue_frame_upd_ctx [simp]:
  "ctx_subs (f (db_contexts db c)) = ctx_subs (db_contexts db c) \<Longrightarrow> ctx_id (f (db_contexts db c)) = ctx_id (db_contexts db c)
   \<Longrightarrow> queue_frame (upd_ctx c f db) = queue_frame db"
  by (simp add: queue_frame_def fun_eq_iff)

lemma queue_frame_refs [simp]:
  "queue_frame (msg_store_ref db s) = queue_frame db" "queue_frame (msg_store_deref db s) = queue_frame db"
  "queue_frame (db\<lparr>db_persistence_changes := a\<rparr>) = queue_frame db" "queue_frame (db\<lparr>db_msgs_dropped := b\<rparr>) = queue_frame db"
  "queue_frame (db\<lparr>db_aborted := x\<rparr>) = queue_frame db" "queue_frame (upd_store s (add_dest_id client) db) = queue_frame db"
  by (simp_all add: queue_frame_def)

lemma queue_frame_upd_msg [simp]: "queue_frame (upd_msg c i f db) = queue_frame db"
  by (simp add: upd_msg_def)

lemma queue_frame_remove [simp]: "queue_frame (message_remove db c i) = queue_frame db"
  by (simp add: message_remove_def unlink_msg_def Let_def)

lemma queue_frame_insert: "queue_frame (snd (mqtt3_db_message_insert e db c mid dir qos retain stored)) = queue_frame db"
proof -
  have "ctx_subs (link_msg msg m) = ctx_subs m" "ctx_id (link_msg msg m) = ctx_id m"
    "ctx_subs (wake_lazy_bridge m) = ctx_subs m" "ctx_id (wake_lazy_bridge m) = ctx_id m" for msg m
    by (simp_all add: link_msg_def wake_lazy_bridge_def Let_def split: last_ptr.split option.split)
  then show ?thesis
    by (simp add: mqtt3_db_message_insert_def enqueue_msg_def Let_def split: option.split insert_decision.split)
qed

lemma queue_frame_delete: "queue_frame (message_delete_loop e db c mid dir i n deleted) = queue_frame db"
proof (induction e db c mid dir i n deleted rule: message_delete_loop.induct)
  case (1 e db c mid dir i n deleted)
  show ?case
  proof (cases "i < length (ctx_msgs (db_contexts db c))")
    case True
    note IH = "1.IH"(1) [OF True refl refl refl _ refl refl] "1.IH"(2) [OF True refl refl refl]
    show ?thesis using IH True by (subst message_delete_loop.simps) (auto simp: Let_def)
  qed (subst message_delete_loop.simps, simp)
qed

lemma queue_frame_messages_delete: "queue_frame (snd (mqtt3_db_messages_delete db c)) = queue_frame db"
proof -
  have "queue_frame (foldl msg_store_deref db ss) = queue_frame db" for ss by (induction ss arbitrary: db) simp_all
  then show ?thesis by (simp add: mqtt3_db_messages_delete_def messages_delete_loop_foldl)
qed

lemma queue_frame_timeout: "queue_frame (timeout_loop now threshold db cs) = queue_frame db"
  by (induction now threshold db cs rule: timeout_loop.induct) simp_all

lemma queue_frame_conn: "conn_frame m = conn_frame (db_contexts db c) \<Longrightarrow> queue_frame (upd_ctx c (\<lambda>_. m) db) = queue_frame db"
  using conn_frame_sel [of m] conn_frame_sel [of "db_contexts db c"] by (auto simp: queue_frame_def fun_eq_iff)

lemma queue_frame_write:
  "message_write_loop e db c i k = Some (rc, db') \<Longrightarrow> queue_frame db' = queue_frame db"
proof (induction e db c i k arbitrary: rc db' rule: message_write_loop.induct)
  case (1 e db c i k)
  show ?case
  proof (cases "i < length (ctx_msgs (db_contexts db c))")
    case i: True
    let ?t = "ctx_msgs (db_contexts db c) ! i"
    show ?thesis
    proof (cases "cmsg_state ?t = mosq_ms_queued")
      case True
      note IH = "1.IH"(3,4) [OF i refl refl]
      show ?thesis using "1.prems" IH i True
        by (subst (asm) message_write_loop.simps) (auto simp: Let_def split: if_splits)
    next
      case False
      obtain r m t where w: "write_msg e db (db_contexts db c) ?t = (r, m, t)" using prod_cases3 by blast
      note f = queue_frame_conn [OF write_msg_conn_frame [OF w]]
      note IH = "1.IH"(1) [OF i refl refl False w [symmetric] refl refl] "1.IH"(2) [OF i refl refl False w [symmetric] refl refl]
      show ?thesis using "1.prems" IH i False w f
        by (subst (asm) message_write_loop.simps) (auto simp: Let_def split: if_splits option.splits)
    qed
  next
    case False
    then show ?thesis using "1.prems" by (subst (asm) message_write_loop.simps) simp
  qed
qed

lemma broker_ok_insert:
  assumes "broker_ok db" and "stored \<in> live_stores db" and "qos \<in> {0, 1, 2}" and "dir = mosq_md_in \<longrightarrow> qos = 2"
  shows "broker_ok (snd (mqtt3_db_message_insert e db c mid dir qos retain stored))"
  by (rule broker_ok_queue_frame [OF assms(1)]) (auto simp: queue_frame_insert intro: message_insert_inv [OF _ assms(2-4)])

lemma broker_ok_delete: "broker_ok db \<Longrightarrow> broker_ok (snd (mqtt3_db_message_delete e db c mid dir))"
  by (erule broker_ok_queue_frame) (simp_all add: mqtt3_db_message_delete_def message_delete_loop_inv queue_frame_delete)

lemma broker_ok_update:
  assumes "broker_ok db" and "state \<noteq> mosq_ms_invalid"
  shows "broker_ok (upd_ctx c (\<lambda>m. snd (mqtt3_db_message_update e m mid dir state)) db)"
proof (rule broker_ok_queue_frame [OF assms(1) message_update_inv [OF _ assms(2)]])
  show "queue_frame (upd_ctx c (\<lambda>m. snd (mqtt3_db_message_update e m mid dir state)) db) = queue_frame db"
    by (simp add: mqtt3_db_message_update_def Let_def)
qed

lemma broker_ok_messages_delete: "broker_ok db \<Longrightarrow> broker_ok (snd (mqtt3_db_messages_delete db c))"
  by (erule broker_ok_queue_frame) (simp_all add: messages_delete_inv queue_frame_messages_delete)

lemma broker_ok_queue_ok: "broker_ok db \<Longrightarrow> queue_ok (db_contexts db c)"
  by (simp add: broker_ok_def broker_inv_def db_inv_def)

lemma broker_ok_queue_wf: "broker_ok db \<Longrightarrow> ctx_id (db_contexts db c) \<noteq> None \<Longrightarrow> queue_wf (db_contexts db c)"
  by (simp add: queue_okD [OF broker_ok_queue_ok])

lemma broker_ok_reconnect_reset: "broker_ok db \<Longrightarrow> broker_ok (snd (mqtt3_db_message_reconnect_reset db c))"
  by (rule broker_ok_queue_frame [OF _ reconnect_reset_inv])
    (simp_all add: reconnect_reset_queue [OF queue_ok_msgs [OF broker_ok_queue_ok]] reset_queue_def)

lemma broker_ok_timeout: "broker_ok db \<Longrightarrow> broker_ok (snd (mqtt3_db_message_timeout_check e db timeout))"
  by (erule broker_ok_queue_frame) (simp_all add: mqtt3_db_message_timeout_check_def timeout_loop_inv queue_frame_timeout)

lemma broker_ok_remove: "broker_ok db \<Longrightarrow> broker_ok (message_remove db c i)"
  by (erule broker_ok_queue_frame) (simp_all add: message_remove_inv)

lemma broker_ok_store:
  assumes "broker_ok db" and "qos \<in> {0, 1, 2}" and "case topic of None \<Rightarrow> True | Some t \<Rightarrow> topic_ok t"
    and s: "mqtt3_db_message_store e db source source_mid topic qos payload retain store_id = (rc, s, db')"
  shows "broker_ok db'" and "s = Some t \<Longrightarrow> t \<in> live_stores db'"
proof -
  have inv: "broker_inv {#} db" using assms(1) by (simp add: broker_ok_def)
  have "topics_ok db'" using assms(1,3) s
    by (auto simp: broker_ok_def topics_ok_def mqtt3_db_message_store_def msg_store_add_def new_store_def Let_def
        split: if_splits option.splits)
  moreover have "db_contexts db' = db_contexts db" using s
    by (auto simp: mqtt3_db_message_store_def msg_store_add_def Let_def split: if_splits)
  ultimately show "broker_ok db'"
    using assms(1) message_store_broker_inv(1) [OF inv assms(2) s] message_store_frame(1) [OF s]
    by (simp add: broker_ok_def slots_ok_def)
  show "s = Some t \<Longrightarrow> t \<in> live_stores db'" by (rule message_store_broker_inv(2) [OF inv assms(2) s])
qed

lemma broker_ok_easy_queue:
  assumes "broker_ok db" and "qos \<in> {0, 1, 2}" and "case topic of None \<Rightarrow> True | Some t \<Rightarrow> topic_ok t"
  shows "broker_ok (snd (mqtt3_db_messages_easy_queue e db context topic qos payload retain))"
proof (cases topic)
  case None
  then show ?thesis using assms by (simp add: mqtt3_db_messages_easy_queue_def)
next
  case (Some t)
  define src where "src = (case context of None \<Rightarrow> [] | Some c \<Rightarrow> (case ctx_id (db_contexts db c) of None \<Rightarrow> [] | Some client \<Rightarrow> client))"
  obtain rc s db1 where st: "mqtt3_db_message_store e db src 0 (Some t) qos payload retain 0 = (rc, s, db1)" using prod_cases3 by blast
  note ok = broker_ok_store [OF assms(1,2) _ st]
  show ?thesis
    using ok messages_queue_ok [OF _ _ assms(2)] message_store_frame(5) [OF st] st Some src_def assms(3)
    by (cases s) (simp_all add: mqtt3_db_messages_easy_queue_def)
qed

lemma broker_ok_retain_queue:
  assumes "broker_ok db" and "sub_qos \<in> {0, 1, 2}"
  shows "broker_ok (snd (mqtt3_retain_queue e db c sub sub_qos))"
proof -
  have inv: "broker_inv {#} db" using assms(1) by (simp add: broker_ok_def)
  have frame: "queue_frame (snd (retain_search e db nodes tokens c sub_qos level flag)) = queue_frame db" for nodes db tokens level flag
  proof (induction nodes arbitrary: db tokens level flag rule: forest_induct)
    case (Cons b bs)
    have "queue_frame (snd (retain_process e d r c sub_qos)) = queue_frame d" for d r
      by (auto simp: retain_process_def gen_mid_def mosquitto_mid_generate_def queue_frame_insert Let_def split_beta split: option.split)
    then have here: "queue_frame (retain_here e d r c sub_qos) = queue_frame d" for d r
      by (simp add: retain_here_def split: option.split)
    have "queue_frame (retain_branch e db b last tokens c sub_qos level) = queue_frame db" for last
      by (simp add: retain_branch_def Let_def split_beta here Cons.IH(1))
    then show ?case by (simp add: retain_search_Cons Cons.IH(2) del: retain_search.simps)
  qed simp
  have "queue_frame (snd (mqtt3_retain_queue e db c sub sub_qos)) = queue_frame db"
    by (simp add: mqtt3_retain_queue_def Let_def frame split: option.split)
  then show ?thesis by (rule broker_ok_same_frame [OF assms(1) retain_queue_inv [OF inv assms(2)]])
qed

lemma broker_ok_write:
  assumes "broker_ok db"
  shows "\<exists>rc db'. mqtt3_db_message_write e db c = Some (rc, db') \<and> broker_ok db'"
proof -
  have inv: "db_inv (forest_refs (db_subs db) + {#}) db" using assms by (simp add: broker_ok_def broker_inv_def)
  obtain rc db' where w: "message_write_loop e db c 0 0 = Some (rc, db')" using message_write_loop_inv [OF inv, of e c 0 0] by blast
  have "broker_ok db'"
  proof (rule broker_ok_queue_frame [OF assms _ queue_frame_write [OF w]])
    show "db_inv E db \<Longrightarrow> db_inv E db'" for E using message_write_loop_inv [of E db e c 0 0] w by auto
  qed
  then show ?thesis using w assms by (simp add: mqtt3_db_message_write_def Let_def)
qed

lemma broker_ok_release_activate:
  assumes "broker_ok db" and "i < length (ctx_msgs (db_contexts db c))"
  shows "broker_ok (release_activate e c i tail db)"
proof (rule broker_ok_same_frame [OF assms(1)])
  show "broker_inv {#} (release_activate e c i tail db)"
    by (rule release_activate_inv(1)) (use assms in \<open>simp_all add: broker_ok_def\<close>)
  show "queue_frame (release_activate e c i tail db) = queue_frame db"
    by (simp add: release_activate_def conn_frame_fields [OF send_conn_frame(6)])
qed

lemma broker_ok_live:
  assumes "broker_ok db" and "i < length (ctx_msgs (db_contexts db c))"
  shows "cmsg_store (ctx_msgs (db_contexts db c) ! i) \<in> live_stores db"
proof -
  have inv: "db_inv (forest_refs (db_subs db)) db" using assms(1) by (simp add: broker_ok_def broker_inv_def)
  have "cmsg_store (ctx_msgs (db_contexts db c) ! i) \<in># queue_refs (db_contexts db c)" using assms(2) by (simp add: queue_refs_def)
  moreover have "c \<in> busy db" "finite (busy db)" using assms(2) inv by (auto simp: busy_def db_inv_def)
  ultimately have "cmsg_store (ctx_msgs (db_contexts db c) ! i) \<in># all_queue_refs db"
    unfolding all_queue_refs_def by (subst sum.remove [of _ c]) auto
  then show ?thesis using msg_store.inv_live [OF db_invD(1) [OF inv]] by simp
qed

lemma broker_ok_release_deliver:
  assumes "broker_ok db" and "i < length (ctx_msgs (db_contexts db c))" and "cmsg_store tail = cmsg_store (ctx_msgs (db_contexts db c) ! i)"
  shows "broker_ok (snd (release_deliver e db tail))"
proof (cases "store_topic (db_stores db (cmsg_store tail))")
  case None
  then show ?thesis using assms(1) by (simp add: release_deliver_def)
next
  case (Some topic)
  have live: "cmsg_store tail \<in> live_stores db" using broker_ok_live [OF assms(1,2)] assms(3) by simp
  have q: "store_qos (db_stores db (cmsg_store tail)) \<in> {0, 1, 2}" "topic_ok topic"
    using assms(1) Some unfolding broker_ok_def broker_inv_def stores_ok_def topics_ok_def by blast+
  from messages_queue_ok [OF assms(1) live q, of e] Some show ?thesis by (simp add: release_deliver_def Let_def)
qed

lemma broker_ok_release:
  assumes "broker_ok db"
  shows "\<exists>rc db'. mqtt3_db_message_release e db c mid mosq_md_in = Some (rc, db') \<and> broker_ok db'"
  unfolding mqtt3_db_message_release_def
proof (rule message_release_loop_returns [of broker_ok "{#}"])
  show "broker_ok db' \<Longrightarrow> broker_inv {#} db'" for db' by (simp add: broker_ok_def)
qed (use assms broker_ok_release_activate broker_ok_remove broker_ok_release_deliver in blast)+

lemma insert_outcome:
  assumes "queue_wf (db_contexts db c)"
  shows "(\<exists>m'. db_contexts (snd (mqtt3_db_message_insert e db c mid dir qos retain stored)) = (db_contexts db)(c := m')
        \<and> ctx_msgs m' = ctx_msgs (db_contexts db c))
    \<or> (\<exists>m' msg state rc. db_contexts (snd (mqtt3_db_message_insert e db c mid dir qos retain stored)) = (db_contexts db)(c := m')
        \<and> ctx_msgs m' = ctx_msgs (db_contexts db c) @ [msg] \<and> cmsg_qos msg = qos
        \<and> insert_decide db (db_contexts db c) dir qos = Enqueue state rc)"
    (is "?same \<or> ?new")
proof -
  let ?m = "db_contexts db c" and ?db = "snd (mqtt3_db_message_insert e db c mid dir qos retain stored)"
  have msgs: "ctx_msgs (wake_lazy_bridge (link_msg msg ?m)) = ctx_msgs ?m @ [msg]" for msg
    using assms by (cases "ctx_last_msg ?m") (auto simp: queue_wf_def link_msg_def Let_def split: if_splits)
  have enq: "db_contexts (enqueue_msg e db c client msg) = (db_contexts db)(c := wake_lazy_bridge (link_msg msg ?m))" for client msg
    by (simp add: enqueue_msg_def Let_def)
  have same: "db_contexts ?db = db_contexts db \<Longrightarrow> ?same" by (intro exI [of _ ?m]) simp
  have drop: "db_contexts ?db = (db_contexts db)(c := ?m\<lparr>ctx_is_dropping := True\<rparr>) \<Longrightarrow> ?same" by auto
  show ?thesis
  proof (cases "insert_decide db ?m dir qos")
    case (Enqueue state rc)
    have "db_contexts ?db = db_contexts db \<or> ?new"
      using Enqueue by (simp add: mqtt3_db_message_insert_def enq msgs Let_def split: option.split) (use msgs in fastforce)
    then show ?thesis using same by blast
  next
    case Drop
    then have "db_contexts ?db = db_contexts db \<or> db_contexts ?db = (db_contexts db)(c := ?m\<lparr>ctx_is_dropping := True\<rparr>)"
      by (simp add: mqtt3_db_message_insert_def Let_def split: option.split)
    then show ?thesis using same drop by blast
  next
    case (Refuse rc)
    then have "db_contexts ?db = db_contexts db" by (simp add: mqtt3_db_message_insert_def Let_def split: option.split)
    then show ?thesis using same by blast
  qed
qed

section \<open>Properties\<close>

definition queue_demo :: mosquitto_db where
  "queue_demo = snd (mqtt3_db_messages_easy_queue plain_env two_subscribers None (Some ''s/1/t'') 1 [7] False)"

lemma queue_demo_ok: "broker_ok queue_demo"
proof -
  have "broker_ok two_subscribers"
    unfolding two_subscribers_def by (intro broker_ok_sub_add two_clients_ok) (simp_all add: plain_level_def)
  then show ?thesis unfolding queue_demo_def
    by (rule broker_ok_easy_queue) (simp_all add: topic_ok_def plain_level_def)
qed



text \<open>
  C24: Releasing a QoS 2 message returns, although it delivers to the queue it walks through when
  the publisher subscribes to its own topic, and leaves the database in a consistent state.
\<close>

theorem message_release_returns:
  assumes "broker_ok db"
  shows "\<exists>rc db'. mqtt3_db_message_release e db c mid mosq_md_in = Some (rc, db') \<and> broker_ok db'"
  by (rule broker_ok_release [OF assms])

theorem message_release_returns_witness:
  "\<exists>rc db'. mqtt3_db_message_release plain_env queue_demo 1 1 mosq_md_in = Some (rc, db') \<and> broker_ok db'"
  by (rule message_release_returns [OF queue_demo_ok])



text \<open>
  C26: Deleting an acknowledged message removes a message with that identifier and direction if the
  queue has one; every other message stays, in order, with its content.
\<close>

theorem message_delete_exact:
  shows "filter (\<lambda>k. \<not> has_id mid dir k) (queue_keys (snd (mqtt3_db_message_delete e db c mid dir)) c)
      = filter (\<lambda>k. \<not> has_id mid dir k) (queue_keys db c)
    \<and> ((\<exists>k \<in> set (queue_keys db c). has_id mid dir k) \<longrightarrow>
        length (filter (has_id mid dir) (queue_keys (snd (mqtt3_db_message_delete e db c mid dir)) c))
        < length (filter (has_id mid dir) (queue_keys db c)))"
  using message_delete_loop_keys [of mid dir False 0 db c e 0] by (simp add: deletes_def mqtt3_db_message_delete_def)

theorem message_delete_exact_witness:
  "queue_keys queue_demo 1 = [(1, mosq_md_out, 0, 1, False)]
   \<and> queue_keys (snd (mqtt3_db_message_delete plain_env queue_demo 1 1 mosq_md_out)) 1 = []"
proof -
  have k: "queue_keys queue_demo 1 = [(1, mosq_md_out, 0, 1, False)]" by code_simp
  define ks where "ks = queue_keys (snd (mqtt3_db_message_delete plain_env queue_demo 1 1 mosq_md_out)) 1"
  have "filter (\<lambda>k. \<not> has_id 1 mosq_md_out k) ks = [] \<and> filter (has_id 1 mosq_md_out) ks = []"
    using message_delete_exact [of 1 mosq_md_out plain_env queue_demo 1] unfolding k ks_def [symmetric] by (simp add: has_id_def)
  then have "ks = []" by (cases ks) (auto split: if_splits)
  then show ?thesis using k ks_def by simp
qed



end
