(* ===== verification/Mosq_Context.thy ===== *)
theory Mosq_Context
  imports Mosq_Queue
begin

text \<open>
  The life of a connection: \<open>context.c\<close>, closing its socket (\<open>net_mosq.c\<close>), the keepalive check
  (\<open>util_mosq.c\<close>), accepting it (\<open>net.c\<close>), ending it (\<open>do_disconnect\<close> of \<open>loop.c\<close>) and checking it
  again after a reload (\<open>security_default.c\<close>).

  The hash tables \<open>contexts_by_id\<close> and \<open>contexts_by_sock\<close> are lists in the order of insertion, which
  is the order in which \<open>HASH_ITER\<close> visits them.  Deleting an element that is not in a table
  is an error.  The list \<open>ll_for_free\<close> is a list of addresses.
\<close>

section \<open>Tables\<close>

definition hash_delete_sock :: "ctxid \<Rightarrow> mosquitto_db \<Rightarrow> mosquitto_db" where
  "hash_delete_sock c db =
     (if c \<in> set (db_contexts_by_sock db)
      then db\<lparr>db_contexts_by_sock := remove1 c (db_contexts_by_sock db)\<rparr>
      else db\<lparr>db_aborted := True\<rparr>)"

definition hash_delete_id :: "ctxid \<Rightarrow> mosquitto_db \<Rightarrow> mosquitto_db" where
  "hash_delete_id c db =
     (if c \<in> snd ` set (db_contexts_by_id db)
      then db\<lparr>db_contexts_by_id := filter (\<lambda>(_, d). d \<noteq> c) (db_contexts_by_id db)\<rparr>
      else db\<lparr>db_aborted := True\<rparr>)"

section \<open>Closing\<close>

text \<open>The assertion that the client count of a listener is not negative is kept.\<close>

definition leave_listener :: "ctxid \<Rightarrow> mosquitto_db \<Rightarrow> mosquitto_db" where
  "leave_listener c db =
     (case ctx_listener (db_contexts db c) of
        None \<Rightarrow> db
      | Some l \<Rightarrow>
          let n = db_client_count db l - 1
          in upd_ctx c (\<lambda>m. m\<lparr>ctx_listener := None\<rparr>)
               (db\<lparr>db_client_count := (db_client_count db)(l := n),
                   db_aborted := (db_aborted db \<or> n < 0)\<rparr>))"

definition mosquitto_socket_close :: "ctxid \<Rightarrow> mosquitto_db \<Rightarrow> mosquitto_db" where
  "mosquitto_socket_close c db =
     leave_listener c
       (if ctx_sock (db_contexts db c) \<ge> 0
        then upd_ctx c (\<lambda>m. m\<lparr>ctx_sock := INVALID_SOCKET\<rparr>) (hash_delete_sock c db)
        else db)"

definition mqtt3_context_send_will :: "mosq_env \<Rightarrow> ctxid \<Rightarrow> mosquitto_db \<Rightarrow> mosquitto_db" where
  "mqtt3_context_send_will e c db =
     (case ctx_will (db_contexts db c) of
        None \<Rightarrow> db
      | Some will \<Rightarrow>
          upd_ctx c (\<lambda>m. m\<lparr>ctx_will := None\<rparr>)
            (if ctx_state (db_contexts db c) \<noteq> mosq_cs_disconnecting
             then case mosquitto_acl_check e db (db_contexts db c) (will_topic will) MOSQ_ACL_WRITE of
                    None \<Rightarrow> db\<lparr>db_aborted := True\<rparr>
                  | Some rc \<Rightarrow>
                      if rc = MOSQ_ERR_SUCCESS
                      then snd (mqtt3_db_messages_easy_queue e db (Some c) (Some (will_topic will))
                             (will_qos will) (will_payload will) (will_retain will))
                      else db
             else db))"

definition mqtt3_context_disconnect :: "mosq_env \<Rightarrow> ctxid \<Rightarrow> mosquitto_db \<Rightarrow> mosquitto_db" where
  "mqtt3_context_disconnect e c db =
     mosquitto_socket_close c
       (upd_ctx c (\<lambda>m. m\<lparr>ctx_disconnect_t := env_now e\<rparr>) (mqtt3_context_send_will e c db))"

definition mosquitto_add_context_to_disused :: "ctxid \<Rightarrow> mosquitto_db \<Rightarrow> mosquitto_db" where
  "mosquitto_add_context_to_disused c db = db\<lparr>db_ll_for_free := c # db_ll_for_free db\<rparr>"

text \<open>\<open>HASH_DELETE\<close> of a connection that has an identifier, and freeing the identifier.\<close>

definition drop_id :: "ctxid \<Rightarrow> mosquitto_db \<Rightarrow> mosquitto_db" where
  "drop_id c db =
     (case ctx_id (db_contexts db c) of
        None \<Rightarrow> db
      | Some _ \<Rightarrow> upd_ctx c (\<lambda>m. m\<lparr>ctx_id := None\<rparr>) (hash_delete_id c db))"

definition do_disconnect :: "mosq_env \<Rightarrow> ctxid \<Rightarrow> mosquitto_db \<Rightarrow> mosquitto_db" where
  "do_disconnect e c db =
     (if ctx_state (db_contexts db c) = mosq_cs_disconnected then db
      else let db = mqtt3_context_disconnect e c db;
               db = (if ctx_clean_session (db_contexts db c) \<and> ctx_bridge (db_contexts db c) = None
                     then drop_id c (mosquitto_add_context_to_disused c db) else db)
           in upd_ctx c (\<lambda>m. m\<lparr>ctx_state := mosq_cs_disconnected\<rparr>) db)"

section \<open>Freeing\<close>

text \<open>A local bridge gives up its entry in the list of bridges and its identification.\<close>

definition cleanup_bridge :: "ctxid \<Rightarrow> mosquitto_db \<Rightarrow> mosquitto_db" where
  "cleanup_bridge c db =
     (case ctx_bridge (db_contexts db c) of
        None \<Rightarrow> db
      | Some bridge \<Rightarrow>
          upd_ctx c (\<lambda>m. m\<lparr>ctx_bridge := Some (bridge\<lparr>br_local_clientid := None, br_remote_username := None,
              br_remote_password := None, br_local_username := None, br_local_password := None\<rparr>)\<rparr>)
            (db\<lparr>db_bridges := map (\<lambda>b. if b = Some c then None else b) (db_bridges db)\<rparr>))"

text \<open>
  After \<open>free(context)\<close> the address is in no table any more; the record at that address stays as
  the function leaves it.
\<close>

definition mqtt3_context_cleanup :: "mosq_env \<Rightarrow> ctxid \<Rightarrow> bool \<Rightarrow> mosquitto_db \<Rightarrow> mosquitto_db" where
  "mqtt3_context_cleanup e c do_free db =
     (let db = upd_ctx c (\<lambda>m. m\<lparr>ctx_username := None, ctx_password := None\<rparr>) db;
          db = mosquitto_socket_close c (cleanup_bridge c db);
          gone = (do_free \<or> ctx_clean_session (db_contexts db c));
          db = (if gone then snd (mqtt3_db_messages_delete (snd (mqtt3_subs_clean_session db c)) c) else db);
          db = mqtt3_context_send_will e c (upd_ctx c (\<lambda>m. m\<lparr>ctx_address := None\<rparr>) db);
          db = drop_id c db;
          db = upd_ctx c (\<lambda>m. m\<lparr>ctx_in_packet := mosquitto_packet_cleanup (ctx_in_packet m),
                  ctx_current_out_packet := None, ctx_out_packet := []\<rparr>) db
      in if gone
         then upd_ctx c (\<lambda>m. m\<lparr>ctx_msgs := [], ctx_last_msg := LastNull\<rparr>)
                (messages_delete_loop db (ctx_msgs (db_contexts db c)))
         else db)"

definition mosquitto_free_disused_contexts :: "mosq_env \<Rightarrow> mosquitto_db \<Rightarrow> mosquitto_db" where
  "mosquitto_free_disused_contexts e db =
     (foldl (\<lambda>db c. mqtt3_context_cleanup e c True db) db (db_ll_for_free db))\<lparr>db_ll_for_free := []\<rparr>"

section \<open>Accepting\<close>

text \<open>
  \<open>c\<close> is the address \<open>calloc\<close> returns, \<open>address\<close> what \<open>_mosquitto_socket_get_address\<close> finds.  The
  script of the new socket is in \<open>net_in\<close> and \<open>net_out\<close>.
\<close>

definition mqtt3_context_init :: "mosq_env \<Rightarrow> ctxid \<Rightarrow> int \<Rightarrow> string option \<Rightarrow> net_read_event list
    \<Rightarrow> net_write_event list \<Rightarrow> mosquitto_db \<Rightarrow> mosquitto_db option" where
  "mqtt3_context_init e c sock address net_in net_out db =
     (let context = context_calloc\<lparr>ctx_state := mosq_cs_new, ctx_sock := sock, ctx_last_msg_in := env_now e,
            ctx_next_msg_out := env_now e + 60, ctx_keepalive := 60, ctx_clean_session := True,
            ctx_in_packet := mosquitto_packet_cleanup packet_calloc, ctx_net_in := net_in, ctx_net_out := net_out\<rparr>
      in if sock \<ge> 0
         then case address of
                None \<Rightarrow> None
              | Some _ \<Rightarrow>
                  Some (upd_ctx c (\<lambda>_. context\<lparr>ctx_address := address\<rparr>)
                    (db\<lparr>db_contexts_by_sock := db_contexts_by_sock db @ [c]\<rparr>))
         else Some (upd_ctx c (\<lambda>_. context) db))"

text \<open>
  A connection accepted on a socket of listener \<open>listener\<close>, or on no listener of the
  configuration.  The \<open>max_connections\<close> of the listener is a parameter; 0 is no limit.
\<close>

definition mqtt3_socket_accept :: "mosq_env \<Rightarrow> ctxid \<Rightarrow> int \<Rightarrow> string option \<Rightarrow> net_read_event list
    \<Rightarrow> net_write_event list \<Rightarrow> nat option \<Rightarrow> int \<Rightarrow> mosquitto_db \<Rightarrow> int \<times> mosquitto_db" where
  "mqtt3_socket_accept e c sock address net_in net_out listener max_connections db =
     (case mqtt3_context_init e c sock address net_in net_out db of
        None \<Rightarrow> (-1, db)
      | Some db \<Rightarrow>
          (case listener of
             None \<Rightarrow> (-1, mqtt3_context_cleanup e c True db)
           | Some l \<Rightarrow>
               let db = upd_ctx c (\<lambda>m. m\<lparr>ctx_listener := Some l\<rparr>)
                          (db\<lparr>db_client_count := (db_client_count db)(l := db_client_count db l + 1)\<rparr>)
               in if max_connections > 0 \<and> db_client_count db l > max_connections
                  then (-1, mqtt3_context_cleanup e c True db)
                  else (sock, db)))"

section \<open>Keepalive\<close>

definition mosquitto_check_keepalive :: "mosq_env \<Rightarrow> ctxid \<Rightarrow> mosquitto_db \<Rightarrow> mosquitto_db" where
  "mosquitto_check_keepalive e c db =
     (let m = db_contexts db c; now = env_now e; keepalive = uint (ctx_keepalive m)
      in if (case ctx_bridge m of
               None \<Rightarrow> False
             | Some bridge \<Rightarrow> br_start_type bridge = bst_lazy \<and> ctx_sock m \<noteq> INVALID_SOCKET
                 \<and> now - ctx_next_msg_out m - keepalive \<ge> br_idle_timeout bridge)
         then mosquitto_socket_close c db
         else if keepalive \<noteq> 0 \<and> ctx_sock m \<noteq> INVALID_SOCKET
                \<and> (now \<ge> ctx_next_msg_out m \<or> now - ctx_last_msg_in m \<ge> keepalive)
         then if ctx_state m = mosq_cs_connected \<and> ctx_ping_t m = 0
              then upd_ctx c (\<lambda>m. (snd (mosquitto_send_pingreq e m))\<lparr>ctx_last_msg_in := now,
                     ctx_next_msg_out := now + keepalive\<rparr>) db
              else mosquitto_socket_close c (leave_listener c db)
         else db)"

section \<open>After a reload\<close>

text \<open>The entry of the list that belongs to the user name of a connection.\<close>

definition find_acl_user :: "mosquitto_db \<Rightarrow> mosquitto \<Rightarrow> mosquitto_acl_user option" where
  "find_acl_user db m = find (\<lambda>u. acl_username u = ctx_username m) (db_acl_list db)"

definition security_apply_client :: "mosq_env \<Rightarrow> ctxid \<Rightarrow> mosquitto_db \<Rightarrow> mosquitto_db" where
  "security_apply_client e c db =
     (let m = db_contexts db c
      in if \<not> cfg_allow_anonymous (env_config e) \<and> ctx_username m = None
            \<or> mosquitto_unpwd_check_default e db (ctx_username m) (ctx_password m) \<noteq> MOSQ_ERR_SUCCESS
         then do_disconnect e c (upd_ctx c (\<lambda>m. m\<lparr>ctx_state := mosq_cs_disconnecting\<rparr>) db)
         else case find_acl_user db m of
                None \<Rightarrow> db
              | Some u \<Rightarrow> upd_ctx c (\<lambda>m. m\<lparr>ctx_acl_list := Some u\<rparr>) db)"

definition mosquitto_security_apply_default :: "mosq_env \<Rightarrow> mosquitto_db \<Rightarrow> int \<times> mosquitto_db" where
  "mosquitto_security_apply_default e db =
     (MOSQ_ERR_SUCCESS,
      foldl (\<lambda>db c. security_apply_client e c db) db (map snd (db_contexts_by_id db)))"

definition mosquitto_security_apply :: "mosq_env \<Rightarrow> mosquitto_db \<Rightarrow> int \<times> mosquitto_db" where
  "mosquitto_security_apply e db =
     (if env_auth_plugin e = None then mosquitto_security_apply_default e db else (MOSQ_ERR_SUCCESS, db))"

end
