(* ===== verification/Mosq_Handler.thy ===== *)
theory Mosq_Handler
  imports Mosq_Queue
begin

text \<open>
  The shape of the packet handlers.  A handler works on the database and ends with a value or
  early with a return code (\<open>Inl rc\<close>: a \<open>return rc\<close> or \<open>goto\<close> in the middle of the C function);
  \<open>None\<close> is a handler that does not return.  A small calculus of pre- and postconditions goes
  with it: \<open>hvalid P h Q E\<close> says that the handler returns from every state that satisfies \<open>P\<close>, with
  \<open>Q\<close> if it runs to its end and with \<open>E\<close> if it ends early.
\<close>

section \<open>Handlers\<close>

type_synonym 'a handler = "mosquitto_db \<Rightarrow> ((int + 'a) \<times> mosquitto_db) option"

definition hreturn :: "'a \<Rightarrow> 'a handler" where
  "hreturn x db = Some (Inr x, db)"

definition hraise :: "int \<Rightarrow> 'a handler" where
  "hraise rc db = Some (Inl rc, db)"

definition hbind :: "'a handler \<Rightarrow> ('a \<Rightarrow> 'b handler) \<Rightarrow> 'b handler" where
  "hbind h k db =
     (case h db of
        None \<Rightarrow> None
      | Some (Inl rc, db) \<Rightarrow> Some (Inl rc, db)
      | Some (Inr x, db) \<Rightarrow> k x db)"

text \<open>Reading the state, changing it, and calling a function that returns a code.\<close>

definition hget :: "(mosquitto_db \<Rightarrow> 'a) \<Rightarrow> 'a handler" where
  "hget f db = Some (Inr (f db), db)"

definition hupd :: "(mosquitto_db \<Rightarrow> mosquitto_db) \<Rightarrow> unit handler" where
  "hupd f db = Some (Inr (), f db)"

definition hcall :: "(mosquitto_db \<Rightarrow> 'a \<times> mosquitto_db) \<Rightarrow> 'a handler" where
  "hcall f db = (case f db of (x, db) \<Rightarrow> Some (Inr x, db))"

definition hwhen :: "bool \<Rightarrow> unit handler \<Rightarrow> unit handler" where
  "hwhen b h = (if b then h else hreturn ())"

text \<open>The connection of the handler: its fields, changes of it, functions that send.\<close>

definition hctx :: "ctxid \<Rightarrow> (mosquitto \<Rightarrow> 'a) \<Rightarrow> 'a handler" where
  "hctx c f = hget (\<lambda>db. f (db_contexts db c))"

definition hset :: "ctxid \<Rightarrow> (mosquitto \<Rightarrow> mosquitto) \<Rightarrow> unit handler" where
  "hset c f = hupd (upd_ctx c f)"

definition hsend :: "ctxid \<Rightarrow> (mosquitto \<Rightarrow> 'a \<times> mosquitto) \<Rightarrow> 'a handler" where
  "hsend c f = hcall (\<lambda>db. case f (db_contexts db c) of (x, m) \<Rightarrow> (x, upd_ctx c (\<lambda>_. m) db))"

text \<open>
  A reader applied to the incoming packet; its error code is the result.  A read outside the buffer
  of the packet is an error of the program.
\<close>

definition hread_rc :: "ctxid \<Rightarrow> (mosquitto_packet \<Rightarrow> 'a cres \<times> mosquitto_packet) \<Rightarrow> (int + 'a) handler" where
  "hread_rc c reader db =
     (case reader (ctx_in_packet (db_contexts db c)) of
        (Ok x, packet) \<Rightarrow> Some (Inr (Inr x), upd_ctx c (\<lambda>m. m\<lparr>ctx_in_packet := packet\<rparr>) db)
      | (Err rc, packet) \<Rightarrow> Some (Inr (Inl rc), upd_ctx c (\<lambda>m. m\<lparr>ctx_in_packet := packet\<rparr>) db)
      | (Abort, packet) \<Rightarrow> Some (Inl 1, db\<lparr>db_aborted := True\<rparr>))"

text \<open>A reader whose failure ends the handler with a code computed from that of the reader.\<close>

definition hread_or :: "(int \<Rightarrow> int) \<Rightarrow> ctxid \<Rightarrow> (mosquitto_packet \<Rightarrow> 'a cres \<times> mosquitto_packet) \<Rightarrow> 'a handler" where
  "hread_or f c reader =
     hbind (hread_rc c reader) (\<lambda>r. case r of Inl rc \<Rightarrow> hraise (f rc) | Inr x \<Rightarrow> hreturn x)"

text \<open>The return code of a handler.\<close>

definition hrun :: "int handler \<Rightarrow> mosquitto_db \<Rightarrow> (int \<times> mosquitto_db) option" where
  "hrun h db =
     (case h db of
        None \<Rightarrow> None
      | Some (Inl rc, db) \<Rightarrow> Some (rc, db)
      | Some (Inr rc, db) \<Rightarrow> Some (rc, db))"

section \<open>Pre- and postconditions\<close>

definition hvalid :: "(mosquitto_db \<Rightarrow> bool) \<Rightarrow> 'a handler \<Rightarrow> ('a \<Rightarrow> mosquitto_db \<Rightarrow> bool) \<Rightarrow> (mosquitto_db \<Rightarrow> bool) \<Rightarrow> bool" where
  "hvalid P h Q E \<longleftrightarrow>
     (\<forall>db. P db \<longrightarrow>
        (case h db of None \<Rightarrow> False | Some (Inl rc, db') \<Rightarrow> E db' | Some (Inr x, db') \<Rightarrow> Q x db'))"

named_theorems hrules

lemma hvalid_return [hrules]: "(\<And>db. P db \<Longrightarrow> Q x db) \<Longrightarrow> hvalid P (hreturn x) Q E"
  by (simp add: hvalid_def hreturn_def)

lemma hvalid_raise [hrules]: "(\<And>db. P db \<Longrightarrow> E db) \<Longrightarrow> hvalid P (hraise rc) Q E"
  by (simp add: hvalid_def hraise_def)

lemma hvalid_bind:
  assumes "hvalid P h R E" and "\<And>x. hvalid (R x) (k x) Q E"
  shows "hvalid P (hbind h k) Q E"
  using assms unfolding hvalid_def hbind_def by (fastforce split: option.splits sum.splits prod.splits)

lemma hvalid_get: "(\<And>db. P db \<Longrightarrow> Q (f db) db) \<Longrightarrow> hvalid P (hget f) Q E"
  by (simp add: hvalid_def hget_def)

lemma hvalid_ctx: "(\<And>db. P db \<Longrightarrow> Q (f (db_contexts db c)) db) \<Longrightarrow> hvalid P (hctx c f) Q E"
  unfolding hctx_def by (rule hvalid_get)

lemma hvalid_upd: "(\<And>db. P db \<Longrightarrow> Q () (f db)) \<Longrightarrow> hvalid P (hupd f) Q E"
  by (simp add: hvalid_def hupd_def)

lemma hvalid_set: "(\<And>db. P db \<Longrightarrow> Q () (upd_ctx c f db)) \<Longrightarrow> hvalid P (hset c f) Q E"
  unfolding hset_def by (rule hvalid_upd)

lemma hvalid_call: "(\<And>db. P db \<Longrightarrow> Q (fst (f db)) (snd (f db))) \<Longrightarrow> hvalid P (hcall f) Q E"
  by (simp add: hvalid_def hcall_def split_beta)

lemma hvalid_send:
  "(\<And>db. P db \<Longrightarrow> Q (fst (f (db_contexts db c))) (upd_ctx c (\<lambda>_. snd (f (db_contexts db c))) db)) \<Longrightarrow> hvalid P (hsend c f) Q E"
  unfolding hsend_def by (rule hvalid_call) (simp add: split_beta)

lemma hvalid_when: "hvalid P h (\<lambda>_. Q) E \<Longrightarrow> (\<And>db. P db \<Longrightarrow> Q db) \<Longrightarrow> hvalid P (hwhen b h) (\<lambda>_. Q) E"
  by (simp add: hwhen_def hvalid_return)

lemma hvalid_if: "(b \<Longrightarrow> hvalid P h Q E) \<Longrightarrow> (\<not> b \<Longrightarrow> hvalid P h' Q E) \<Longrightarrow> hvalid P (if b then h else h') Q E"
  by simp

lemma hvalid_conseq:
  assumes "hvalid P h Q E" and "\<And>db. P' db \<Longrightarrow> P db" and "\<And>x db. Q x db \<Longrightarrow> Q' x db" and "\<And>db. E db \<Longrightarrow> E' db"
  shows "hvalid P' h Q' E'"
  using assms unfolding hvalid_def by (fastforce split: option.splits sum.splits)

lemma hvalid_run:
  assumes "hvalid P h (\<lambda>_. E) E" and "P db"
  shows "\<exists>rc db'. hrun h db = Some (rc, db') \<and> E db'"
  using assms unfolding hvalid_def hrun_def by (auto split: option.splits sum.splits)

text \<open>Assumptions about values that do not depend on the state.\<close>

lemma hvalid_pure: "(A \<Longrightarrow> hvalid P h Q E) \<Longrightarrow> hvalid (\<lambda>db. A \<and> P db) h Q E"
  by (auto simp: hvalid_def)

end
