(* ===== verification/Mosq_Handle.thy ===== *)
theory Mosq_Handle
  imports Mosq_Context Mosq_Handler
begin

text \<open>
  The handlers of the packets a client sends once it is connected: acknowledgements and pings
  (\<open>read_handle_shared.c\<close>), PUBLISH (\<open>read_handle.c\<close>), SUBSCRIBE, UNSUBSCRIBE and DISCONNECT
  (\<open>read_handle_server.c\<close>), and the CONNACK a bridge gets (\<open>read_handle_client.c\<close>).
\<close>

section \<open>Steps the handlers share\<close>

text \<open>A string of the packet, as the functions on C strings see it.\<close>

definition read_c_string :: "allocator \<Rightarrow> mosquitto_packet \<Rightarrow> string cres \<times> mosquitto_packet" where
  "read_c_string malloc packet =
     (case mosquitto_read_string malloc packet of
        (Ok bs, packet) \<Rightarrow> (Ok (string_of_bytes bs), packet)
      | (Err rc, packet) \<Rightarrow> (Err rc, packet)
      | (Abort, packet) \<Rightarrow> (Abort, packet))"

definition halloc :: "mosq_env \<Rightarrow> nat \<Rightarrow> int \<Rightarrow> unit handler" where
  "halloc e n rc = (if env_malloc e n = None then hraise rc else hreturn ())"

text \<open>A topic behind the mount point of the listener of the connection.\<close>

definition hmount :: "mosq_env \<Rightarrow> ctxid \<Rightarrow> string \<Rightarrow> string handler" where
  "hmount e c topic =
     hbind (hctx c (mount_point e)) (\<lambda>mount.
       case mount of
         None \<Rightarrow> hreturn topic
       | Some mount \<Rightarrow>
           hbind (halloc e (length mount + length topic + 2) MOSQ_ERR_NOMEM) (\<lambda>_. hreturn (mount @ topic)))"

definition hacl :: "mosq_env \<Rightarrow> ctxid \<Rightarrow> string \<Rightarrow> u32 \<Rightarrow> int handler" where
  "hacl e c topic access db =
     (case mosquitto_acl_check e db (db_contexts db c) topic access of
        None \<Rightarrow> Some (Inl 1, db\<lparr>db_aborted := True\<rparr>)
      | Some rc \<Rightarrow> Some (Inr rc, db))"

text \<open>A handler that returns no code to be looked at.\<close>

definition hignore :: "int handler \<Rightarrow> unit handler" where
  "hignore h = hbind h (\<lambda>_. hreturn ())"

section \<open>Pings and acknowledgements\<close>

definition mosquitto_handle_pingreq :: "mosq_env \<Rightarrow> ctxid \<Rightarrow> int handler" where
  "mosquitto_handle_pingreq e c = hsend c (mosquitto_send_pingresp e)"

definition mosquitto_handle_pingresp :: "mosq_env \<Rightarrow> ctxid \<Rightarrow> int handler" where
  "mosquitto_handle_pingresp e c =
     hbind (hset c (\<lambda>m. m\<lparr>ctx_ping_t := 0\<rparr>)) (\<lambda>_. hreturn MOSQ_ERR_SUCCESS)"

definition mosquitto_handle_pubackcomp :: "mosq_env \<Rightarrow> ctxid \<Rightarrow> int handler" where
  "mosquitto_handle_pubackcomp e c =
     hbind (hread_or id c mosquitto_read_uint16) (\<lambda>mid.
       if mid \<noteq> 0
       then hbind (hcall (\<lambda>db. mqtt3_db_message_delete e db c mid mosq_md_out)) (\<lambda>rc.
              hreturn (if rc = MOSQ_ERR_NOT_FOUND then MOSQ_ERR_SUCCESS else rc))
       else hreturn MOSQ_ERR_SUCCESS)"

definition mosquitto_handle_pubrec :: "mosq_env \<Rightarrow> ctxid \<Rightarrow> int handler" where
  "mosquitto_handle_pubrec e c =
     hbind (hread_or id c mosquitto_read_uint16) (\<lambda>mid.
     hbind (hsend c (\<lambda>m. mqtt3_db_message_update e m mid mosq_md_out mosq_ms_wait_for_pubcomp)) (\<lambda>rc.
       if rc \<noteq> MOSQ_ERR_NOT_FOUND \<and> rc \<noteq> MOSQ_ERR_SUCCESS then hraise rc
       else hsend c (\<lambda>m. mosquitto_send_pubrel e m mid)))"

definition hrelease :: "mosq_env \<Rightarrow> ctxid \<Rightarrow> u16 \<Rightarrow> int handler" where
  "hrelease e c mid db =
     (case mqtt3_db_message_release e db c mid mosq_md_in of
        None \<Rightarrow> None
      | Some (rc, db) \<Rightarrow> Some (Inr rc, db))"

definition mosquitto_handle_pubrel :: "mosq_env \<Rightarrow> ctxid \<Rightarrow> int handler" where
  "mosquitto_handle_pubrel e c =
     hbind (hctx c (\<lambda>m. ctx_protocol m = mosq_p_mqtt311 \<and> pkt_command (ctx_in_packet m) AND 0x0F \<noteq> 0x02)) (\<lambda>bad.
     hbind (hwhen bad (hraise MOSQ_ERR_PROTOCOL)) (\<lambda>_.
     hbind (hread_or id c mosquitto_read_uint16) (\<lambda>mid.
     hbind (hrelease e c mid) (\<lambda>_.
       hsend c (\<lambda>m. mosquitto_send_pubcomp e m mid)))))"

text \<open>The loop over the granted QoS values of a SUBACK.\<close>

partial_function (option) suback_loop :: "ctxid \<Rightarrow> mosquitto_db \<Rightarrow> ((int + unit) \<times> mosquitto_db) option" where
  "suback_loop c db =
     (let packet = ctx_in_packet (db_contexts db c)
      in if pkt_pos packet < pkt_remaining_length packet
         then case hread_or id c mosquitto_read_byte db of
                None \<Rightarrow> None
              | Some (r, db) \<Rightarrow>
                  (case r of Inl rc \<Rightarrow> Some (Inl rc, db) | Inr qos \<Rightarrow> suback_loop c db)
         else Some (Inr (), db))"

declare suback_loop.simps [code]

definition mosquitto_handle_suback :: "mosq_env \<Rightarrow> ctxid \<Rightarrow> int handler" where
  "mosquitto_handle_suback e c =
     hbind (hread_or id c mosquitto_read_uint16) (\<lambda>mid.
     hbind (hctx c (\<lambda>m. pkt_remaining_length (ctx_in_packet m) - pkt_pos (ctx_in_packet m))) (\<lambda>qos_count.
     hbind (halloc e (unat qos_count * 4) MOSQ_ERR_NOMEM) (\<lambda>_.
     hbind (suback_loop c) (\<lambda>_. hreturn MOSQ_ERR_SUCCESS))))"

definition mosquitto_handle_unsuback :: "mosq_env \<Rightarrow> ctxid \<Rightarrow> int handler" where
  "mosquitto_handle_unsuback e c =
     hbind (hread_or id c mosquitto_read_uint16) (\<lambda>mid. hreturn MOSQ_ERR_SUCCESS)"

section \<open>PUBLISH\<close>

definition publish_qos :: "u8 \<Rightarrow> int" where
  "publish_qos header = uint (drop_bit 1 (header AND 0x06))"

definition publish_retain :: "u8 \<Rightarrow> bool" where
  "publish_retain header \<longleftrightarrow> header AND 0x01 \<noteq> 0"

text \<open>The mapping of a topic a bridge receives; the first mapping that matches is used.\<close>

fun bridge_map_in :: "mqtt3_bridge_topic list \<Rightarrow> string \<Rightarrow> string cres" where
  "bridge_map_in [] topic = Ok topic"
| "bridge_map_in (cur_topic # topics) topic =
     (if (bt_direction cur_topic = bd_both \<or> bt_direction cur_topic = bd_in)
         \<and> (bt_remote_prefix cur_topic \<noteq> None \<or> bt_local_prefix cur_topic \<noteq> None)
      then case mosquitto_topic_matches_sub (bt_remote_topic cur_topic) topic of
             (rc, match) \<Rightarrow>
               if rc \<noteq> 0 then Err rc
               else if match = Some True
               then Ok (map_topic (bt_remote_prefix cur_topic) (bt_local_prefix cur_topic) topic)
               else bridge_map_in topics topic
      else bridge_map_in topics topic)"

definition publish_map_topic :: "mosquitto \<Rightarrow> string \<Rightarrow> string handler" where
  "publish_map_topic m topic =
     (case ctx_bridge m of
        None \<Rightarrow> hreturn topic
      | Some bridge \<Rightarrow>
          if br_topics bridge \<noteq> [] \<and> br_topic_remapping bridge
          then case bridge_map_in (br_topics bridge) topic of
                 Ok topic \<Rightarrow> hreturn topic | Err rc \<Rightarrow> hraise rc | Abort \<Rightarrow> hraise 1
          else hreturn topic)"

text \<open>The topic of a PUBLISH: read, remapped and checked.\<close>

definition publish_topic :: "mosq_env \<Rightarrow> ctxid \<Rightarrow> string handler" where
  "publish_topic e c =
     hbind (hread_or (\<lambda>_. 1) c (read_c_string (env_malloc e))) (\<lambda>topic.
     hbind (hwhen (topic = []) (hraise 1)) (\<lambda>_.
     hbind (hctx c id) (\<lambda>m.
     hbind (publish_map_topic m topic) (\<lambda>topic.
     hbind (hwhen (mosquitto_pub_topic_check topic \<noteq> MOSQ_ERR_SUCCESS) (hraise 1)) (\<lambda>_. hreturn topic)))))"

text \<open>Label \<open>process_bad_message\<close>: the message is acknowledged but not delivered.\<close>

definition process_bad_message :: "mosq_env \<Rightarrow> ctxid \<Rightarrow> int \<Rightarrow> u16 \<Rightarrow> int handler" where
  "process_bad_message e c qos mid =
     (if qos = 0 then hreturn MOSQ_ERR_SUCCESS
      else if qos = 1 then hsend c (\<lambda>m. mosquitto_send_puback e m mid)
      else if qos = 2 then
        hbind (hget (\<lambda>db. snd (mqtt3_db_message_store_find db c mid))) (\<lambda>found.
        hbind (case found of
                 Some _ \<Rightarrow> hreturn 0
               | None \<Rightarrow>
                   hbind (hctx c ctx_id) (\<lambda>client.
                   hbind (hcall (\<lambda>db. case mqtt3_db_message_store e db (case client of None \<Rightarrow> [] | Some i \<Rightarrow> i)
                                        mid None qos [] False 0 of (rc, s, db) \<Rightarrow> ((rc, s), db))) (\<lambda>(rc, s).
                     case s of
                       None \<Rightarrow> hraise 1
                     | Some stored \<Rightarrow>
                         hcall (\<lambda>db. mqtt3_db_message_insert e db c mid mosq_md_in qos False stored)))) (\<lambda>res.
          if res = 0 then hsend c (\<lambda>m. mosquitto_send_pubrec e m mid) else hreturn res))
      else hreturn 1)"

text \<open>The stored message of a PUBLISH: one with the same identifier, or a new one.\<close>

definition publish_store :: "mosq_env \<Rightarrow> ctxid \<Rightarrow> string \<Rightarrow> int \<Rightarrow> u16 \<Rightarrow> string \<Rightarrow> byte list \<Rightarrow> bool
    \<Rightarrow> (bool \<times> storeid) handler" where
  "publish_store e c client qos mid topic payload retain =
     hbind (if qos > 0 then hget (\<lambda>db. snd (mqtt3_db_message_store_find db c mid)) else hreturn None) (\<lambda>found.
       case found of
         Some stored \<Rightarrow> hreturn (True, stored)
       | None \<Rightarrow>
           hbind (hcall (\<lambda>db. case mqtt3_db_message_store e db client mid (Some topic) qos payload retain 0 of
                                (rc, s, db) \<Rightarrow> ((rc, s), db))) (\<lambda>(rc, s).
             case s of None \<Rightarrow> hraise 1 | Some stored \<Rightarrow> hreturn (False, stored)))"

text \<open>The \<open>switch(qos)\<close> that delivers and acknowledges.\<close>

definition publish_deliver :: "mosq_env \<Rightarrow> ctxid \<Rightarrow> string \<Rightarrow> int \<Rightarrow> u16 \<Rightarrow> string \<Rightarrow> bool \<Rightarrow> bool \<Rightarrow> storeid \<Rightarrow> int handler" where
  "publish_deliver e c client qos mid topic retain dup stored =
     (if qos = 0 then
        hbind (hcall (\<lambda>db. mqtt3_db_messages_queue e db client topic qos retain stored)) (\<lambda>r.
          hreturn (if r \<noteq> 0 then 1 else 0))
      else if qos = 1 then
        hbind (hcall (\<lambda>db. mqtt3_db_messages_queue e db client topic qos retain stored)) (\<lambda>r.
        hbind (hsend c (\<lambda>m. mosquitto_send_puback e m mid)) (\<lambda>r'.
          hreturn (if r \<noteq> 0 \<or> r' \<noteq> 0 then 1 else 0)))
      else if qos = 2 then
        hbind (if dup then hreturn 0
               else hcall (\<lambda>db. mqtt3_db_message_insert e db c mid mosq_md_in qos retain stored)) (\<lambda>res.
          if res = 0
          then hbind (hsend c (\<lambda>m. mosquitto_send_pubrec e m mid)) (\<lambda>r. hreturn (if r \<noteq> 0 then 1 else 0))
          else hreturn (if res = 1 then 1 else 0))
      else hreturn 0)"

text \<open>
  The payload: what is left of the packet.  \<open>None\<close> stands for a message above the size limit.
\<close>

definition publish_payload :: "mosq_env \<Rightarrow> ctxid \<Rightarrow> u32 \<Rightarrow> byte list option handler" where
  "publish_payload e c payloadlen =
     (let limit = cfg_message_size_limit (env_config e)
      in if payloadlen = 0 then hreturn (Some [])
         else if limit \<noteq> 0 \<and> payloadlen > limit then hreturn None
         else hbind (halloc e (unat payloadlen + 1) 1) (\<lambda>_.
              hbind (hread_or (\<lambda>_. 1) c (\<lambda>packet. mosquitto_read_bytes packet payloadlen)) (\<lambda>payload.
                hreturn (Some payload))))"

definition publish_accept :: "mosq_env \<Rightarrow> ctxid \<Rightarrow> int \<Rightarrow> u16 \<Rightarrow> bool \<Rightarrow> string \<Rightarrow> byte list \<Rightarrow> int handler" where
  "publish_accept e c qos mid retain topic payload =
     hbind (hacl e c topic MOSQ_ACL_WRITE) (\<lambda>rc.
       if rc = MOSQ_ERR_ACL_DENIED then process_bad_message e c qos mid
       else if rc \<noteq> MOSQ_ERR_SUCCESS then hraise rc
       else hbind (hctx c ctx_id) (\<lambda>client.
            let client = (case client of None \<Rightarrow> [] | Some i \<Rightarrow> i)
            in hbind (publish_store e c client qos mid topic payload retain) (\<lambda>(dup, stored).
                 publish_deliver e c client qos mid topic retain dup stored)))"

definition mqtt3_handle_publish :: "mosq_env \<Rightarrow> ctxid \<Rightarrow> int handler" where
  "mqtt3_handle_publish e c =
     hbind (hctx c (\<lambda>m. pkt_command (ctx_in_packet m))) (\<lambda>header.
     let qos = publish_qos header; retain = publish_retain header in
     hbind (hwhen (qos = 3) (hraise 1)) (\<lambda>_.
     hbind (publish_topic e c) (\<lambda>topic.
     hbind (if qos > 0 then hread_or (\<lambda>_. 1) c mosquitto_read_uint16 else hreturn 0) (\<lambda>mid.
     hbind (hctx c (\<lambda>m. pkt_remaining_length (ctx_in_packet m) - pkt_pos (ctx_in_packet m))) (\<lambda>payloadlen.
     hbind (hset c (add_stats (\<lambda>s. s\<lparr>g_pub_bytes_received := g_pub_bytes_received s + ucast payloadlen\<rparr>))) (\<lambda>_.
     hbind (hmount e c topic) (\<lambda>topic.
     hbind (publish_payload e c payloadlen) (\<lambda>payload.
       case payload of
         None \<Rightarrow> process_bad_message e c qos mid
       | Some payload \<Rightarrow> publish_accept e c qos mid retain topic payload))))))))"

section \<open>SUBSCRIBE and UNSUBSCRIBE\<close>

text \<open>A filter of the packet: empty and malformed ones end the connection.\<close>

definition read_filter :: "mosq_env \<Rightarrow> ctxid \<Rightarrow> string handler" where
  "read_filter e c =
     hbind (hread_or (\<lambda>_. 1) c (read_c_string (env_malloc e))) (\<lambda>sub.
     hbind (hwhen (sub = [] \<or> mosquitto_sub_topic_check sub \<noteq> MOSQ_ERR_SUCCESS) (hraise 1)) (\<lambda>_. hreturn sub))"

text \<open>One subscription: the codes granted so far and the return code so far are extended.\<close>

definition subscribe_item :: "mosq_env \<Rightarrow> ctxid \<Rightarrow> byte list \<Rightarrow> int \<Rightarrow> (byte list \<times> int) handler" where
  "subscribe_item e c payload rc =
     hbind (read_filter e c) (\<lambda>sub.
     hbind (hread_or (\<lambda>_. 1) c mosquitto_read_byte) (\<lambda>qos.
     hbind (hwhen (qos > 2) (hraise 1)) (\<lambda>_.
     hbind (hmount e c sub) (\<lambda>sub.
     hbind (hcall (\<lambda>db. mqtt3_sub_add db c sub (uint qos))) (\<lambda>rc2.
     hbind (if rc2 = MOSQ_ERR_SUCCESS
            then hbind (hcall (\<lambda>db. mqtt3_retain_queue e db c sub (uint qos))) (\<lambda>r.
                   hreturn (if r \<noteq> 0 then 1 else rc))
            else hreturn (if rc2 \<noteq> -1 then rc2 else rc)) (\<lambda>rc.
     hbind (halloc e (length payload + 1) MOSQ_ERR_NOMEM) (\<lambda>_.
       hreturn (payload @ [qos], rc))))))))"

partial_function (option) subscribe_loop :: "mosq_env \<Rightarrow> ctxid \<Rightarrow> byte list \<Rightarrow> int \<Rightarrow> mosquitto_db
    \<Rightarrow> ((int + (byte list \<times> int)) \<times> mosquitto_db) option" where
  "subscribe_loop e c payload rc db =
     (let packet = ctx_in_packet (db_contexts db c)
      in if pkt_pos packet < pkt_remaining_length packet
         then case subscribe_item e c payload rc db of
                None \<Rightarrow> None
              | Some (r, db) \<Rightarrow>
                  (case r of Inl rc \<Rightarrow> Some (Inl rc, db) | Inr x \<Rightarrow> subscribe_loop e c (fst x) (snd x) db)
         else Some (Inr (payload, rc), db))"

declare subscribe_loop.simps [code]

text \<open>In MQTT 3.1.1 the reserved bits of some commands are fixed.\<close>

definition hreserved :: "ctxid \<Rightarrow> u8 \<Rightarrow> unit handler" where
  "hreserved c bits =
     hbind (hctx c (\<lambda>m. ctx_protocol m = mosq_p_mqtt311 \<and> pkt_command (ctx_in_packet m) AND 0x0F \<noteq> bits)) (\<lambda>bad.
       hwhen bad (hraise MOSQ_ERR_PROTOCOL))"

definition count_change :: "mosquitto_db \<Rightarrow> mosquitto_db" where
  "count_change db = db\<lparr>db_persistence_changes := db_persistence_changes db + 1\<rparr>"

definition mqtt3_handle_subscribe :: "mosq_env \<Rightarrow> ctxid \<Rightarrow> int handler" where
  "mqtt3_handle_subscribe e c =
     hbind (hreserved c 0x02) (\<lambda>_.
     hbind (hread_or (\<lambda>_. 1) c mosquitto_read_uint16) (\<lambda>mid.
     hbind (subscribe_loop e c [] 0) (\<lambda>(payload, rc).
     hbind (hctx c ctx_protocol) (\<lambda>protocol.
     hbind (hwhen (protocol = mosq_p_mqtt311 \<and> payload = []) (hraise MOSQ_ERR_PROTOCOL)) (\<lambda>_.
     hbind (hsend c (\<lambda>m. mosquitto_send_suback e m mid (of_nat (length payload)) payload)) (\<lambda>r.
     hbind (hupd count_change) (\<lambda>_.
       hreturn (if r \<noteq> 0 then 1 else rc))))))))"

definition unsubscribe_item :: "mosq_env \<Rightarrow> ctxid \<Rightarrow> unit handler" where
  "unsubscribe_item e c =
     hbind (read_filter e c) (\<lambda>sub. hignore (hcall (\<lambda>db. mqtt3_sub_remove db c sub)))"

partial_function (option) unsubscribe_loop :: "mosq_env \<Rightarrow> ctxid \<Rightarrow> mosquitto_db
    \<Rightarrow> ((int + unit) \<times> mosquitto_db) option" where
  "unsubscribe_loop e c db =
     (let packet = ctx_in_packet (db_contexts db c)
      in if pkt_pos packet < pkt_remaining_length packet
         then case unsubscribe_item e c db of
                None \<Rightarrow> None
              | Some (r, db) \<Rightarrow>
                  (case r of Inl rc \<Rightarrow> Some (Inl rc, db) | Inr _ \<Rightarrow> unsubscribe_loop e c db)
         else Some (Inr (), db))"

declare unsubscribe_loop.simps [code]

definition mqtt3_handle_unsubscribe :: "mosq_env \<Rightarrow> ctxid \<Rightarrow> int handler" where
  "mqtt3_handle_unsubscribe e c =
     hbind (hreserved c 0x02) (\<lambda>_.
     hbind (hread_or (\<lambda>_. 1) c mosquitto_read_uint16) (\<lambda>mid.
     hbind (unsubscribe_loop e c) (\<lambda>_.
     hbind (hupd count_change) (\<lambda>_.
       hsend c (\<lambda>m. mosquitto_send_command_with_mid e m UNSUBACK mid False)))))"

section \<open>DISCONNECT\<close>

definition mqtt3_handle_disconnect :: "mosq_env \<Rightarrow> ctxid \<Rightarrow> int handler" where
  "mqtt3_handle_disconnect e c =
     hbind (hctx c id) (\<lambda>m.
     hbind (hwhen (pkt_remaining_length (ctx_in_packet m) \<noteq> 0) (hraise MOSQ_ERR_PROTOCOL)) (\<lambda>_.
       if ctx_protocol m = mosq_p_mqtt311 \<and> pkt_command (ctx_in_packet m) AND 0x0F \<noteq> 0
       then hbind (hupd (do_disconnect e c)) (\<lambda>_. hreturn MOSQ_ERR_PROTOCOL)
       else hbind (hset c (\<lambda>m. m\<lparr>ctx_state := mosq_cs_disconnecting\<rparr>)) (\<lambda>_.
            hbind (hupd (do_disconnect e c)) (\<lambda>_. hreturn MOSQ_ERR_SUCCESS))))"

section \<open>CONNACK\<close>

text \<open>A bridge announces that it is connected, at both ends.\<close>

definition connack_notify :: "mosq_env \<Rightarrow> ctxid \<Rightarrow> mqtt3_bridge \<Rightarrow> unit handler" where
  "connack_notify e c bridge =
     (let payload = bytes_of_string ''1'';
          announce = (\<lambda>topic.
            hbind (hsend c (\<lambda>m. case mosquitto_mid_generate m of
                     (mid, m) \<Rightarrow> mosquitto_send_real_publish e m mid topic 1 payload 1 True False)) (\<lambda>r.
            hbind (hwhen (r \<noteq> 0) (hraise 1)) (\<lambda>_.
              hignore (hcall (\<lambda>db. mqtt3_db_messages_easy_queue e db (Some c) (Some topic) 1 payload True)))))
      in case br_notification_topic bridge of
           Some topic \<Rightarrow> announce topic
         | None \<Rightarrow>
             let topic = ''$SYS/broker/connection/'' @ br_remote_clientid bridge @ ''/state''
             in hbind (halloc e (length topic + 1) MOSQ_ERR_NOMEM) (\<lambda>_. announce topic))"

fun connack_topics :: "mosq_env \<Rightarrow> ctxid \<Rightarrow> bool \<Rightarrow> mqtt3_bridge_topic list \<Rightarrow> unit handler" where
  "connack_topics e c attempt_unsubscribe [] = hreturn ()"
| "connack_topics e c attempt_unsubscribe (t # ts) =
     hbind (if bt_direction t = bd_in \<or> bt_direction t = bd_both
            then hsend c (\<lambda>m. mosquitto_send_subscribe e m (bt_remote_topic t) (of_int (bt_qos t)))
            else if attempt_unsubscribe then hsend c (\<lambda>m. mosquitto_send_unsubscribe e m (bt_remote_topic t))
            else hreturn 0) (\<lambda>r.
     hbind (hwhen (r \<noteq> 0) (hraise 1)) (\<lambda>_. connack_topics e c attempt_unsubscribe ts))"

definition mqtt3_handle_connack :: "mosq_env \<Rightarrow> ctxid \<Rightarrow> int handler" where
  "mqtt3_handle_connack e c =
     hbind (hread_or (\<lambda>_. 1) c mosquitto_read_byte) (\<lambda>_.
     hbind (hread_or (\<lambda>_. 1) c mosquitto_read_byte) (\<lambda>rc.
     hbind (hctx c ctx_bridge) (\<lambda>bridge.
       if rc = 0
       then hbind (case bridge of
                     None \<Rightarrow> hreturn ()
                   | Some bridge \<Rightarrow>
                       hbind (hwhen (br_notifications bridge) (connack_notify e c bridge)) (\<lambda>_.
                         connack_topics e c (br_attempt_unsubscribe bridge) (br_topics bridge))) (\<lambda>_.
            hbind (hset c (\<lambda>m. m\<lparr>ctx_state := mosq_cs_connected\<rparr>)) (\<lambda>_. hreturn MOSQ_ERR_SUCCESS))
       else if rc = 1
       then hbind (hset c (\<lambda>m. case ctx_bridge m of
                      None \<Rightarrow> m
                    | Some bridge \<Rightarrow> m\<lparr>ctx_bridge := Some (bridge\<lparr>br_try_private_accepted := False\<rparr>)\<rparr>)) (\<lambda>_.
            hraise 1)
       else hraise 1)))"

end
