(* ===== verification/Mosq_Connect.thy ===== *)
theory Mosq_Connect
  imports Mosq_Handle
begin

text \<open>
  CONNECT (\<open>mqtt3_handle_connect\<close> of \<open>read_handle_server.c\<close>), the dispatch of a packet to its handler
  (\<open>read_handle.c\<close>), reading a packet to its end (\<open>net_mosq.c\<close>) and the main loop (\<open>loop.c\<close>).

  \<open>mqtt3_handle_connect\<close> is given in the stages its comments and blank lines suggest: protocol,
  flags, client identifier, will, user name and password, the session of an earlier
  connection, access control, and the acknowledgement.  \<open>goto handle_connect_error\<close> is an early
  return; the memory it frees is local to the function.
\<close>

section \<open>The fields of CONNECT\<close>

definition refuse :: "mosq_env \<Rightarrow> ctxid \<Rightarrow> u8 \<Rightarrow> int \<Rightarrow> 'a handler" where
  "refuse e c result rc = hbind (hsend c (\<lambda>m. mosquitto_send_connack e m 0 result)) (\<lambda>_. hraise rc)"

definition connect_protocol :: "mosq_env \<Rightarrow> ctxid \<Rightarrow> u8 handler" where
  "connect_protocol e c =
     hbind (hctx c id) (\<lambda>m.
     hbind (hwhen (ctx_state m \<noteq> mosq_cs_new) (hraise MOSQ_ERR_PROTOCOL)) (\<lambda>_.
     hbind (hread_or (\<lambda>_. 1) c (read_c_string (env_malloc e))) (\<lambda>protocol_name.
     hbind (hread_or (\<lambda>_. 1) c mosquitto_read_byte) (\<lambda>protocol_version.
     hbind (if protocol_name = ''MQIsdp''
            then if protocol_version AND 0x7F \<noteq> 3 then refuse e c 1 MOSQ_ERR_PROTOCOL
                 else hset c (\<lambda>m. m\<lparr>ctx_protocol := mosq_p_mqtt31\<rparr>)
            else if protocol_name = ''MQTT''
            then if protocol_version AND 0x7F \<noteq> 4 then refuse e c 1 MOSQ_ERR_PROTOCOL
                 else if pkt_command (ctx_in_packet m) AND 0x0F \<noteq> 0 then hraise MOSQ_ERR_PROTOCOL
                 else hset c (\<lambda>m. m\<lparr>ctx_protocol := mosq_p_mqtt311\<rparr>)
            else hraise MOSQ_ERR_PROTOCOL) (\<lambda>_. hreturn protocol_version)))))"

definition will_qos_of :: "u8 \<Rightarrow> int" where
  "will_qos_of connect_flags = uint (drop_bit 3 (connect_flags AND 0x18))"

definition connect_flags :: "ctxid \<Rightarrow> u8 handler" where
  "connect_flags c =
     hbind (hread_or (\<lambda>_. 1) c mosquitto_read_byte) (\<lambda>flags.
     hbind (hctx c ctx_protocol) (\<lambda>protocol.
     hbind (hwhen (protocol = mosq_p_mqtt311 \<and> flags AND 0x01 \<noteq> 0 \<or> will_qos_of flags = 3)
              (hraise MOSQ_ERR_PROTOCOL)) (\<lambda>_.
     hbind (hread_or (\<lambda>_. 1) c mosquitto_read_uint16) (\<lambda>keepalive.
     hbind (hset c (\<lambda>m. m\<lparr>ctx_keepalive := keepalive\<rparr>)) (\<lambda>_. hreturn flags)))))"

text \<open>
  A made-up identifier: the prefix and 64 characters.  The terminating NUL is written at index 64,
  which does not count the prefix.
\<close>

definition client_id_gen :: "mosq_env \<Rightarrow> string handler" where
  "client_id_gen e =
     (let id_prefix = cfg_auto_id_prefix (env_config e)
      in hbind (halloc e (65 + length id_prefix) MOSQ_ERR_NOMEM) (\<lambda>_.
           hreturn (take 64 (id_prefix @ map (\<lambda>i. char_of (env_rand e i mod 73 + 48)) [0..<64]))))"

definition connect_client_id :: "mosq_env \<Rightarrow> ctxid \<Rightarrow> u8 \<Rightarrow> string handler" where
  "connect_client_id e c flags =
     hbind (hread_or (\<lambda>_. 1) c (read_c_string (env_malloc e))) (\<lambda>client_id.
     hbind (hctx c ctx_protocol) (\<lambda>protocol.
     hbind (if client_id \<noteq> [] then hreturn client_id
            else if protocol = mosq_p_mqtt31 then refuse e c 2 MOSQ_ERR_PROTOCOL
            else if flags AND 0x02 = 0 \<or> \<not> cfg_allow_zero_length_clientid (env_config e)
            then refuse e c 2 MOSQ_ERR_PROTOCOL
            else client_id_gen e) (\<lambda>client_id.
       case cfg_clientid_prefixes (env_config e) of
         None \<Rightarrow> hreturn client_id
       | Some id_prefix \<Rightarrow>
           if take (length id_prefix) client_id = id_prefix then hreturn client_id else refuse e c 5 1)))"

definition connect_will :: "mosq_env \<Rightarrow> ctxid \<Rightarrow> u8 \<Rightarrow> mosquitto_message option handler" where
  "connect_will e c flags =
     (if flags AND 0x04 \<noteq> 0
      then hbind (hread_or (\<lambda>_. 1) c (read_c_string (env_malloc e))) (\<lambda>topic.
           hbind (hwhen (topic = []) (hraise 1)) (\<lambda>_.
           hbind (hmount e c topic) (\<lambda>topic.
           hbind (hwhen (mosquitto_pub_topic_check topic \<noteq> MOSQ_ERR_SUCCESS) (hraise 1)) (\<lambda>_.
           hbind (hread_or (\<lambda>_. 1) c mosquitto_read_uint16) (\<lambda>payloadlen.
           hbind (if payloadlen > 0
                  then hbind (halloc e (unat payloadlen) 1) (\<lambda>_.
                         hread_or (\<lambda>_. 1) c (\<lambda>packet. mosquitto_read_bytes packet (ucast payloadlen)))
                  else hreturn []) (\<lambda>payload.
             hreturn (Some \<lparr>will_topic = topic, will_payload = payload, will_qos = will_qos_of flags,
                            will_retain = (flags AND 0x20 = 0x20)\<rparr>)))))))
      else hbind (hctx c ctx_protocol) (\<lambda>protocol.
             if protocol = mosq_p_mqtt311 \<and> (will_qos_of flags \<noteq> 0 \<or> flags AND 0x20 = 0x20)
             then hraise MOSQ_ERR_PROTOCOL else hreturn None))"

text \<open>
  User name and password.  The result says as well whether the user name counts as given: MQTT 3.1
  ignores a flag without a value.
\<close>

definition connect_login :: "mosq_env \<Rightarrow> ctxid \<Rightarrow> u8 \<Rightarrow> (bool \<times> string option \<times> string option) handler" where
  "connect_login e c flags =
     hbind (hctx c ctx_protocol) (\<lambda>protocol.
       if flags AND 0x80 \<noteq> 0
       then hbind (hread_rc c (read_c_string (env_malloc e))) (\<lambda>r.
              case r of
                Inr username \<Rightarrow>
                  if flags AND 0x40 \<noteq> 0
                  then hbind (hread_rc c (read_c_string (env_malloc e))) (\<lambda>r.
                         case r of
                           Inr password \<Rightarrow> hreturn (True, Some username, Some password)
                         | Inl rc \<Rightarrow>
                             if rc = MOSQ_ERR_NOMEM then hraise MOSQ_ERR_NOMEM
                             else if rc = MOSQ_ERR_PROTOCOL \<and> protocol = mosq_p_mqtt311 then hraise MOSQ_ERR_PROTOCOL
                             else hreturn (True, Some username, None))
                  else hreturn (True, Some username, None)
              | Inl rc \<Rightarrow>
                  if rc = MOSQ_ERR_NOMEM then hraise MOSQ_ERR_NOMEM
                  else if protocol = mosq_p_mqtt31 then hreturn (False, None, None)
                  else if protocol = mosq_p_mqtt311 then hraise MOSQ_ERR_PROTOCOL
                  else hreturn (True, None, None))
       else if protocol = mosq_p_mqtt311 \<and> flags AND 0x40 \<noteq> 0 then hraise MOSQ_ERR_PROTOCOL
       else hreturn (False, None, None))"

definition connect_auth :: "mosq_env \<Rightarrow> ctxid \<Rightarrow> bool \<Rightarrow> string option \<Rightarrow> string option \<Rightarrow> unit handler" where
  "connect_auth e c username_flag username password =
     (if username_flag
      then hbind (hget (\<lambda>db. mosquitto_unpwd_check e db username password)) (\<lambda>rc.
             if rc = MOSQ_ERR_SUCCESS
             then hset c (\<lambda>m. m\<lparr>ctx_username := username, ctx_password := password\<rparr>)
             else hbind (if rc = MOSQ_ERR_AUTH
                         then hignore (hsend c (\<lambda>m. mosquitto_send_connack e m 0 5)) else hreturn ()) (\<lambda>_.
                  hbind (hupd (mqtt3_context_disconnect e c)) (\<lambda>_. hraise 1)))
      else if \<not> cfg_allow_anonymous (env_config e) then refuse e c 5 1
      else hreturn ())"

definition use_username_as_clientid :: "mosq_env \<Rightarrow> mosquitto \<Rightarrow> bool" where
  "use_username_as_clientid e m =
     (case ctx_listener m of
        None \<Rightarrow> False
      | Some l \<Rightarrow> l < length (cfg_listeners (env_config e))
          \<and> lst_use_username_as_clientid (cfg_listeners (env_config e) ! l))"

definition connect_username_id :: "mosq_env \<Rightarrow> ctxid \<Rightarrow> string \<Rightarrow> string handler" where
  "connect_username_id e c client_id =
     hbind (hctx c id) (\<lambda>m.
       if use_username_as_clientid e m
       then case ctx_username m of Some username \<Rightarrow> hreturn username | None \<Rightarrow> refuse e c 5 1
       else hreturn client_id)"

section \<open>The session of an earlier connection\<close>

text \<open>The leaves of a node that belong to \<open>found\<close> are given to \<open>c\<close>.\<close>

definition move_leaves :: "ctxid \<Rightarrow> ctxid \<Rightarrow> (ctxid \<times> int) list \<Rightarrow> (ctxid \<times> int) list" where
  "move_leaves found c = map (\<lambda>(d, qos). (if d = found then c else d, qos))"

definition take_slot :: "ctxid \<Rightarrow> ctxid \<Rightarrow> string list option \<Rightarrow> mosquitto_db \<Rightarrow> mosquitto_db" where
  "take_slot found c slot db =
     (case slot of
        None \<Rightarrow> db
      | Some path \<Rightarrow>
          (case node_at (db_subs db) path of
             None \<Rightarrow> db\<lparr>db_aborted := True\<rparr>
           | Some _ \<Rightarrow>
               db\<lparr>db_subs := upd_node_at (\<lambda>node. set_subs (move_leaves found c (sh_subs node)) node) path (db_subs db)\<rparr>))"

definition take_messages :: "ctxid \<Rightarrow> ctxid \<Rightarrow> mosquitto_db \<Rightarrow> mosquitto_db" where
  "take_messages found c db =
     (let msgs = ctx_msgs (db_contexts db found)
      in if msgs \<noteq> []
         then snd (mqtt3_db_message_reconnect_reset
                (upd_ctx found (\<lambda>m. m\<lparr>ctx_msgs := []\<rparr>) (upd_ctx c (\<lambda>m. m\<lparr>ctx_msgs := msgs\<rparr>) db)) c)
         else db)"

definition take_subs :: "ctxid \<Rightarrow> ctxid \<Rightarrow> mosquitto_db \<Rightarrow> mosquitto_db" where
  "take_subs found c db =
     (let f = db_contexts db found;
          db = upd_ctx found (\<lambda>m. m\<lparr>ctx_subs := []\<rparr>)
                 (upd_ctx c (\<lambda>m. m\<lparr>ctx_subs := ctx_subs f, ctx_last_mid := ctx_last_mid f\<rparr>) db)
      in foldl (\<lambda>db slot. take_slot found c slot db) db (ctx_subs f))"

definition retire :: "mosq_env \<Rightarrow> ctxid \<Rightarrow> mosquitto_db \<Rightarrow> mosquitto_db" where
  "retire e found db =
     do_disconnect e found
       (upd_ctx found (\<lambda>m. m\<lparr>ctx_clean_session := True, ctx_state := mosq_cs_disconnecting\<rparr>) db)"

definition connect_session :: "mosq_env \<Rightarrow> ctxid \<Rightarrow> string \<Rightarrow> bool \<Rightarrow> u8 handler" where
  "connect_session e c client_id clean_session =
     hbind (hget (\<lambda>db. map_of (db_contexts_by_id db) client_id)) (\<lambda>found.
       case found of
         None \<Rightarrow> hreturn 0
       | Some found \<Rightarrow>
           hbind (hctx c ctx_protocol) (\<lambda>protocol.
           hbind (hset c (\<lambda>m. m\<lparr>ctx_clean_session := clean_session\<rparr>)) (\<lambda>_.
           hbind (hctx found ctx_clean_session) (\<lambda>found_clean.
           hbind (hwhen (\<not> clean_session \<and> \<not> found_clean)
                    (hupd (\<lambda>db. take_subs found c (take_messages found c db)))) (\<lambda>_.
           hbind (hupd (retire e found)) (\<lambda>_.
             hreturn (if protocol = mosq_p_mqtt311 \<and> \<not> clean_session then 1 else 0)))))))"

section \<open>Access control\<close>

definition connect_acl :: "ctxid \<Rightarrow> mosquitto_db \<Rightarrow> mosquitto_db" where
  "connect_acl c db =
     (if db_acl_list db \<noteq> []
      then case find_acl_user db (db_contexts db c) of
             None \<Rightarrow> db
           | Some u \<Rightarrow> upd_ctx c (\<lambda>m. m\<lparr>ctx_acl_list := Some u\<rparr>) db
      else upd_ctx c (\<lambda>m. m\<lparr>ctx_acl_list := None\<rparr>) db)"

text \<open>
  Removing a queued message.  \<open>last_msg\<close> is corrected only when the first message is removed, and
  the counts are not.
\<close>

definition prune_msg :: "ctxid \<Rightarrow> nat \<Rightarrow> mosquitto_db \<Rightarrow> mosquitto_db" where
  "prune_msg c i db =
     upd_ctx c (\<lambda>m. m\<lparr>ctx_msgs := take i (ctx_msgs m) @ drop (Suc i) (ctx_msgs m),
         ctx_last_msg := (if Suc i = length (ctx_msgs m) \<and> ctx_last_msg m = LastValid
                          then if i = 0 then LastNull else LastDangling else ctx_last_msg m)\<rparr>)
       (msg_store_deref db (cmsg_store (ctx_msgs (db_contexts db c) ! i)))"

lemma prune_msg_length:
  "i < length (ctx_msgs (db_contexts db c)) \<Longrightarrow>
   length (ctx_msgs (db_contexts (prune_msg c i db) c)) = length (ctx_msgs (db_contexts db c)) - 1"
  by (simp add: prune_msg_def)

function prune_loop_acl :: "mosq_env \<Rightarrow> ctxid \<Rightarrow> nat \<Rightarrow> mosquitto_db \<Rightarrow> mosquitto_db" where
  "prune_loop_acl e c i db =
     (if i < length (ctx_msgs (db_contexts db c))
      then let msg = ctx_msgs (db_contexts db c) ! i
           in if cmsg_direction msg = mosq_md_out
              then case acl_check_stored e db (db_contexts db c) (store_topic (db_stores db (cmsg_store msg))) MOSQ_ACL_READ of
                     None \<Rightarrow> db\<lparr>db_aborted := True\<rparr>
                   | Some rc \<Rightarrow>
                       if rc \<noteq> MOSQ_ERR_SUCCESS then prune_loop_acl e c i (prune_msg c i db)
                       else prune_loop_acl e c (i + 1) db
              else prune_loop_acl e c (i + 1) db
      else db)"
  by pat_completeness auto
termination
  by (relation "measure (\<lambda>(e, c, i, db). length (ctx_msgs (db_contexts db c)) - i)")
    (auto simp: prune_msg_length)

declare prune_loop_acl.simps [simp del]

section \<open>CONNECT\<close>

definition connect_accept :: "mosq_env \<Rightarrow> ctxid \<Rightarrow> string \<Rightarrow> bool \<Rightarrow> u8 \<Rightarrow> mosquitto_message option \<Rightarrow> u8 \<Rightarrow> int handler" where
  "connect_accept e c client_id clean_session protocol_version will connect_ack =
     hbind (hupd (connect_acl c)) (\<lambda>_.
     hbind (hset c (\<lambda>m. case will of None \<Rightarrow> m | Some _ \<Rightarrow> m\<lparr>ctx_will := will\<rparr>)) (\<lambda>_.
     hbind (hset c (\<lambda>m. m\<lparr>ctx_id := Some client_id, ctx_clean_session := clean_session, ctx_ping_t := 0,
              ctx_is_dropping := False,
              ctx_is_bridge := (if protocol_version AND 0x80 = 0x80 then True else ctx_is_bridge m)\<rparr>)) (\<lambda>_.
     hbind (hupd (prune_loop_acl e c 0)) (\<lambda>_.
     hbind (hupd (\<lambda>db. db\<lparr>db_contexts_by_id := db_contexts_by_id db @ [(client_id, c)]\<rparr>)) (\<lambda>_.
     hbind (hwhen (\<not> clean_session) (hupd count_change)) (\<lambda>_.
     hbind (hset c (\<lambda>m. m\<lparr>ctx_state := mosq_cs_connected\<rparr>)) (\<lambda>_.
       hsend c (\<lambda>m. mosquitto_send_connack e m connect_ack 0))))))))"

definition mqtt3_handle_connect :: "mosq_env \<Rightarrow> ctxid \<Rightarrow> int handler" where
  "mqtt3_handle_connect e c =
     hbind (hupd (\<lambda>db. db\<lparr>db_connection_count := db_connection_count db + 1\<rparr>)) (\<lambda>_.
     hbind (connect_protocol e c) (\<lambda>protocol_version.
     hbind (connect_flags c) (\<lambda>flags.
     hbind (connect_client_id e c flags) (\<lambda>client_id.
     hbind (connect_will e c flags) (\<lambda>will.
     hbind (connect_login e c flags) (\<lambda>(username_flag, username, password).
     hbind (connect_auth e c username_flag username password) (\<lambda>_.
     hbind (connect_username_id e c client_id) (\<lambda>client_id.
     let clean_session = (flags AND 0x02 \<noteq> 0) in
     hbind (connect_session e c client_id clean_session) (\<lambda>connect_ack.
       connect_accept e c client_id clean_session protocol_version will connect_ack)))))))))"

section \<open>Dispatch and reading\<close>

definition mqtt3_packet_handle :: "mosq_env \<Rightarrow> ctxid \<Rightarrow> int handler" where
  "mqtt3_packet_handle e c =
     hbind (hctx c (\<lambda>m. pkt_command (ctx_in_packet m) AND 0xF0)) (\<lambda>command.
       if command = PINGREQ then mosquitto_handle_pingreq e c
       else if command = PINGRESP then mosquitto_handle_pingresp e c
       else if command = PUBACK then mosquitto_handle_pubackcomp e c
       else if command = PUBCOMP then mosquitto_handle_pubackcomp e c
       else if command = PUBLISH then mqtt3_handle_publish e c
       else if command = PUBREC then mosquitto_handle_pubrec e c
       else if command = PUBREL then mosquitto_handle_pubrel e c
       else if command = CONNECT then mqtt3_handle_connect e c
       else if command = DISCONNECT then mqtt3_handle_disconnect e c
       else if command = SUBSCRIBE then mqtt3_handle_subscribe e c
       else if command = UNSUBSCRIBE then mqtt3_handle_unsubscribe e c
       else if command = CONNACK then mqtt3_handle_connack e c
       else if command = SUBACK then mosquitto_handle_suback e c
       else if command = UNSUBACK then mosquitto_handle_unsuback e c
       else hraise MOSQ_ERR_PROTOCOL)"

definition finish_packet :: "mosq_env \<Rightarrow> mosquitto \<Rightarrow> mosquitto" where
  "finish_packet e m =
     m\<lparr>ctx_in_packet := mosquitto_packet_cleanup (ctx_in_packet m), ctx_last_msg_in := env_now e\<rparr>"

definition mosquitto_packet_read :: "mosq_env \<Rightarrow> ctxid \<Rightarrow> mosquitto_db \<Rightarrow> (int \<times> mosquitto_db) option" where
  "mosquitto_packet_read e c db =
     (case packet_read_fill e (db_contexts db c) of
        (Some rc, m) \<Rightarrow> Some (rc, upd_ctx c (\<lambda>_. m) db)
      | (None, m) \<Rightarrow>
          (case hrun (mqtt3_packet_handle e c) (upd_ctx c (\<lambda>_. m) db) of
             None \<Rightarrow> None
           | Some (rc, db) \<Rightarrow> Some (rc, upd_ctx c (finish_packet e) db)))"

section \<open>The main loop\<close>

text \<open>
  What \<open>poll\<close> reports for a connection, and what \<open>getsockopt(SO_ERROR)\<close> gives for a connection
  that is being made; \<open>None\<close> for \<open>getsockopt\<close> is a failing call.
\<close>

record poll_events =
  poll_in :: bool
  poll_out :: bool
  poll_err :: bool
  poll_so_error :: "int option"

text \<open>The visit of a connection before \<open>poll\<close>: time-out, or writing out its queue.\<close>

definition loop_client :: "mosq_env \<Rightarrow> ctxid \<Rightarrow> mosquitto_db \<Rightarrow> mosquitto_db option" where
  "loop_client e c db =
     (if ctx_sock (db_contexts db c) = INVALID_SOCKET then Some db
      else let db = (if ctx_bridge (db_contexts db c) \<noteq> None then mosquitto_check_keepalive e c db else db);
               m = db_contexts db c
           in if ctx_keepalive m = 0 \<or> ctx_bridge m \<noteq> None
                 \<or> env_now e - ctx_last_msg_in m < uint (ctx_keepalive m) * 3 div 2
              then case mqtt3_db_message_write e db c of
                     None \<Rightarrow> None
                   | Some (rc, db) \<Rightarrow> Some (if rc = MOSQ_ERR_SUCCESS then db else do_disconnect e c db)
              else Some (do_disconnect e c db))"

text \<open>The expiry of a disconnected persistent client.\<close>

definition loop_expire :: "mosq_env \<Rightarrow> int \<Rightarrow> ctxid \<Rightarrow> mosquitto_db \<Rightarrow> mosquitto_db" where
  "loop_expire e persistent_client_expiration c db =
     (let m = db_contexts db c
      in if ctx_sock m = INVALID_SOCKET \<and> \<not> ctx_clean_session m
            \<and> env_now e > ctx_disconnect_t m + persistent_client_expiration
         then do_disconnect e c (upd_ctx c (\<lambda>m. m\<lparr>ctx_clean_session := True, ctx_state := mosq_cs_expiring\<rparr>) db)
         else db)"

text \<open>The two passes of \<open>loop_handle_reads_writes\<close>.\<close>

definition loop_handle_write :: "mosq_env \<Rightarrow> poll_events \<Rightarrow> ctxid \<Rightarrow> mosquitto_db \<Rightarrow> mosquitto_db" where
  "loop_handle_write e events c db =
     (if \<not> poll_out events then db
      else if ctx_state (db_contexts db c) = mosq_cs_connect_pending \<and> poll_so_error events = None
      then do_disconnect e c db
      else let db = (if ctx_state (db_contexts db c) = mosq_cs_connect_pending \<and> poll_so_error events = Some 0
                     then upd_ctx c (\<lambda>m. m\<lparr>ctx_state := mosq_cs_new\<rparr>) db else db)
           in case mosquitto_packet_write e (db_contexts db c) of
                (rc, m) \<Rightarrow>
                  let db = upd_ctx c (\<lambda>_. m) db
                  in if rc \<noteq> 0 then do_disconnect e c db else db)"

definition loop_handle_read :: "mosq_env \<Rightarrow> poll_events \<Rightarrow> ctxid \<Rightarrow> mosquitto_db \<Rightarrow> mosquitto_db option" where
  "loop_handle_read e events c db =
     (case (if poll_in events
            then (case mosquitto_packet_read e c db of
                    None \<Rightarrow> None
                  | Some (rc, db) \<Rightarrow> Some (if rc \<noteq> 0 then do_disconnect e c db else db))
            else Some db) of
        None \<Rightarrow> None
      | Some db \<Rightarrow> Some (if poll_err events then do_disconnect e c db else db))"

fun loop_clients :: "(ctxid \<Rightarrow> mosquitto_db \<Rightarrow> mosquitto_db option) \<Rightarrow> ctxid list \<Rightarrow> mosquitto_db \<Rightarrow> mosquitto_db option" where
  "loop_clients f [] db = Some db"
| "loop_clients f (c # cs) db = (case f c db of None \<Rightarrow> None | Some db \<Rightarrow> loop_clients f cs db)"

text \<open>
  One round of \<open>mosquitto_main_loop\<close> up to the new connections: \<open>expire\<close> is the configured expiration
  when the hourly check is due, \<open>events\<close> what \<open>poll\<close> reports, \<open>None\<close> for a connection without an entry.
\<close>

definition loop_round :: "mosq_env \<Rightarrow> int option \<Rightarrow> u32 \<Rightarrow> (ctxid \<Rightarrow> poll_events option) \<Rightarrow> mosquitto_db \<Rightarrow> mosquitto_db option" where
  "loop_round e expire retry_interval events db =
     (let db = mosquitto_free_disused_contexts e db
      in case loop_clients (loop_client e) (db_contexts_by_sock db) db of
           None \<Rightarrow> None
         | Some db \<Rightarrow>
             let db = (case expire of
                         None \<Rightarrow> db
                       | Some t \<Rightarrow> foldl (\<lambda>db c. loop_expire e t c db) db (map snd (db_contexts_by_id db)));
                 db = snd (mqtt3_db_message_timeout_check e db retry_interval);
                 db = foldl (\<lambda>db c. case events c of None \<Rightarrow> db | Some ev \<Rightarrow> loop_handle_write e ev c db)
                        db (db_contexts_by_sock db)
             in loop_clients (\<lambda>c db. case events c of None \<Rightarrow> Some db | Some ev \<Rightarrow> loop_handle_read e ev c db)
                  (db_contexts_by_sock db) db)"

end
