(* ===== verification/Mosq_Frame.thy ===== *)
theory Mosq_Frame
  imports Mosq_Connect
begin

text \<open>
  What the operations on messages and subscriptions leave alone: the tables of connections, and of
  every connection its identifier, socket, state and incoming packet.  A connection without an
  identifier gets neither messages nor subscriptions.
\<close>

section \<open>The frame\<close>

definition core where
  "core m = (ctx_id m, ctx_sock m, ctx_listener m, ctx_state m, ctx_bridge m = None, ctx_will m,
     ctx_in_packet m, ctx_clean_session m)"

definition stays_idle :: "mosquitto \<Rightarrow> mosquitto \<Rightarrow> bool" where
  "stays_idle m m' \<longleftrightarrow> (ctx_id m = None \<longrightarrow>
     (ctx_msgs m = [] \<longrightarrow> ctx_msgs m' = [] \<and> (queue_wf m \<longrightarrow> queue_wf m')) \<and> (ctx_subs m = [] \<longrightarrow> ctx_subs m' = []))"

definition frame :: "mosquitto_db \<Rightarrow> mosquitto_db \<Rightarrow> bool" where
  "frame db db' \<longleftrightarrow> db_tables db' = db_tables db
     \<and> (\<forall>c. core (db_contexts db' c) = core (db_contexts db c) \<and> stays_idle (db_contexts db c) (db_contexts db' c))"

lemmas idle_simps = stays_idle_def queue_wf_def qos12_def

lemma stays_idle_refl [simp]: "stays_idle m m"
  by (simp add: stays_idle_def)

lemma frame_same: "db_contexts db' = db_contexts db \<Longrightarrow> db_tables db' = db_tables db \<Longrightarrow> frame db db'"
  by (simp add: frame_def)

lemma frame_refl [simp]: "frame db db"
  by (rule frame_same) simp_all

lemma frame_trans: "frame db db' \<Longrightarrow> frame db' db'' \<Longrightarrow> frame db db''"
  unfolding frame_def stays_idle_def core_def by (metis prod.inject)

lemma frame_ctx:
  assumes "core (f (db_contexts db c)) = core (db_contexts db c)" and "stays_idle (db_contexts db c) (f (db_contexts db c))"
  shows "frame db (upd_ctx c f db)"
  using assms by (simp add: frame_def)

lemma frame_ctx_over:
  assumes "db_contexts d = db_contexts db" and "db_tables d = db_tables db"
    and "core (f (db_contexts db c)) = core (db_contexts db c)" and "stays_idle (db_contexts db c) (f (db_contexts db c))"
  shows "frame db (upd_ctx c f d)"
  using assms by (simp add: frame_def)

lemma frame_step: "frame db db' \<Longrightarrow> db_tables db'' = db_tables db' \<Longrightarrow> db_contexts db'' = db_contexts db' \<Longrightarrow> frame db db''"
  by (erule frame_trans) (simp add: frame_same)

section \<open>Queues\<close>

lemma frame_conn: "conn_frame m = conn_frame (db_contexts db c) \<Longrightarrow> frame db (upd_ctx c (\<lambda>_. m) db)"
  using conn_frame_sel [of m] conn_frame_sel [of "db_contexts db c"] by (intro frame_ctx) (auto simp: core_def idle_simps)


lemma core_link [simp]: "core (link_msg msg m) = core m"
  by (simp add: link_msg_def core_def Let_def split: last_ptr.split)

lemma core_wake [simp]: "core (wake_lazy_bridge m) = core m"
  by (simp add: wake_lazy_bridge_def core_def split: option.split)

lemma frame_insert: "frame db (snd (mqtt3_db_message_insert e db c mid dir qos retain stored))"
proof (cases "ctx_id (db_contexts db c)")
  case (Some client)
  have "frame db (enqueue_msg e db c client msg)" for msg
    using Some by (simp add: enqueue_msg_def frame_def Let_def idle_simps)
  moreover have "frame db (upd_ctx c (\<lambda>m. m\<lparr>ctx_is_dropping := True\<rparr>) (db\<lparr>db_msgs_dropped := n\<rparr>))" for n
    by (simp add: frame_def core_def idle_simps)
  moreover have "frame db (db\<lparr>db_aborted := True\<rparr>)" by (rule frame_same) simp_all
  ultimately show ?thesis using Some
    by (simp add: mqtt3_db_message_insert_def Let_def split: insert_decision.split)
qed (simp add: mqtt3_db_message_insert_def)

lemma frame_gen_mid: "gen_mid c qos db = (mid, db') \<Longrightarrow> frame db db'"
  by (auto simp: gen_mid_def mosquitto_mid_generate_def Let_def core_def idle_simps intro!: frame_ctx
      split: prod.splits if_splits)

interpretation framed: delivery frame
  by unfold_locales (auto intro: frame_same frame_trans frame_insert frame_gen_mid)

lemma frame_store:
  "mqtt3_db_message_store e db source source_mid topic qos payload retain store_id = (rc, s, db') \<Longrightarrow> frame db db'"
  by (auto simp: mqtt3_db_message_store_def msg_store_add_def db_tables_def Let_def intro!: frame_same split: if_splits)

lemma frame_easy_queue: "frame db (snd (mqtt3_db_messages_easy_queue e db context topic qos payload retain))"
  by (auto simp: mqtt3_db_messages_easy_queue_def Let_def split: option.split prod.split
      intro: frame_store frame_trans [OF frame_store framed.messages_queue])

lemma core_upd_msgs [simp]: "core (m\<lparr>ctx_msgs := x\<rparr>) = core m"
  by (simp add: core_def)

lemma frame_upd_msg: "frame db (upd_msg c i f db)"
  unfolding upd_msg_def by (rule frame_ctx) (simp_all add: idle_simps)

lemma frame_remove: "frame db (message_remove db c i)"
  unfolding message_remove_def
  by (auto intro!: frame_ctx_over simp: unlink_msg_def Let_def core_def idle_simps)

lemma frame_delete: "frame db (message_delete_loop e db c mid dir i n deleted)"
proof (induction e db c mid dir i n deleted rule: message_delete_loop.induct)
  case (1 e db c mid dir i n deleted)
  let ?t = "ctx_msgs (db_contexts db c) ! i"
  define db1 where "db1 = (if cmsg_state ?t = mosq_ms_queued \<and> n + 1 \<le> db_max_inflight db
    then upd_msg c i (activate (env_now e)) db else db)"
  have db1: "frame db db1" by (simp add: db1_def frame_upd_msg)
  note rem = frame_trans [OF db1 frame_remove]
  show ?case
  proof (cases "i < length (ctx_msgs (db_contexts db c))")
    case True
    note IH = "1.IH"(1) [OF True refl refl refl _ refl refl, folded db1_def] "1.IH"(2) [OF True refl refl refl, folded db1_def]
    show ?thesis using frame_trans [OF rem IH(1)] frame_trans [OF db1 IH(2)] rem db1 True
      by (subst message_delete_loop.simps) (auto simp: Let_def simp flip: db1_def)
  qed (subst message_delete_loop.simps, simp)
qed

lemma db_tables_deref_all: "db_tables (foldl msg_store_deref db ss) = db_tables db"
  by (induction ss arbitrary: db) simp_all

lemma frame_messages_delete: "frame db (snd (mqtt3_db_messages_delete db c))"
  by (auto simp: mqtt3_db_messages_delete_def messages_delete_loop_foldl db_tables_deref_all core_def idle_simps
      intro!: frame_ctx_over)

lemma frame_update: "frame db (upd_ctx c (\<lambda>m. snd (mqtt3_db_message_update e m mid dir state)) db)"
  by (rule frame_ctx) (auto simp: mqtt3_db_message_update_def Let_def idle_simps)

lemma frame_timeout: "frame db (timeout_loop now threshold db cs)"
proof (induction now threshold db cs rule: timeout_loop.induct)
  case (2 now threshold db c cs)
  have "frame db (upd_ctx c (\<lambda>m. m\<lparr>ctx_msgs := map (timeout_msg now threshold) (ctx_msgs m)\<rparr>) db)"
    by (rule frame_ctx) (simp_all add: idle_simps)
  from frame_trans [OF this 2] show ?case by simp
qed simp

lemma frame_write: "message_write_loop e db c i k = Some (rc, db') \<Longrightarrow> frame db db'"
proof (induction e db c i k arbitrary: rc db' rule: message_write_loop.induct)
  case (1 e db c i k)
  show ?case
  proof (cases "i < length (ctx_msgs (db_contexts db c))")
    case i: True
    let ?t = "ctx_msgs (db_contexts db c) ! i"
    show ?thesis
    proof (cases "cmsg_state ?t = mosq_ms_queued")
      case True
      note IH = "1.IH"(3,4) [OF i refl refl]
      show ?thesis using "1.prems" IH i True frame_trans [OF frame_upd_msg]
        by (subst (asm) message_write_loop.simps) (auto simp: Let_def split: if_splits)
    next
      case False
      obtain r m t where w: "write_msg e db (db_contexts db c) ?t = (r, m, t)" using prod_cases3 by blast
      note f = frame_conn [OF write_msg_conn_frame [OF w]]
      note IH = "1.IH"(1) [OF i refl refl False w [symmetric] refl refl] "1.IH"(2) [OF i refl refl False w [symmetric] refl refl]
      note next_frame = frame_trans [OF frame_trans [OF f frame_remove]] frame_trans [OF frame_trans [OF f frame_upd_msg]]
      show ?thesis using "1.prems" IH i False w f
        by (subst (asm) message_write_loop.simps) (auto simp: Let_def split: if_splits option.splits intro: next_frame)
    qed
  next
    case False
    then show ?thesis using "1.prems" by (subst (asm) message_write_loop.simps) simp
  qed
qed

lemma frame_message_write: "mqtt3_db_message_write e db c = Some (rc, db') \<Longrightarrow> frame db db'"
  by (auto simp: mqtt3_db_message_write_def Let_def frame_write split: if_splits)

lemma frame_release_activate: "frame db (release_activate e c i tail db)"
proof -
  have "frame db (upd_ctx c (\<lambda>m. snd (mosquitto_send_pubrec e m mid)) db)" for mid
    using frame_conn [OF send_conn_frame(6), of db c e mid] by (simp add: upd_ctx_def)
  then show ?thesis using frame_trans [OF _ frame_upd_msg] by (simp add: release_activate_def frame_upd_msg)
qed

lemma frame_release_deliver: "frame db (snd (release_deliver e db tail))"
  by (simp add: release_deliver_def Let_def framed.messages_queue split: option.split)

lemma release_returns:
  assumes "broker_ok db"
  shows "\<exists>rc db'. mqtt3_db_message_release e db c mid mosq_md_in = Some (rc, db') \<and> broker_ok db' \<and> frame db db'"
  unfolding mqtt3_db_message_release_def
proof (rule message_release_loop_returns [of "\<lambda>db'. broker_ok db' \<and> frame db db'" "{#}"])
  show "broker_ok db' \<and> frame db db' \<Longrightarrow> broker_inv {#} db'" for db' by (simp add: broker_ok_def)
qed (use assms in \<open>auto intro: broker_ok_release_activate broker_ok_remove broker_ok_release_deliver
    frame_trans [OF _ frame_release_activate] frame_trans [OF _ frame_remove] frame_trans [OF _ frame_release_deliver]\<close>)

section \<open>Subscriptions\<close>

lemma clear_subs_frame:
  assumes "clear_subs db' = clear_subs db"
    and "\<And>c. ctx_id (db_contexts db c) = None \<Longrightarrow> ctx_subs (db_contexts db c) = [] \<Longrightarrow> ctx_subs (db_contexts db' c) = []"
  shows "frame db (db'\<lparr>db_subs := nodes\<rparr>)"
proof -
  have "db_tables db' = db_tables db" using arg_cong [OF assms(1), of db_tables] by (simp add: clear_subs_def db_tables_def)
  moreover
  have "core (db_contexts db' c) = core (db_contexts db c)" "ctx_msgs (db_contexts db' c) = ctx_msgs (db_contexts db c)"
    "queue_wf (db_contexts db' c) = queue_wf (db_contexts db c)" for c
    using arg_cong [OF clear_subs_eqD(3) [OF assms(1), of c], of core] arg_cong [OF clear_subs_eqD(3) [OF assms(1), of c], of ctx_msgs]
      arg_cong [OF clear_subs_eqD(3) [OF assms(1), of c], of queue_wf]
    by (simp_all add: core_def queue_wf_def)
  ultimately show ?thesis using assms(2) by (auto simp: frame_def stays_idle_def)
qed

lemma frame_sub_add:
  assumes "nul_free f" and "forest_wf (db_subs db)"
  shows "frame db (snd (mqtt3_sub_add db c f qos))"
proof -
  let ?t = "sub_topic_tokenise f"
  obtain r db1 n where b: "sub_add db (Some c) qos [hd ?t] (Subhier (hd ?t) [] [] None True) ?t = (r, db1, n)" using prod_cases3 by blast
  have "\<exists>db' nodes. snd (mqtt3_sub_add db c f qos) = db'\<lparr>db_subs := nodes\<rparr> \<and> clear_subs db' = clear_subs db"
  proof (cases "sub_add_top db c qos (db_subs db) ?t")
    case None
    then show ?thesis using sub_add_frame(1) [OF b] b by (auto simp: mqtt3_sub_add_def)
  next
    case (Some x)
    then show ?thesis using sub_add_top_frame [of db c qos "db_subs db" ?t] by (cases x) (auto simp: mqtt3_sub_add_def)
  qed
  then obtain db' nodes where r: "snd (mqtt3_sub_add db c f qos) = db'\<lparr>db_subs := nodes\<rparr>" "clear_subs db' = clear_subs db"
    by blast
  have "ctx_subs (db_contexts db' d) = ctx_subs (db_contexts db d)" if "ctx_id (db_contexts db d) = None" for d
    using mqtt3_sub_add_contexts [OF assms, of c qos] that unfolding r(1)
    by (auto simp: sub_add_leaf_def Let_def split: option.splits if_splits)
  then show ?thesis unfolding r(1) by (intro clear_subs_frame r(2)) simp
qed

lemma frame_sub_remove:
  assumes "nul_free f"
  shows "frame db (snd (mqtt3_sub_remove db c f))"
proof -
  obtain db' nodes where t: "sub_remove_top db c (db_subs db) (sub_topic_tokenise f) = (db', nodes)" by fastforce
  then have r: "snd (mqtt3_sub_remove db c f) = db'\<lparr>db_subs := nodes\<rparr>" by (simp add: mqtt3_sub_remove_def)
  have "ctx_subs (db_contexts db' d) = []" if "ctx_subs (db_contexts db d) = []" for d
    using mqtt3_sub_remove_contexts [OF assms, of db c] that unfolding r
    by (auto simp: sub_remove_leaf_def split: option.splits)
  then show ?thesis unfolding r by (intro clear_subs_frame sub_remove_top_frame [OF t]) simp
qed

lemma frame_clean_session:
  assumes "broker_ok db"
  shows "frame db (snd (mqtt3_subs_clean_session db c))"
proof -
  obtain nodes n where "mqtt3_subs_clean_session db c =
      (MOSQ_ERR_SUCCESS, upd_ctx c (\<lambda>m. m\<lparr>ctx_subs := []\<rparr>) (db\<lparr>db_subscription_count := n, db_subs := nodes\<rparr>))"
    using clean_session_relists [of db c] assms unfolding broker_ok_def filter_tree_def by blast
  then show ?thesis by (auto intro!: frame_ctx_over simp: db_tables_def core_def idle_simps)
qed

end
