(* ===== verification/Mosq_Live.thy ===== *)
theory Mosq_Live
  imports Mosq_Frame
begin

text \<open>
  The invariant of the running broker: besides the consistent database, the tables of connections
  agree with the connections, a connection that is not in use holds nothing, and what a connection
  has of a packet is well-formed.  Opening, closing and freeing connections keep it.
\<close>

section \<open>The invariant\<close>

text \<open>A packet at rest between two calls of \<open>_mosquitto_packet_read\<close>.\<close>

definition in_rest :: "mosquitto_packet \<Rightarrow> bool" where
  "in_rest p \<longleftrightarrow>
     (if 0 < pkt_remaining_count p
      then in_span p \<and> length (pkt_payload p) = unat (pkt_remaining_length p)
           \<and> unat (pkt_remaining_length p) \<le> MQTT_MAX_PAYLOAD
      else pkt_payload p = [] \<and> pkt_pos p = 0 \<and> pkt_to_process p = 0 \<and> -4 \<le> pkt_remaining_count p
           \<and> unat (pkt_remaining_mult p) = 128 ^ nat (- pkt_remaining_count p)
           \<and> unat (pkt_remaining_length p) < 128 ^ nat (- pkt_remaining_count p))"

definition packet_ok :: "mosquitto \<Rightarrow> bool" where
  "packet_ok m \<longleftrightarrow> (0 \<le> ctx_sock m \<longrightarrow> in_rest (ctx_in_packet m)
     \<and> (ctx_state m = mosq_cs_new \<longrightarrow> pkt_command (ctx_in_packet m) \<noteq> 0
        \<longrightarrow> pkt_command (ctx_in_packet m) AND 0xF0 = CONNECT))"

definition will_ok :: "mosquitto_message \<Rightarrow> bool" where
  "will_ok will \<longleftrightarrow> topic_ok (will_topic will) \<and> will_qos will \<in> {0, 1, 2}"

text \<open>The states of a connection; bridges are not part of the picture.\<close>

definition conn_ok :: "mosquitto \<Rightarrow> bool" where
  "conn_ok m \<longleftrightarrow> ctx_bridge m = None \<and> (0 \<le> ctx_sock m \<or> ctx_sock m = INVALID_SOCKET)
     \<and> (ctx_listener m \<noteq> None \<longrightarrow> 0 \<le> ctx_sock m)
     \<and> (ctx_state m = mosq_cs_disconnected \<longrightarrow> ctx_sock m = INVALID_SOCKET) \<and> ctx_state m \<noteq> mosq_cs_connect_pending
     \<and> (ctx_state m = mosq_cs_new \<longrightarrow> ctx_id m = None)
     \<and> (0 \<le> ctx_sock m \<longrightarrow> ctx_id m = None \<longrightarrow> ctx_state m = mosq_cs_new)
     \<and> pred_option will_ok (ctx_will m)"

definition tables_ok :: "mosquitto_db \<Rightarrow> bool" where
  "tables_ok db \<longleftrightarrow> distinct (map fst (db_contexts_by_id db))
     \<and> (\<forall>i c. (i, c) \<in> set (db_contexts_by_id db) \<longleftrightarrow> ctx_id (db_contexts db c) = Some i)
     \<and> distinct (db_contexts_by_sock db) \<and> (\<forall>c. c \<in> set (db_contexts_by_sock db) \<longleftrightarrow> 0 \<le> ctx_sock (db_contexts db c))
     \<and> distinct (db_ll_for_free db)
     \<and> (\<forall>c \<in> set (db_ll_for_free db). ctx_sock (db_contexts db c) = INVALID_SOCKET
          \<and> ctx_id (db_contexts db c) = None \<and> ctx_state (db_contexts db c) = mosq_cs_disconnected)
     \<and> (\<forall>l. db_client_count db l = int (length (filter (\<lambda>c. ctx_listener (db_contexts db c) = Some l) (db_contexts_by_sock db))))"

definition idle :: "mosquitto \<Rightarrow> bool" where
  "idle m \<longleftrightarrow> ctx_msgs m = [] \<and> ctx_subs m = [] \<and> (0 \<le> ctx_sock m \<longrightarrow> queue_wf m)"

definition idle_ok :: "mosquitto_db \<Rightarrow> ctxid \<Rightarrow> bool" where
  "idle_ok db c \<longleftrightarrow> (ctx_id (db_contexts db c) = None \<longrightarrow> c \<notin> set (db_ll_for_free db) \<longrightarrow> idle (db_contexts db c))"

text \<open>The connections in \<open>A\<close> are being served: nothing is said of their packets, and they may hold a session already.\<close>

definition live :: "ctxid set \<Rightarrow> mosquitto_db \<Rightarrow> bool" where
  "live A db \<longleftrightarrow> broker_ok db \<and> tables_ok db \<and> (\<forall>c. conn_ok (db_contexts db c))
     \<and> (\<forall>c. c \<notin> A \<longrightarrow> packet_ok (db_contexts db c) \<and> idle_ok db c)"

lemma liveD:
  assumes "live A db"
  shows "broker_ok db" "tables_ok db" "conn_ok (db_contexts db c)" "c \<notin> A \<Longrightarrow> packet_ok (db_contexts db c)" "c \<notin> A \<Longrightarrow> idle_ok db c"
  using assms by (simp_all add: live_def)

section \<open>Operations within the frame\<close>

lemma frame_core:
  assumes "frame db db'"
  shows "ctx_id (db_contexts db' c) = ctx_id (db_contexts db c)" "ctx_sock (db_contexts db' c) = ctx_sock (db_contexts db c)"
    "ctx_state (db_contexts db' c) = ctx_state (db_contexts db c)" "ctx_listener (db_contexts db' c) = ctx_listener (db_contexts db c)"
    "ctx_in_packet (db_contexts db' c) = ctx_in_packet (db_contexts db c)"
    "ctx_will (db_contexts db' c) = ctx_will (db_contexts db c)" "ctx_clean_session (db_contexts db' c) = ctx_clean_session (db_contexts db c)"
    "ctx_bridge (db_contexts db' c) = None \<longleftrightarrow> ctx_bridge (db_contexts db c) = None"
    "db_ll_for_free db' = db_ll_for_free db" "db_contexts_by_id db' = db_contexts_by_id db" "db_contexts_by_sock db' = db_contexts_by_sock db"
    "db_client_count db' = db_client_count db"
  using assms by (auto simp: frame_def core_def db_tables_def)

lemma frame_idle: "frame db db' \<Longrightarrow> ctx_id (db_contexts db c) = None \<Longrightarrow> idle (db_contexts db c) \<Longrightarrow> idle (db_contexts db' c)"
  using frame_core(2) [of db db' c] by (auto simp: idle_def frame_def stays_idle_def)

lemma frame_idle_ok: "frame db db' \<Longrightarrow> idle_ok db c \<Longrightarrow> idle_ok db' c"
  using frame_idle [of db db' c] frame_core(1,9) [of db db'] by (simp add: idle_ok_def)

lemma conn_ok_core: "core m' = core m \<Longrightarrow> conn_ok m' = conn_ok m"
  unfolding core_def conn_ok_def by (simp only: prod.inject)

lemma packet_ok_core: "core m' = core m \<Longrightarrow> packet_ok m' = packet_ok m"
  unfolding core_def packet_ok_def by (simp only: prod.inject)

lemma live_frame:
  assumes "live A db" and "broker_ok db'" and "frame db db'"
  shows "live A db'"
  unfolding live_def
proof (intro conjI allI impI assms(2))
  note core = frame_core [OF assms(3)]
  show "tables_ok db'" using liveD(2) [OF assms(1)] by (simp add: tables_ok_def core)
  have c: "core (db_contexts db' c) = core (db_contexts db c)" for c using assms(3) by (simp add: frame_def)
  show "conn_ok (db_contexts db' c)" for c using liveD(3) [OF assms(1), of c] conn_ok_core [OF c] by simp
  show "packet_ok (db_contexts db' c)" if "c \<notin> A" for c using liveD(4) [OF assms(1) that] packet_ok_core [OF c] by simp
  show "idle_ok db' c" if "c \<notin> A" for c using frame_idle_ok [OF assms(3) liveD(5) [OF assms(1) that]] .
qed

section \<open>Changes of one connection\<close>

lemma broker_ok_upd:
  assumes "broker_ok db" and "ctx_subs (f (db_contexts db c)) = ctx_subs (db_contexts db c)"
    and "queue_ok (f (db_contexts db c))" and "queue_refs (f (db_contexts db c)) = queue_refs (db_contexts db c)"
  shows "broker_ok (upd_ctx c f db)"
proof (rule broker_ok_frame [OF assms(1)])
  show "db_inv E db \<Longrightarrow> db_inv E (upd_ctx c f db)" for E using assms(3,4) by (auto intro: db_inv_upd_ctx)
qed (simp_all add: assms(2))

lemma broker_ok_tables [simp]:
  "broker_ok (db\<lparr>db_contexts_by_id := a\<rparr>) = broker_ok db" "broker_ok (db\<lparr>db_contexts_by_sock := b\<rparr>) = broker_ok db"
  "broker_ok (db\<lparr>db_ll_for_free := x\<rparr>) = broker_ok db" "broker_ok (db\<lparr>db_client_count := k\<rparr>) = broker_ok db"
  "broker_ok (db\<lparr>db_connection_count := n\<rparr>) = broker_ok db" "broker_ok (db\<lparr>db_persistence_changes := i\<rparr>) = broker_ok db"
  by (simp_all add: broker_ok_def broker_inv_def db_inv_def store_inv_def all_queue_refs_def busy_def patterns_wf_def
      stores_ok_def retained_ok_def slots_ok_def topics_ok_def)

definition same_queue :: "mosquitto \<Rightarrow> mosquitto \<Rightarrow> bool" where
  "same_queue m m' \<longleftrightarrow> ctx_msgs m' = ctx_msgs m \<and> ctx_last_msg m' = ctx_last_msg m \<and> ctx_msg_count m' = ctx_msg_count m
     \<and> ctx_msg_count12 m' = ctx_msg_count12 m \<and> ctx_subs m' = ctx_subs m"

lemma broker_ok_same_queue:
  assumes "broker_ok db" and "same_queue (db_contexts db c) (f (db_contexts db c))"
    and "ctx_id (db_contexts db c) = None \<longrightarrow> ctx_id (f (db_contexts db c)) = None \<or> queue_wf (db_contexts db c)"
  shows "broker_ok (upd_ctx c f db)"
  by (rule broker_ok_conn [OF assms(1)]) (use assms(2,3) in \<open>simp_all add: same_queue_def\<close>)

lemma same_queue_idle:
  "same_queue m m' \<Longrightarrow> (0 \<le> ctx_sock m' \<longrightarrow> 0 \<le> ctx_sock m) \<Longrightarrow> idle m \<Longrightarrow> idle m'"
  by (simp add: same_queue_def idle_def queue_wf_def)

lemma tables_ok_same:
  assumes "tables_ok db" and "db_tables db' = db_tables db"
    and "\<And>d. ctx_id (db_contexts db' d) = ctx_id (db_contexts db d) \<and> ctx_sock (db_contexts db' d) = ctx_sock (db_contexts db d)
      \<and> ctx_listener (db_contexts db' d) = ctx_listener (db_contexts db d)"
    and "\<And>d. d \<in> set (db_ll_for_free db) \<Longrightarrow> ctx_state (db_contexts db' d) = mosq_cs_disconnected"
  shows "tables_ok db'"
  using assms by (simp add: tables_ok_def db_tables_def)

lemma live_upd:
  assumes "live A db" and "same_queue (db_contexts db c) (f (db_contexts db c))"
    and "ctx_id (f (db_contexts db c)) = ctx_id (db_contexts db c)" "ctx_sock (f (db_contexts db c)) = ctx_sock (db_contexts db c)"
      "ctx_listener (f (db_contexts db c)) = ctx_listener (db_contexts db c)"
    and "conn_ok (f (db_contexts db c))" and "c \<notin> A \<Longrightarrow> packet_ok (f (db_contexts db c))"
    and "c \<in> set (db_ll_for_free db) \<Longrightarrow> ctx_state (f (db_contexts db c)) = mosq_cs_disconnected"
  shows "live A (upd_ctx c f db)"
  unfolding live_def
proof (intro conjI allI impI)
  show "broker_ok (upd_ctx c f db)" by (rule broker_ok_same_queue) (use assms liveD(1) in simp_all)
  show "tables_ok (upd_ctx c f db)"
    by (rule tables_ok_same [OF liveD(2) [OF assms(1)]]) (use liveD(2) [OF assms(1)] assms(3-5,8) in \<open>auto simp: db_tables_def tables_ok_def\<close>)
  show "conn_ok (db_contexts (upd_ctx c f db) d)" for d using liveD(3) [OF assms(1)] assms(6) by simp
  show "packet_ok (db_contexts (upd_ctx c f db) d)" if "d \<notin> A" for d using liveD(4) [OF assms(1)] assms(7) that by (cases "d = c") simp_all
  show "idle_ok (upd_ctx c f db) d" if "d \<notin> A" for d
    using liveD(5) [OF assms(1) that] assms(3,4) same_queue_idle [OF assms(2)] by (auto simp: idle_ok_def)
qed

lemma live_set:
  assumes "live A db" and "same_queue (db_contexts db c) (f (db_contexts db c))" and "core (f (db_contexts db c)) = core (db_contexts db c)"
  shows "live A (upd_ctx c f db)"
proof (rule live_frame [OF assms(1)])
  have "ctx_id (f (db_contexts db c)) = ctx_id (db_contexts db c)" using assms(3) by (simp add: core_def)
  then show "broker_ok (upd_ctx c f db)" by (intro broker_ok_same_queue assms(2) liveD(1) [OF assms(1)]) simp
  show "frame db (upd_ctx c f db)" by (rule frame_ctx) (use assms(2,3) in \<open>auto simp: stays_idle_def same_queue_def queue_wf_def\<close>)
qed

lemma conn_ok_cong:
  assumes "conn_ok m" and "ctx_bridge m' = ctx_bridge m" "ctx_sock m' = ctx_sock m" "ctx_listener m' = ctx_listener m"
    "ctx_state m' = ctx_state m" "ctx_id m' = ctx_id m" and "pred_option will_ok (ctx_will m')"
  shows "conn_ok m'"
  unfolding conn_ok_def assms(2-6) using assms(7) assms(1) [unfolded conn_ok_def] by blast

lemma conn_ok_off:
  assumes "conn_ok m" and "ctx_sock m = INVALID_SOCKET" and "ctx_sock m' = INVALID_SOCKET" "ctx_bridge m' = ctx_bridge m"
    "ctx_listener m' = ctx_listener m" "ctx_will m' = ctx_will m" and "ctx_state m' = mosq_cs_new \<longrightarrow> ctx_id m' = None"
    and "ctx_state m' \<noteq> mosq_cs_connect_pending"
  shows "conn_ok m'"
proof -
  have "ctx_bridge m = None" "ctx_listener m = None" "pred_option will_ok (ctx_will m)" using assms(1,2) by (simp_all add: conn_ok_def)
  then show ?thesis using assms(3-) by (simp add: conn_ok_def)
qed

section \<open>Closing a socket\<close>

lemma tables_okD:
  assumes "tables_ok db"
  shows "distinct (map fst (db_contexts_by_id db))"
    and "(i, c) \<in> set (db_contexts_by_id db) \<longleftrightarrow> ctx_id (db_contexts db c) = Some i"
    and "distinct (db_contexts_by_sock db)" and "c \<in> set (db_contexts_by_sock db) \<longleftrightarrow> 0 \<le> ctx_sock (db_contexts db c)"
    and "distinct (db_ll_for_free db)"
    and "c \<in> set (db_ll_for_free db) \<Longrightarrow> ctx_sock (db_contexts db c) = INVALID_SOCKET"
    and "c \<in> set (db_ll_for_free db) \<Longrightarrow> ctx_id (db_contexts db c) = None"
    and "c \<in> set (db_ll_for_free db) \<Longrightarrow> ctx_state (db_contexts db c) = mosq_cs_disconnected"
    and "db_client_count db l = int (length (filter (\<lambda>c. ctx_listener (db_contexts db c) = Some l) (db_contexts_by_sock db)))"
  using assms by (simp_all add: tables_ok_def)

lemma conn_okD:
  assumes "conn_ok m"
  shows "ctx_bridge m = None" "ctx_sock m < 0 \<Longrightarrow> ctx_sock m = INVALID_SOCKET" "ctx_sock m < 0 \<Longrightarrow> ctx_listener m = None"
    "ctx_state m = mosq_cs_disconnected \<Longrightarrow> ctx_sock m = INVALID_SOCKET" "ctx_state m = mosq_cs_new \<Longrightarrow> ctx_id m = None"
    "0 \<le> ctx_sock m \<Longrightarrow> ctx_id m = None \<Longrightarrow> ctx_state m = mosq_cs_new" "ctx_will m = Some will \<Longrightarrow> will_ok will"
    "ctx_state m \<noteq> mosq_cs_connect_pending"
  using assms by (auto simp: conn_ok_def)

lemma listener_members:
  "distinct xs \<Longrightarrow> c \<in> set xs \<Longrightarrow> int (length (filter P (remove1 c xs))) = int (length (filter P xs)) - (if P c then 1 else 0)"
  by (induction xs) auto

definition closed :: "mosquitto \<Rightarrow> mosquitto" where
  "closed m = m\<lparr>ctx_sock := INVALID_SOCKET, ctx_listener := None\<rparr>"

lemma socket_close_open:
  assumes "live A db" and "0 \<le> ctx_sock (db_contexts db c)"
  shows "mosquitto_socket_close c db =
    (upd_ctx c closed db)\<lparr>db_contexts_by_sock := remove1 c (db_contexts_by_sock db),
      db_client_count := (\<lambda>l. db_client_count db l - (if ctx_listener (db_contexts db c) = Some l then 1 else 0))\<rparr>"
proof -
  note t = tables_okD [OF liveD(2) [OF assms(1)]]
  have mem: "c \<in> set (db_contexts_by_sock db)" using t(4) assms(2) by blast
  show ?thesis
  proof (cases "ctx_listener (db_contexts db c)")
    case None
    then show ?thesis using assms(2) mem
      by (intro mosquitto_db.equality) (auto simp: mosquitto_socket_close_def leave_listener_def hash_delete_sock_def closed_def upd_ctx_def)
  next
    case (Some l)
    have "0 < length (filter (\<lambda>c. ctx_listener (db_contexts db c) = Some l) (db_contexts_by_sock db))"
      using mem Some by (auto simp: filter_empty_conv)
    then have "1 \<le> db_client_count db l" using t(9) [of l] by linarith
    then show ?thesis using assms(2) mem Some
      by (intro mosquitto_db.equality) (auto simp: mosquitto_socket_close_def leave_listener_def hash_delete_sock_def closed_def upd_ctx_def)
  qed
qed

lemma socket_close_closed:
  assumes "live A db" and "ctx_sock (db_contexts db c) < 0"
  shows "mosquitto_socket_close c db = db"
  using conn_okD(3) [OF liveD(3) [OF assms(1)] assms(2)] assms(2) by (simp add: mosquitto_socket_close_def leave_listener_def)

lemma socket_close_tables:
  assumes "live A db" and "0 \<le> ctx_sock (db_contexts db c)"
  shows "tables_ok (mosquitto_socket_close c db)"
proof -
  note t = tables_okD [OF liveD(2) [OF assms(1)]]
  have "filter (\<lambda>d. ctx_listener (db_contexts (upd_ctx c closed db) d) = Some l) (remove1 c (db_contexts_by_sock db))
      = filter (\<lambda>d. ctx_listener (db_contexts db d) = Some l) (remove1 c (db_contexts_by_sock db))" for l
    by (rule filter_cong [OF refl]) (use t(3) in \<open>auto simp: closed_def\<close>)
  moreover have "db_client_count db l - (if ctx_listener (db_contexts db c) = Some l then 1 else 0)
      = int (length (filter (\<lambda>d. ctx_listener (db_contexts db d) = Some l) (remove1 c (db_contexts_by_sock db))))" for l
    using listener_members [OF t(3), of c "\<lambda>d. ctx_listener (db_contexts db d) = Some l"] t(4) [of c] assms(2) t(9) [of l] by simp
  moreover have "d \<in> set (remove1 c (db_contexts_by_sock db)) \<longleftrightarrow> 0 \<le> ctx_sock (db_contexts (upd_ctx c closed db) d)" for d
    using t(3) t(4) [of d] by (auto simp: closed_def)
  moreover have "c \<notin> set (db_ll_for_free db)" using t(6) assms(2) by auto
  ultimately show ?thesis unfolding tables_ok_def socket_close_open [OF assms] using t(1,3,5)
    by (auto simp: closed_def t(2,4,6,7,8) distinct_remove1)
qed

lemma conn_ok_closed: "conn_ok m \<Longrightarrow> conn_ok (closed m)"
  by (simp add: conn_ok_def closed_def)

lemma packet_ok_closed: "packet_ok (closed m)"
  by (simp add: packet_ok_def closed_def)

lemma idle_closed: "idle m \<Longrightarrow> idle (closed m)"
  by (simp add: idle_def closed_def)

lemma ctx_id_closed [simp]: "ctx_id (closed m) = ctx_id m"
  by (simp add: closed_def)

lemma socket_close_live:
  assumes "live A db"
  shows "live A (mosquitto_socket_close c db)"
proof (cases "0 \<le> ctx_sock (db_contexts db c)")
  case True
  note eq = socket_close_open [OF assms True]
  have q: "same_queue (db_contexts db c) (closed (db_contexts db c))" by (simp add: same_queue_def closed_def)
  show ?thesis unfolding live_def
  proof (intro conjI allI impI socket_close_tables [OF assms True])
    have "broker_ok (upd_ctx c closed db)"
      by (rule broker_ok_same_queue) (use liveD(1) [OF assms] q in \<open>simp_all add: closed_def\<close>)
    then show "broker_ok (mosquitto_socket_close c db)" by (simp add: eq)
    show "conn_ok (db_contexts (mosquitto_socket_close c db) d)" for d
      using liveD(3) [OF assms] by (simp add: eq conn_ok_closed)
    show "packet_ok (db_contexts (mosquitto_socket_close c db) d)" if "d \<notin> A" for d
      using liveD(4) [OF assms that] by (simp add: eq packet_ok_closed)
    show "idle_ok (mosquitto_socket_close c db) d" if "d \<notin> A" for d
      using liveD(5) [OF assms that] by (cases "d = c") (simp_all add: eq idle_ok_def idle_closed)
  qed
next
  case False
  then show ?thesis using socket_close_closed [OF assms] assms by simp
qed

lemma socket_close_ctx:
  assumes "live A db"
  shows "db_contexts (mosquitto_socket_close c db) = (db_contexts db)(c := closed (db_contexts db c))"
    "db_ll_for_free (mosquitto_socket_close c db) = db_ll_for_free db"
    "db_contexts_by_id (mosquitto_socket_close c db) = db_contexts_by_id db"
proof -
  consider (a) "0 \<le> ctx_sock (db_contexts db c)" | (b) "ctx_sock (db_contexts db c) < 0" by linarith
  then have "db_contexts (mosquitto_socket_close c db) = (db_contexts db)(c := closed (db_contexts db c))
      \<and> db_ll_for_free (mosquitto_socket_close c db) = db_ll_for_free db
      \<and> db_contexts_by_id (mosquitto_socket_close c db) = db_contexts_by_id db"
  proof cases
    case a then show ?thesis by (simp add: socket_close_open [OF assms a] upd_ctx_def)
  next
    case b
    have "closed (db_contexts db c) = db_contexts db c"
      using conn_okD(2,3) [OF liveD(3) [OF assms] b] by (simp add: closed_def)
    then show ?thesis by (simp add: socket_close_closed [OF assms b])
  qed
  then show "db_contexts (mosquitto_socket_close c db) = (db_contexts db)(c := closed (db_contexts db c))"
    "db_ll_for_free (mosquitto_socket_close c db) = db_ll_for_free db"
    "db_contexts_by_id (mosquitto_socket_close c db) = db_contexts_by_id db" by blast+
qed

section \<open>The will\<close>

lemma broker_ok_patterns: "broker_ok db \<Longrightarrow> patterns_wf db"
  by (simp add: broker_ok_def broker_inv_def)

lemma queue_wf_no_will [simp]: "queue_wf (m\<lparr>ctx_will := w\<rparr>) = queue_wf m"
  by (simp add: queue_wf_def)

lemma core_no_will: "core m' = core m \<Longrightarrow> core (m'\<lparr>ctx_will := w\<rparr>) = core (m\<lparr>ctx_will := w\<rparr>)"
  by (simp add: core_def)

lemma stays_idle_no_will [simp]: "stays_idle (m\<lparr>ctx_will := w\<rparr>) (m'\<lparr>ctx_will := w\<rparr>) = stays_idle m m'"
  by (simp add: stays_idle_def)

lemma frame_no_will:
  assumes "frame db db'"
  shows "frame (upd_ctx c (\<lambda>m. m\<lparr>ctx_will := None\<rparr>) db) (upd_ctx c (\<lambda>m. m\<lparr>ctx_will := None\<rparr>) db')"
  unfolding frame_def
proof (intro conjI allI)
  fix d
  have "core (db_contexts db' d) = core (db_contexts db d)" "stays_idle (db_contexts db d) (db_contexts db' d)"
    using assms by (simp_all add: frame_def)
  then show "core (db_contexts (upd_ctx c (\<lambda>m. m\<lparr>ctx_will := None\<rparr>) db') d) = core (db_contexts (upd_ctx c (\<lambda>m. m\<lparr>ctx_will := None\<rparr>) db) d)"
    "stays_idle (db_contexts (upd_ctx c (\<lambda>m. m\<lparr>ctx_will := None\<rparr>) db) d) (db_contexts (upd_ctx c (\<lambda>m. m\<lparr>ctx_will := None\<rparr>) db') d)"
    by (auto intro: core_no_will)
qed (use assms in \<open>simp add: frame_def\<close>)

lemma send_will_cases:
  assumes "live A db" and "ctx_will (db_contexts db c) = Some will"
  obtains db' where "mqtt3_context_send_will e c db = upd_ctx c (\<lambda>m. m\<lparr>ctx_will := None\<rparr>) db'" "broker_ok db'" "frame db db'"
proof -
  note b = liveD(1) [OF assms(1)]
  have w: "will_ok will" by (rule conn_okD(7) [OF liveD(3) [OF assms(1)] assms(2)])
  obtain rc where rc: "mosquitto_acl_check e db (db_contexts db c) (will_topic will) MOSQ_ACL_WRITE = Some rc"
    using acl_check_total [OF broker_ok_patterns [OF b]] by blast
  let ?db = "snd (mqtt3_db_messages_easy_queue e db (Some c) (Some (will_topic will)) (will_qos will) (will_payload will) (will_retain will))"
  have "broker_ok ?db" by (rule broker_ok_easy_queue [OF b]) (use w in \<open>simp_all add: will_ok_def\<close>)
  then show ?thesis using that [of db] that [of ?db] b frame_easy_queue rc assms(2)
    by (cases "ctx_state (db_contexts db c) \<noteq> mosq_cs_disconnecting"; cases "rc = MOSQ_ERR_SUCCESS")
      (simp_all add: mqtt3_context_send_will_def frame_refl)
qed

lemma send_will_frame:
  assumes "live A db"
  shows "frame (upd_ctx c (\<lambda>m. m\<lparr>ctx_will := None\<rparr>) db) (mqtt3_context_send_will e c db)"
proof (cases "ctx_will (db_contexts db c)")
  case None
  then show ?thesis by (simp add: mqtt3_context_send_will_def upd_ctx_ident)
next
  case (Some will)
  then show ?thesis using send_will_cases [OF assms Some, of e] frame_no_will by metis
qed

lemma live_no_will:
  assumes l: "live A db"
  shows "live A (upd_ctx c (\<lambda>m. m\<lparr>ctx_will := None\<rparr>) db)"
proof (rule live_upd [OF l])
  show "conn_ok (db_contexts db c\<lparr>ctx_will := None\<rparr>)" by (rule conn_ok_cong [OF liveD(3) [OF l, of c]]) simp_all
  show "packet_ok (db_contexts db c\<lparr>ctx_will := None\<rparr>)" if "c \<notin> A" using liveD(4) [OF l that] by (simp add: packet_ok_def)
  show "ctx_state (db_contexts db c\<lparr>ctx_will := None\<rparr>) = mosq_cs_disconnected" if "c \<in> set (db_ll_for_free db)"
    using tables_okD(8) [OF liveD(2) [OF l] that] by simp
qed (simp_all add: same_queue_def)

lemma send_will_live:
  assumes "live A db"
  shows "live A (mqtt3_context_send_will e c db)"
proof (cases "ctx_will (db_contexts db c)")
  case None
  then show ?thesis using assms by (simp add: mqtt3_context_send_will_def)
next
  case (Some will)
  obtain db' where db': "mqtt3_context_send_will e c db = upd_ctx c (\<lambda>m. m\<lparr>ctx_will := None\<rparr>) db'" "broker_ok db'" "frame db db'"
    using send_will_cases [OF assms Some] .
  show ?thesis unfolding db'(1) by (rule live_no_will [OF live_frame [OF assms db'(2,3)]])
qed

section \<open>Ending a connection\<close>

lemma frame_upd_same:
  assumes "frame db db'" and "core (f (db_contexts db' c)) = core (db_contexts db' c)"
    and "stays_idle (db_contexts db' c) (f (db_contexts db' c))"
  shows "frame db (upd_ctx c f db')"
  using assms(1) by (rule frame_trans) (use assms(2,3) in \<open>rule frame_ctx\<close>)

lemma live_disconnect_t: "live A db \<Longrightarrow> live A (upd_ctx c (\<lambda>m. m\<lparr>ctx_disconnect_t := t\<rparr>) db)"
  by (erule live_set) (simp_all add: same_queue_def core_def)

lemma context_disconnect_live: "live A db \<Longrightarrow> live A (mqtt3_context_disconnect e c db)"
  unfolding mqtt3_context_disconnect_def by (intro socket_close_live live_disconnect_t send_will_live)

lemma context_disconnect_facts:
  assumes "live A db"
  shows "db_ll_for_free (mqtt3_context_disconnect e c db) = db_ll_for_free db"
    and "ctx_id (db_contexts (mqtt3_context_disconnect e c db) d) = ctx_id (db_contexts db d)"
    and "ctx_state (db_contexts (mqtt3_context_disconnect e c db) d) = ctx_state (db_contexts db d)"
    and "ctx_sock (db_contexts (mqtt3_context_disconnect e c db) d) = (if d = c then INVALID_SOCKET else ctx_sock (db_contexts db d))"
    and "ctx_in_packet (db_contexts (mqtt3_context_disconnect e c db) d) = ctx_in_packet (db_contexts db d)"
    and "db_contexts_by_id (mqtt3_context_disconnect e c db) = db_contexts_by_id db"
    and "idle_ok db d \<Longrightarrow> idle_ok (mqtt3_context_disconnect e c db) d"
proof -
  let ?w = "upd_ctx c (\<lambda>m. m\<lparr>ctx_will := None\<rparr>) db" and ?s = "mqtt3_context_send_will e c db"
  let ?t = "upd_ctx c (\<lambda>m. m\<lparr>ctx_disconnect_t := env_now e\<rparr>) ?s"
  have f: "frame ?w ?t" by (rule frame_upd_same [OF send_will_frame [OF assms]]) (simp_all add: core_def stays_idle_def queue_wf_def)
  note l = live_disconnect_t [OF send_will_live [OF assms]]
  note sc = socket_close_ctx [OF l] and co = frame_core [OF f]
  show "db_ll_for_free (mqtt3_context_disconnect e c db) = db_ll_for_free db"
    "db_contexts_by_id (mqtt3_context_disconnect e c db) = db_contexts_by_id db"
    using co(9,10) by (simp_all add: mqtt3_context_disconnect_def sc)
  have *: "db_contexts (mqtt3_context_disconnect e c db) d = (if d = c then closed (db_contexts ?t c) else db_contexts ?t d)"
    by (simp add: mqtt3_context_disconnect_def sc)
  show "ctx_id (db_contexts (mqtt3_context_disconnect e c db) d) = ctx_id (db_contexts db d)"
    "ctx_state (db_contexts (mqtt3_context_disconnect e c db) d) = ctx_state (db_contexts db d)"
    "ctx_sock (db_contexts (mqtt3_context_disconnect e c db) d) = (if d = c then INVALID_SOCKET else ctx_sock (db_contexts db d))"
    "ctx_in_packet (db_contexts (mqtt3_context_disconnect e c db) d) = ctx_in_packet (db_contexts db d)"
    unfolding * using co(1,2,3,5) [of d] by (auto simp: closed_def)
  assume "idle_ok db d"
  then have "idle_ok ?w d" by (auto simp: idle_ok_def idle_def)
  then have "idle_ok ?t d" by (rule frame_idle_ok [OF f])
  then show "idle_ok (mqtt3_context_disconnect e c db) d"
    unfolding idle_ok_def * by (auto simp: mqtt3_context_disconnect_def sc idle_closed)
qed

lemma do_disconnect_keep:
  assumes "live A db" and "ctx_sock (db_contexts db c) = INVALID_SOCKET"
  shows "live A (upd_ctx c (\<lambda>m. m\<lparr>ctx_state := mosq_cs_disconnected\<rparr>) db)"
proof (rule live_upd [OF assms(1)])
  show "conn_ok (db_contexts db c\<lparr>ctx_state := mosq_cs_disconnected\<rparr>)"
    by (rule conn_ok_off [OF liveD(3) [OF assms(1), of c]]) (simp_all add: assms(2))
qed (use assms(2) in \<open>simp_all add: same_queue_def packet_ok_def\<close>)

text \<open>What \<open>do_disconnect\<close> makes of a connection whose session ends with it.\<close>

definition discard :: "ctxid \<Rightarrow> mosquitto_db \<Rightarrow> mosquitto_db" where
  "discard c db = (upd_ctx c (\<lambda>m. m\<lparr>ctx_id := None, ctx_state := mosq_cs_disconnected\<rparr>) db)
     \<lparr>db_ll_for_free := c # db_ll_for_free db, db_contexts_by_id := filter (\<lambda>(_, d). d \<noteq> c) (db_contexts_by_id db)\<rparr>"

lemma discard_eq:
  assumes "tables_ok db"
  shows "upd_ctx c (\<lambda>m. m\<lparr>ctx_state := mosq_cs_disconnected\<rparr>) (drop_id c (mosquitto_add_context_to_disused c db)) = discard c db"
proof (cases "ctx_id (db_contexts db c)")
  case None
  then have "\<forall>(i, d) \<in> set (db_contexts_by_id db). d \<noteq> c" using tables_okD(2) [OF assms] by fastforce
  then have "filter (\<lambda>(_, d). d \<noteq> c) (db_contexts_by_id db) = db_contexts_by_id db" by (simp add: filter_id_conv)
  then show ?thesis using None
    by (intro mosquitto_db.equality) (auto simp: discard_def drop_id_def mosquitto_add_context_to_disused_def upd_ctx_def)
next
  case (Some i)
  then have "c \<in> snd ` set (db_contexts_by_id db)" using tables_okD(2) [OF assms, of i c] by force
  then show ?thesis using Some
    by (intro mosquitto_db.equality)
      (auto simp: discard_def drop_id_def hash_delete_id_def mosquitto_add_context_to_disused_def upd_ctx_def)
qed

lemma discard_tables:
  assumes "tables_ok db" and "ctx_sock (db_contexts db c) = INVALID_SOCKET" and "c \<notin> set (db_ll_for_free db)"
  shows "tables_ok (discard c db)"
proof -
  note t = tables_okD [OF assms(1)]
  have "ctx_listener (db_contexts (discard c db) d) = ctx_listener (db_contexts db d)"
    "ctx_sock (db_contexts (discard c db) d) = ctx_sock (db_contexts db d)" for d by (auto simp: discard_def)
  moreover have "distinct (map fst (db_contexts_by_id (discard c db)))" using t(1) by (simp add: discard_def distinct_map_filter)
  moreover have "(i, d) \<in> set (db_contexts_by_id (discard c db)) \<longleftrightarrow> ctx_id (db_contexts (discard c db) d) = Some i" for i d
    by (auto simp: discard_def t(2))
  ultimately show ?thesis unfolding tables_ok_def using assms(2,3) t(3-9) by (simp add: discard_def)
qed

lemma discard_live:
  assumes "live A db" and "ctx_sock (db_contexts db c) = INVALID_SOCKET" and "c \<notin> set (db_ll_for_free db)"
  shows "live A (discard c db)"
  unfolding live_def
proof (intro conjI allI impI discard_tables [OF liveD(2) [OF assms(1)] assms(2,3)])
  have "broker_ok (upd_ctx c (\<lambda>m. m\<lparr>ctx_id := None, ctx_state := mosq_cs_disconnected\<rparr>) db)"
    by (rule broker_ok_same_queue [OF liveD(1) [OF assms(1)]]) (simp_all add: same_queue_def)
  then show "broker_ok (discard c db)" by (simp add: discard_def)
  show "conn_ok (db_contexts (discard c db) d)" for d
    using conn_ok_off [OF liveD(3) [OF assms(1), of c] assms(2), of "db_contexts (discard c db) c"] liveD(3) [OF assms(1), of d] assms(2)
    by (cases "d = c") (simp_all add: discard_def)
  show "packet_ok (db_contexts (discard c db) d)" if "d \<notin> A" for d
    using liveD(4) [OF assms(1) that] assms(2) by (cases "d = c") (simp_all add: discard_def packet_ok_def)
  show "idle_ok (discard c db) d" if "d \<notin> A" for d
    using liveD(5) [OF assms(1) that] by (cases "d = c") (simp_all add: discard_def idle_ok_def)
qed

lemma do_disconnect_cases:
  assumes "live A db"
  shows "do_disconnect e c db =
    (if ctx_state (db_contexts db c) = mosq_cs_disconnected then db
     else if ctx_clean_session (db_contexts (mqtt3_context_disconnect e c db) c) then discard c (mqtt3_context_disconnect e c db)
     else upd_ctx c (\<lambda>m. m\<lparr>ctx_state := mosq_cs_disconnected\<rparr>) (mqtt3_context_disconnect e c db))"
proof -
  note l = context_disconnect_live [OF assms]
  show ?thesis using conn_okD(1) [OF liveD(3) [OF l]] discard_eq [OF liveD(2) [OF l]]
    by (simp add: do_disconnect_def Let_def)
qed

lemma do_disconnect_live:
  assumes "live A db"
  shows "live A (do_disconnect e c db)"
proof -
  note l = context_disconnect_live [OF assms] and f = context_disconnect_facts [OF assms]
  have "c \<notin> set (db_ll_for_free db)" if "ctx_state (db_contexts db c) \<noteq> mosq_cs_disconnected"
    using tables_okD(8) [OF liveD(2) [OF assms]] that by blast
  then show ?thesis unfolding do_disconnect_cases [OF assms]
    using discard_live [OF l] do_disconnect_keep [OF l] assms by (simp add: f)
qed

lemma do_disconnect_facts:
  assumes "live A db"
  shows "ctx_sock (db_contexts (do_disconnect e c db) c) = INVALID_SOCKET"
    and "idle_ok db d \<Longrightarrow> idle_ok (do_disconnect e c db) d"
    and "ctx_in_packet (db_contexts (do_disconnect e c db) d) = ctx_in_packet (db_contexts db d)"
proof -
  note f = context_disconnect_facts [OF assms]
  note s = conn_okD(4) [OF liveD(3) [OF assms, of c]]
  show "ctx_sock (db_contexts (do_disconnect e c db) c) = INVALID_SOCKET"
    using s by (simp add: do_disconnect_cases [OF assms] discard_def f)
  show "ctx_in_packet (db_contexts (do_disconnect e c db) d) = ctx_in_packet (db_contexts db d)"
    by (simp add: do_disconnect_cases [OF assms] discard_def f)
  assume i: "idle_ok db d"
  show "idle_ok (do_disconnect e c db) d"
    using f(7) [OF i, of e c] i by (auto simp: do_disconnect_cases [OF assms] discard_def idle_ok_def idle_def queue_wf_def)
qed

end
