(* ===== verification/Mosq_Free.thy ===== *)
theory Mosq_Free
  imports Mosq_Live
begin

text \<open>
  Freeing, accepting, checking and expiring connections keep the invariant of the running broker.
\<close>

section \<open>Steps that keep connections without a session idle\<close>

definition calm :: "mosquitto_db \<Rightarrow> mosquitto_db \<Rightarrow> bool" where
  "calm db db' \<longleftrightarrow> db_ll_for_free db' = db_ll_for_free db
     \<and> (\<forall>d. ctx_id (db_contexts db' d) = ctx_id (db_contexts db d)
          \<and> (ctx_id (db_contexts db d) = None \<longrightarrow> idle (db_contexts db d) \<longrightarrow> idle (db_contexts db' d)))"

lemma calm_refl: "calm db db"
  by (simp add: calm_def)

lemma calm_trans: "calm db db' \<Longrightarrow> calm db' db'' \<Longrightarrow> calm db db''"
  by (simp add: calm_def)

lemma calmD:
  assumes "calm db db'"
  shows "db_ll_for_free db' = db_ll_for_free db" "ctx_id (db_contexts db' d) = ctx_id (db_contexts db d)"
    "ctx_id (db_contexts db d) = None \<Longrightarrow> idle (db_contexts db d) \<Longrightarrow> idle (db_contexts db' d)"
  using assms by (simp_all add: calm_def)

lemma calm_idle_ok: "calm db db' \<Longrightarrow> idle_ok db d \<Longrightarrow> idle_ok db' d"
  by (simp add: calm_def idle_ok_def)

lemma calm_frame: "frame db db' \<Longrightarrow> calm db db'"
  using frame_core(1,9) [of db db'] frame_idle [of db db'] by (simp add: calm_def)

lemma calm_upd:
  assumes "same_queue (db_contexts db c) (f (db_contexts db c))" and "ctx_id (f (db_contexts db c)) = ctx_id (db_contexts db c)"
    and "0 \<le> ctx_sock (f (db_contexts db c)) \<longrightarrow> 0 \<le> ctx_sock (db_contexts db c)"
  shows "calm db (upd_ctx c f db)"
  using assms(2) same_queue_idle [OF assms(1,3)] by (simp add: calm_def)

lemma calm_close:
  assumes "live A db"
  shows "calm db (mosquitto_socket_close c db)"
  by (auto simp: calm_def socket_close_ctx [OF assms] idle_closed)

lemma calm_send_will:
  assumes "live A db"
  shows "calm db (mqtt3_context_send_will e c db)"
  by (rule calm_trans [OF calm_upd calm_frame [OF send_will_frame [OF assms]]]) (simp_all add: same_queue_def)

lemma conn_ok_fields [simp]:
  "conn_ok (m\<lparr>ctx_in_packet := p\<rparr>) = conn_ok m" "conn_ok (m\<lparr>ctx_current_out_packet := q\<rparr>) = conn_ok m"
  "conn_ok (m\<lparr>ctx_out_packet := qs\<rparr>) = conn_ok m" "conn_ok (m\<lparr>ctx_clean_session := b\<rparr>) = conn_ok m"
  by (simp_all add: conn_ok_def)

section \<open>Freeing\<close>

text \<open>The last steps of \<open>mqtt3_context_cleanup\<close>, when the messages are gone.\<close>

lemma cleanup_tail:
  assumes "live A db" and "ctx_id (db_contexts db c) = None" and "idle (db_contexts db c)" and "ctx_sock (db_contexts db c) = INVALID_SOCKET"
  defines "db' \<equiv> upd_ctx c (\<lambda>m. m\<lparr>ctx_in_packet := mosquitto_packet_cleanup (ctx_in_packet m),
      ctx_current_out_packet := None, ctx_out_packet := []\<rparr>) db"
  shows "live A (upd_ctx c (\<lambda>m. m\<lparr>ctx_msgs := [], ctx_last_msg := LastNull\<rparr>)
      (messages_delete_loop db' (ctx_msgs (db_contexts db' c))))"
    and "calm db (upd_ctx c (\<lambda>m. m\<lparr>ctx_msgs := [], ctx_last_msg := LastNull\<rparr>)
      (messages_delete_loop db' (ctx_msgs (db_contexts db' c))))"
proof -
  have m: "ctx_msgs (db_contexts db' c) = []" using assms(3) by (simp add: db'_def idle_def)
  have l: "live A db'" unfolding db'_def
    by (rule live_upd [OF assms(1)])
      (use assms(4) liveD(3) [OF assms(1), of c] tables_okD(8) [OF liveD(2) [OF assms(1)]]
        in \<open>simp_all add: same_queue_def packet_ok_def\<close>)
  have i: "ctx_id (db_contexts db' c) = None" "ctx_sock (db_contexts db' c) = INVALID_SOCKET" using assms(2,4) by (simp_all add: db'_def)
  have f: "frame db' (upd_ctx c (\<lambda>m. m\<lparr>ctx_msgs := [], ctx_last_msg := LastNull\<rparr>) db')"
    by (rule frame_ctx) (use m in \<open>simp_all add: core_def stays_idle_def queue_wf_def\<close>)
  have "broker_ok (upd_ctx c (\<lambda>m. m\<lparr>ctx_msgs := [], ctx_last_msg := LastNull\<rparr>) db')"
    by (rule broker_ok_upd [OF liveD(1) [OF l]]) (use m i in \<open>simp_all add: queue_ok_def queue_refs_def\<close>)
  then show "live A (upd_ctx c (\<lambda>m. m\<lparr>ctx_msgs := [], ctx_last_msg := LastNull\<rparr>)
      (messages_delete_loop db' (ctx_msgs (db_contexts db' c))))"
    unfolding m by (simp add: live_frame [OF l _ f])
  have "calm db db'" unfolding db'_def by (rule calm_upd) (simp_all add: same_queue_def)
  then show "calm db (upd_ctx c (\<lambda>m. m\<lparr>ctx_msgs := [], ctx_last_msg := LastNull\<rparr>)
      (messages_delete_loop db' (ctx_msgs (db_contexts db' c))))"
    unfolding m by (simp add: calm_trans [OF _ calm_frame [OF f]])
qed

lemma end_session_live:
  assumes "live A db" and "ctx_sock (db_contexts db c) = INVALID_SOCKET"
  defines "db' \<equiv> snd (mqtt3_db_messages_delete (snd (mqtt3_subs_clean_session db c)) c)"
  shows "live A db'" and "calm db db'" and "idle (db_contexts db' c)" and "frame db db'"
proof -
  let ?s = "snd (mqtt3_subs_clean_session db c)"
  have b: "broker_ok db'" unfolding db'_def
    by (intro broker_ok_messages_delete broker_ok_clean_session liveD(1) [OF assms(1)])
  have f: "frame db ?s" by (rule frame_clean_session [OF liveD(1) [OF assms(1)]])
  show fr: "frame db db'" unfolding db'_def by (rule frame_trans [OF f frame_messages_delete])
  show "live A db'" by (rule live_frame [OF assms(1) b fr])
  show "calm db db'" by (rule calm_frame [OF fr])
  have "ctx_subs (db_contexts ?s c) = []" by (simp add: mqtt3_subs_clean_session_def)
  then have "ctx_subs (db_contexts db' c) = []" unfolding db'_def
    using frame_messages_delete [of ?s c] by (simp add: mqtt3_db_messages_delete_def messages_delete_loop_foldl)
  then show "idle (db_contexts db' c)"
    using frame_core(2) [OF fr, of c] assms(2) by (simp add: db'_def idle_def mqtt3_db_messages_delete_def)
qed

lemma context_cleanup_free:
  assumes "live A db" and "ctx_id (db_contexts db c) = None"
  shows "live A (mqtt3_context_cleanup e c True db)" and "calm db (mqtt3_context_cleanup e c True db)"
    and "idle (db_contexts (mqtt3_context_cleanup e c True db) c)"
    and "ctx_sock (db_contexts (mqtt3_context_cleanup e c True db) c) = INVALID_SOCKET"
proof -
  define db1 where "db1 = upd_ctx c (\<lambda>m. m\<lparr>ctx_username := None, ctx_password := None\<rparr>) db"
  have l1: "live A db1" unfolding db1_def by (rule live_set [OF assms(1)]) (simp_all add: same_queue_def core_def)
  have k1: "calm db db1" unfolding db1_def by (rule calm_upd) (simp_all add: same_queue_def)
  have b: "cleanup_bridge c db1 = db1" using conn_okD(1) [OF liveD(3) [OF l1]] by (simp add: cleanup_bridge_def)
  define db2 where "db2 = mosquitto_socket_close c db1"
  have l2: "live A db2" and k2: "calm db1 db2" unfolding db2_def by (rule socket_close_live [OF l1], rule calm_close [OF l1])
  have s2: "ctx_sock (db_contexts db2 c) = INVALID_SOCKET" by (simp add: db2_def socket_close_ctx [OF l1] closed_def)
  define db3 where "db3 = snd (mqtt3_db_messages_delete (snd (mqtt3_subs_clean_session db2 c)) c)"
  note e3 = end_session_live [OF l2 s2, folded db3_def]
  have s3: "ctx_sock (db_contexts db3 c) = INVALID_SOCKET" using frame_core(2) [OF e3(4)] s2 by simp
  define db4 where "db4 = upd_ctx c (\<lambda>m. m\<lparr>ctx_address := None\<rparr>) db3"
  have l4: "live A db4" unfolding db4_def by (rule live_set [OF e3(1)]) (simp_all add: same_queue_def core_def)
  have k4: "calm db3 db4" unfolding db4_def by (rule calm_upd) (simp_all add: same_queue_def)
  have s4: "ctx_sock (db_contexts db4 c) = INVALID_SOCKET" using s3 by (simp add: db4_def)
  define db5 where "db5 = mqtt3_context_send_will e c db4"
  have l5: "live A db5" and k5: "calm db4 db5" unfolding db5_def by (rule send_will_live [OF l4], rule calm_send_will [OF l4])
  have s5: "ctx_sock (db_contexts db5 c) = INVALID_SOCKET" using frame_core(2) [OF send_will_frame [OF l4, of c e], of c] s4 by (simp add: db5_def)
  have "calm db db3" by (rule calm_trans [OF calm_trans [OF k1 k2] e3(2)])
  then have k: "calm db db5" using calm_trans k4 k5 by blast
  have id5: "ctx_id (db_contexts db5 c) = None" using calmD(2) [OF k] assms(2) by simp
  have "calm db3 db5" by (rule calm_trans [OF k4 k5])
  then have i5: "idle (db_contexts db5 c)" using calmD(2,3) e3(3) id5 by metis
  note tail = cleanup_tail [OF l5 id5 i5 s5]
  have eq: "mqtt3_context_cleanup e c True db = upd_ctx c (\<lambda>m. m\<lparr>ctx_msgs := [], ctx_last_msg := LastNull\<rparr>)
      (messages_delete_loop (upd_ctx c (\<lambda>m. m\<lparr>ctx_in_packet := mosquitto_packet_cleanup (ctx_in_packet m),
      ctx_current_out_packet := None, ctx_out_packet := []\<rparr>) db5) (ctx_msgs (db_contexts (upd_ctx c (\<lambda>m. m\<lparr>ctx_in_packet := mosquitto_packet_cleanup (ctx_in_packet m),
      ctx_current_out_packet := None, ctx_out_packet := []\<rparr>) db5) c)))"
    using id5 b by (simp add: mqtt3_context_cleanup_def Let_def drop_id_def flip: db1_def db2_def db3_def db4_def db5_def)
  show "live A (mqtt3_context_cleanup e c True db)" unfolding eq by (rule tail(1))
  show "calm db (mqtt3_context_cleanup e c True db)" unfolding eq by (rule calm_trans [OF k tail(2)])
  show "idle (db_contexts (mqtt3_context_cleanup e c True db) c)" unfolding eq by (rule calmD(3) [OF tail(2) id5 i5])
  show "ctx_sock (db_contexts (mqtt3_context_cleanup e c True db) c) = INVALID_SOCKET"
    using i5 s5 by (simp add: eq idle_def)
qed

lemma free_disused_loop:
  assumes "live A db" and "\<forall>c \<in> set cs. ctx_id (db_contexts db c) = None"
  shows "live A (foldl (\<lambda>db c. mqtt3_context_cleanup e c True db) db cs)
    \<and> calm db (foldl (\<lambda>db c. mqtt3_context_cleanup e c True db) db cs)
    \<and> (\<forall>c \<in> set cs. idle (db_contexts (foldl (\<lambda>db c. mqtt3_context_cleanup e c True db) db cs) c))"
  using assms
proof (induction cs arbitrary: db)
  case Nil
  then show ?case by (simp add: calm_refl)
next
  case (Cons c cs)
  let ?db = "mqtt3_context_cleanup e c True db"
  have id: "ctx_id (db_contexts db c) = None" using Cons.prems by simp
  note k = context_cleanup_free [OF Cons.prems(1) id, of e]
  have "\<forall>c \<in> set cs. ctx_id (db_contexts ?db c) = None" using Cons.prems(2) calmD(2) [OF k(2)] by simp
  note IH = Cons.IH [OF k(1) this]
  then have K: "calm ?db (foldl (\<lambda>db c. mqtt3_context_cleanup e c True db) ?db cs)" by blast
  have "idle (db_contexts (foldl (\<lambda>db c. mqtt3_context_cleanup e c True db) ?db cs) c)"
    by (rule calmD(3) [OF K _ k(3)]) (simp add: calmD(2) [OF k(2)] id)
  then show ?case using IH calm_trans [OF k(2) K] by simp
qed

lemma live_forget:
  assumes "live A db" and "\<forall>c \<in> set (db_ll_for_free db). idle (db_contexts db c)"
  shows "live A (db\<lparr>db_ll_for_free := []\<rparr>)"
proof -
  have "tables_ok (db\<lparr>db_ll_for_free := []\<rparr>)" using liveD(2) [OF assms(1)] by (simp add: tables_ok_def)
  moreover have "idle_ok (db\<lparr>db_ll_for_free := []\<rparr>) c" if "c \<notin> A" for c
    using liveD(5) [OF assms(1) that] assms(2) by (auto simp: idle_ok_def)
  ultimately show ?thesis using assms(1) by (simp add: live_def)
qed

lemma free_disused_live:
  assumes "live A db"
  shows "live A (mosquitto_free_disused_contexts e db)"
    and "ctx_id (db_contexts (mosquitto_free_disused_contexts e db) d) = ctx_id (db_contexts db d)"
proof -
  have "\<forall>c \<in> set (db_ll_for_free db). ctx_id (db_contexts db c) = None" using tables_okD(7) [OF liveD(2) [OF assms]] by blast
  note f = free_disused_loop [OF assms this, of e]
  then show "live A (mosquitto_free_disused_contexts e db)" unfolding mosquitto_free_disused_contexts_def
    by (intro live_forget) (auto simp: calmD(1))
  show "ctx_id (db_contexts (mosquitto_free_disused_contexts e db) d) = ctx_id (db_contexts db d)"
    unfolding mosquitto_free_disused_contexts_def using f by (auto simp: calmD(2))
qed

section \<open>Accepting\<close>

text \<open>An address that \<open>calloc\<close> may return: no table knows a connection there.\<close>

definition free_address :: "mosquitto_db \<Rightarrow> ctxid \<Rightarrow> bool" where
  "free_address db c \<longleftrightarrow> c \<notin> set (db_contexts_by_sock db) \<and> c \<notin> snd ` set (db_contexts_by_id db) \<and> c \<notin> set (db_ll_for_free db)"

lemma free_addressD:
  assumes "tables_ok db" and "free_address db c"
  shows "ctx_sock (db_contexts db c) < 0" "ctx_id (db_contexts db c) = None" "c \<notin> set (db_ll_for_free db)" "c \<notin> set (db_contexts_by_sock db)"
proof -
  show "ctx_sock (db_contexts db c) < 0" "c \<notin> set (db_ll_for_free db)" "c \<notin> set (db_contexts_by_sock db)"
    using assms(2) tables_okD(4) [OF assms(1), of c] by (auto simp: free_address_def)
  show "ctx_id (db_contexts db c) = None"
  proof (rule ccontr)
    assume "ctx_id (db_contexts db c) \<noteq> None"
    then obtain i where "(i, c) \<in> set (db_contexts_by_id db)" using tables_okD(2) [OF assms(1)] by blast
    then have "c \<in> snd ` set (db_contexts_by_id db)" by (rule rev_image_eqI) simp
    then show False using assms(2) by (simp add: free_address_def)
  qed
qed

definition fresh_context :: "mosq_env \<Rightarrow> int \<Rightarrow> string option \<Rightarrow> net_read_event list \<Rightarrow> net_write_event list \<Rightarrow> mosquitto" where
  "fresh_context e sock address net_in net_out =
     context_calloc\<lparr>ctx_state := mosq_cs_new, ctx_sock := sock, ctx_last_msg_in := env_now e,
       ctx_next_msg_out := env_now e + 60, ctx_keepalive := 60, ctx_clean_session := True,
       ctx_in_packet := mosquitto_packet_cleanup packet_calloc, ctx_net_in := net_in, ctx_net_out := net_out, ctx_address := address\<rparr>"

lemma in_rest_cleanup: "in_rest (mosquitto_packet_cleanup p)"
  by (simp add: in_rest_def mosquitto_packet_cleanup_def)

lemma fresh_context_fields [simp]:
  "ctx_id (fresh_context e sock a i out) = None" "ctx_sock (fresh_context e sock a i out) = sock"
  "ctx_listener (fresh_context e sock a i out) = None" "ctx_state (fresh_context e sock a i out) = mosq_cs_new"
  "ctx_subs (fresh_context e sock a i out) = []" "queue_refs (fresh_context e sock a i out) = {#}"
  "queue_wf (fresh_context e sock a i out)" "ctx_msgs (fresh_context e sock a i out) = []"
  by (simp_all add: fresh_context_def context_calloc_def queue_refs_def queue_wf_def qos12_def)

lemma fresh_context_ok:
  assumes "0 \<le> sock"
  shows "conn_ok (fresh_context e sock a i out)" "packet_ok (fresh_context e sock a i out)" "idle (fresh_context e sock a i out)"
proof -
  have "in_rest (ctx_in_packet (fresh_context e sock a i out))" "pkt_command (ctx_in_packet (fresh_context e sock a i out)) = 0"
    by (simp_all add: fresh_context_def in_rest_cleanup) (simp add: mosquitto_packet_cleanup_def)
  then show "packet_ok (fresh_context e sock a i out)" by (simp add: packet_ok_def)
  show "conn_ok (fresh_context e sock a i out)" using assms by (simp add: fresh_context_def context_calloc_def conn_ok_def)
  show "idle (fresh_context e sock a i out)" by (simp add: idle_def)
qed

lemma fresh_live:
  assumes "live A db" and "free_address db c" and "c \<notin> A" and "0 \<le> sock"
  shows "live A (upd_ctx c (\<lambda>_. fresh_context e sock a i out) (db\<lparr>db_contexts_by_sock := db_contexts_by_sock db @ [c]\<rparr>))"
    (is "live A ?db")
proof -
  note t = tables_okD [OF liveD(2) [OF assms(1)]] and f = free_addressD [OF liveD(2) [OF assms(1)] assms(2)]
  note ok = fresh_context_ok [OF assms(4), of e a i out]
  have idle: "idle (db_contexts db c)" using liveD(5) [OF assms(1,3)] f by (simp add: idle_ok_def)
  have "broker_ok ?db"
  proof (rule broker_ok_upd)
    show "broker_ok (db\<lparr>db_contexts_by_sock := db_contexts_by_sock db @ [c]\<rparr>)" using liveD(1) [OF assms(1)] by simp
  qed (use idle in \<open>simp_all add: queue_ok_def idle_def queue_refs_def\<close>)
  moreover have "tables_ok ?db" unfolding tables_ok_def
  proof (intro conjI allI)
    fix l
    have "filter (\<lambda>d. ctx_listener (db_contexts ?db d) = Some l) (db_contexts_by_sock db)
        = filter (\<lambda>d. ctx_listener (db_contexts db d) = Some l) (db_contexts_by_sock db)"
      by (rule filter_cong [OF refl]) (use f(4) in auto)
    then show "db_client_count ?db l = int (length (filter (\<lambda>d. ctx_listener (db_contexts ?db d) = Some l) (db_contexts_by_sock ?db)))"
      using t(9) [of l] by simp
  qed (use t f assms(4) in auto)
  moreover have "conn_ok (db_contexts ?db d)" for d using liveD(3) [OF assms(1), of d] ok(1) by simp
  moreover have "packet_ok (db_contexts ?db d)" if "d \<notin> A" for d using liveD(4) [OF assms(1) that] ok(2) by simp
  moreover have "idle_ok ?db d" if "d \<notin> A" for d using liveD(5) [OF assms(1) that] ok(3) by (simp add: idle_ok_def)
  ultimately show ?thesis by (simp add: live_def)
qed

lemma conn_ok_open:
  assumes "conn_ok m" and "0 \<le> ctx_sock m" and "ctx_bridge m' = ctx_bridge m" "ctx_sock m' = ctx_sock m"
    "ctx_state m' = ctx_state m" "ctx_id m' = ctx_id m" "ctx_will m' = ctx_will m"
  shows "conn_ok m'"
  unfolding conn_ok_def assms(3-7) using assms(2) assms(1) [unfolded conn_ok_def] by blast

lemma join_listener_live:
  assumes "live A db" and "0 \<le> ctx_sock (db_contexts db c)" and "ctx_listener (db_contexts db c) = None"
  shows "live A (upd_ctx c (\<lambda>m. m\<lparr>ctx_listener := Some l\<rparr>) (db\<lparr>db_client_count := (db_client_count db)(l := db_client_count db l + 1)\<rparr>))"
    (is "live A ?db")
proof -
  note t = tables_okD [OF liveD(2) [OF assms(1)]]
  have mem: "c \<in> set (db_contexts_by_sock db)" using t(4) assms(2) by blast
  have n: "length (filter (\<lambda>d. d = c \<and> l' = l \<or> d \<noteq> c \<and> P d) xs) = length (filter P xs) + (if l' = l then 1 else 0)"
    if "distinct xs" "c \<in> set xs" "\<not> P c" for xs P and l' :: nat
    using that by (induction xs) (auto intro: arg_cong [where f = length] filter_cong)
  have "tables_ok ?db" unfolding tables_ok_def
  proof (intro conjI allI)
    fix l'
    have "filter (\<lambda>d. ctx_listener (db_contexts ?db d) = Some l') (db_contexts_by_sock db)
        = filter (\<lambda>d. d = c \<and> l' = l \<or> d \<noteq> c \<and> ctx_listener (db_contexts db d) = Some l') (db_contexts_by_sock db)"
      by (rule filter_cong [OF refl]) auto
    then show "db_client_count ?db l' = int (length (filter (\<lambda>d. ctx_listener (db_contexts ?db d) = Some l') (db_contexts_by_sock ?db)))"
      using t(9) [of l'] n [OF t(3) mem, of "\<lambda>d. ctx_listener (db_contexts db d) = Some l'" l'] assms(3)
      by (cases "l' = l") simp_all
  qed (use t in auto)
  moreover have "conn_ok (db_contexts ?db d)" for d
  proof -
    have "conn_ok (db_contexts db c\<lparr>ctx_listener := Some l\<rparr>)"
      by (rule conn_ok_open [OF liveD(3) [OF assms(1), of c] assms(2)]) simp_all
    then show ?thesis using liveD(3) [OF assms(1), of d] by simp
  qed
  moreover have "broker_ok ?db"
    by (rule broker_ok_same_queue) (use liveD(1) [OF assms(1)] in \<open>simp_all add: same_queue_def\<close>)
  moreover have "packet_ok (db_contexts ?db d)" if "d \<notin> A" for d using liveD(4) [OF assms(1) that] by (auto simp: packet_ok_def)
  moreover have "idle_ok ?db d" if "d \<notin> A" for d
    using liveD(5) [OF assms(1) that] by (auto simp: idle_ok_def idle_def queue_wf_def)
  ultimately show ?thesis by (simp add: live_def)
qed

lemma context_init_eq:
  "mqtt3_context_init e c sock (Some a) net_in net_out db =
    (if 0 \<le> sock then Some (upd_ctx c (\<lambda>_. fresh_context e sock (Some a) net_in net_out) (db\<lparr>db_contexts_by_sock := db_contexts_by_sock db @ [c]\<rparr>))
     else mqtt3_context_init e c sock (Some a) net_in net_out db)"
  by (simp add: mqtt3_context_init_def fresh_context_def Let_def)

lemma socket_accept_live:
  assumes "live A db" and "free_address db c" and "c \<notin> A" and "0 \<le> sock"
  shows "live A (snd (mqtt3_socket_accept e c sock address net_in net_out listener max_connections db))"
proof (cases address)
  case None
  then show ?thesis using assms by (simp add: mqtt3_socket_accept_def mqtt3_context_init_def)
next
  case (Some a)
  let ?db = "upd_ctx c (\<lambda>_. fresh_context e sock (Some a) net_in net_out) (db\<lparr>db_contexts_by_sock := db_contexts_by_sock db @ [c]\<rparr>)"
  have l: "live A ?db" by (rule fresh_live [OF assms])
  have i: "mqtt3_context_init e c sock (Some a) net_in net_out db = Some ?db" using assms(4) by (subst context_init_eq) simp
  show ?thesis
  proof (cases listener)
    case None
    then show ?thesis using context_cleanup_free(1) [OF l, of c e] by (simp add: mqtt3_socket_accept_def Some i)
  next
    case (Some k)
    have "live A (upd_ctx c (\<lambda>m. m\<lparr>ctx_listener := Some k\<rparr>) (?db\<lparr>db_client_count := (db_client_count ?db)(k := db_client_count ?db k + 1)\<rparr>))"
      by (rule join_listener_live [OF l]) (use assms(4) in simp_all)
    note j = this context_cleanup_free(1) [OF this, of c e]
    show ?thesis using j by (simp add: mqtt3_socket_accept_def \<open>address = Some a\<close> i Some Let_def)
  qed
qed

section \<open>Visiting all clients\<close>

lemma do_disconnect_ids:
  assumes "live A db" and "d \<noteq> c"
  shows "ctx_id (db_contexts (do_disconnect e c db) d) = ctx_id (db_contexts db d)"
  using assms(2) by (simp add: do_disconnect_cases [OF assms(1)] discard_def context_disconnect_facts [OF assms(1)])

lemma live_state:
  assumes "live A db" and "ctx_id (db_contexts db c) \<noteq> None" and "ctx_state (f (db_contexts db c)) \<notin> {mosq_cs_new, mosq_cs_disconnected, mosq_cs_connect_pending}"
    and "same_queue (db_contexts db c) (f (db_contexts db c))"
    and "core (f (db_contexts db c)) = core (db_contexts db c\<lparr>ctx_state := ctx_state (f (db_contexts db c)), ctx_clean_session := b\<rparr>)"
  shows "live A (upd_ctx c f db)"
proof (rule live_upd [OF assms(1)])
  have c: "ctx_id (f (db_contexts db c)) = ctx_id (db_contexts db c)" "ctx_sock (f (db_contexts db c)) = ctx_sock (db_contexts db c)"
    "ctx_listener (f (db_contexts db c)) = ctx_listener (db_contexts db c)" "ctx_in_packet (f (db_contexts db c)) = ctx_in_packet (db_contexts db c)"
    "(ctx_bridge (f (db_contexts db c)) = None) = (ctx_bridge (db_contexts db c) = None)" "ctx_will (f (db_contexts db c)) = ctx_will (db_contexts db c)"
    using assms(5) by (simp_all add: core_def)
  then show "ctx_id (f (db_contexts db c)) = ctx_id (db_contexts db c)" "ctx_sock (f (db_contexts db c)) = ctx_sock (db_contexts db c)"
    "ctx_listener (f (db_contexts db c)) = ctx_listener (db_contexts db c)" by blast+
  show "conn_ok (f (db_contexts db c))"
    unfolding conn_ok_def c using liveD(3) [OF assms(1), of c, unfolded conn_ok_def] assms(2,3) by blast
  show "packet_ok (f (db_contexts db c))" if "c \<notin> A"
    unfolding packet_ok_def c using liveD(4) [OF assms(1) that, unfolded packet_ok_def] assms(3) by blast
  show "ctx_state (f (db_contexts db c)) = mosq_cs_disconnected" if "c \<in> set (db_ll_for_free db)"
    using tables_okD(7) [OF liveD(2) [OF assms(1)] that] assms(2) by simp
qed (rule assms(4))

lemma clients_fold:
  assumes step: "\<And>db c. live A db \<Longrightarrow> ctx_id (db_contexts db c) \<noteq> None \<Longrightarrow>
      live A (f c db) \<and> (\<forall>d. d \<noteq> c \<longrightarrow> ctx_id (db_contexts (f c db) d) = ctx_id (db_contexts db d))"
    and "live A db" and "distinct cs" and "\<forall>c \<in> set cs. ctx_id (db_contexts db c) \<noteq> None"
  shows "live A (foldl (\<lambda>db c. f c db) db cs)"
  using assms(2-)
proof (induction cs arbitrary: db)
  case (Cons c cs)
  have "ctx_id (db_contexts db c) \<noteq> None" using Cons.prems(3) by simp
  note s = step [OF Cons.prems(1) this]
  have "\<forall>d \<in> set cs. ctx_id (db_contexts (f c db) d) \<noteq> None"
    using Cons.prems(2,3) s by (metis distinct.simps(2) list.set_intros(2))
  then show ?case using Cons.IH [of "f c db"] s Cons.prems(2) by simp
qed simp

lemma clients_by_id:
  assumes "tables_ok db"
  shows "distinct (map snd (db_contexts_by_id db))" and "\<forall>c \<in> set (map snd (db_contexts_by_id db)). ctx_id (db_contexts db c) \<noteq> None"
proof -
  note t = tables_okD [OF assms]
  have "inj_on snd (set (db_contexts_by_id db))" using t(2) by (intro inj_onI) (metis option.inject prod.collapse)
  then show "distinct (map snd (db_contexts_by_id db))" using t(1) by (simp add: distinct_map)
  show "\<forall>c \<in> set (map snd (db_contexts_by_id db)). ctx_id (db_contexts db c) \<noteq> None" using t(2) by auto
qed

text \<open>Ending a client after its state has been set.\<close>

lemma end_client_live:
  assumes "live A db" and "ctx_id (db_contexts db c) \<noteq> None" and "\<And>m. ctx_state (f m) \<notin> {mosq_cs_new, mosq_cs_disconnected, mosq_cs_connect_pending}"
    and "\<And>m. same_queue m (f m)" and "\<And>m. core (f m) = core (m\<lparr>ctx_state := ctx_state (f m), ctx_clean_session := b m\<rparr>)"
  shows "live A (do_disconnect e c (upd_ctx c f db))"
    and "d \<noteq> c \<Longrightarrow> ctx_id (db_contexts (do_disconnect e c (upd_ctx c f db)) d) = ctx_id (db_contexts db d)"
proof -
  have l: "live A (upd_ctx c f db)" by (rule live_state [OF assms(1,2)]) (rule assms(3-5))+
  then show "live A (do_disconnect e c (upd_ctx c f db))" by (rule do_disconnect_live)
  show "ctx_id (db_contexts (do_disconnect e c (upd_ctx c f db)) d) = ctx_id (db_contexts db d)" if "d \<noteq> c"
    using do_disconnect_ids [OF l that] that by simp
qed

lemma security_apply_live:
  assumes "live A db"
  shows "live A (snd (mosquitto_security_apply e db))"
proof -
  have "live A (security_apply_client e c db) \<and> (\<forall>d. d \<noteq> c \<longrightarrow> ctx_id (db_contexts (security_apply_client e c db) d) = ctx_id (db_contexts db d))"
    if l: "live A db" and i: "ctx_id (db_contexts db c) \<noteq> None" for db c
  proof -
    note done_client = end_client_live [OF l i, of "\<lambda>m. m\<lparr>ctx_state := mosq_cs_disconnecting\<rparr>" ctx_clean_session]
    have "live A (do_disconnect e c (upd_ctx c (\<lambda>m. m\<lparr>ctx_state := mosq_cs_disconnecting\<rparr>) db))"
      "d \<noteq> c \<Longrightarrow> ctx_id (db_contexts (do_disconnect e c (upd_ctx c (\<lambda>m. m\<lparr>ctx_state := mosq_cs_disconnecting\<rparr>) db)) d) = ctx_id (db_contexts db d)" for d
      by (rule done_client; simp add: same_queue_def core_def)+
    moreover have "live A (upd_ctx c (\<lambda>m. m\<lparr>ctx_acl_list := u\<rparr>) db)" for u
      by (rule live_set [OF l]) (simp_all add: same_queue_def core_def)
    ultimately show ?thesis using l by (auto simp: security_apply_client_def Let_def split: option.split)
  qed
  from clients_fold [of A "security_apply_client e", OF this assms clients_by_id [OF liveD(2) [OF assms]]] assms
  show ?thesis by (simp add: mosquitto_security_apply_def mosquitto_security_apply_default_def)
qed

lemma loop_expire_live:
  assumes "live A db"
  shows "live A (foldl (\<lambda>db c. loop_expire e t c db) db (map snd (db_contexts_by_id db)))"
proof (rule clients_fold [OF _ assms clients_by_id [OF liveD(2) [OF assms]]])
  fix db c assume l: "live A db" and i: "ctx_id (db_contexts db c) \<noteq> None"
  note done_client = end_client_live [OF l i, of "\<lambda>m. m\<lparr>ctx_clean_session := True, ctx_state := mosq_cs_expiring\<rparr>" "\<lambda>_. True"]
  have "live A (do_disconnect e c (upd_ctx c (\<lambda>m. m\<lparr>ctx_clean_session := True, ctx_state := mosq_cs_expiring\<rparr>) db))"
    "d \<noteq> c \<Longrightarrow> ctx_id (db_contexts (do_disconnect e c (upd_ctx c (\<lambda>m. m\<lparr>ctx_clean_session := True, ctx_state := mosq_cs_expiring\<rparr>) db)) d)
      = ctx_id (db_contexts db d)" for d
    by (rule done_client; simp add: same_queue_def core_def)+
  then show "live A (loop_expire e t c db) \<and> (\<forall>d. d \<noteq> c \<longrightarrow> ctx_id (db_contexts (loop_expire e t c db) d) = ctx_id (db_contexts db d))"
    using l by (simp add: loop_expire_def Let_def)
qed

section \<open>Writing\<close>

lemma live_conn:
  assumes "live A db" and "conn_frame m = conn_frame (db_contexts db c)"
  shows "live A (upd_ctx c (\<lambda>_. m) db)"
proof (rule live_frame [OF assms(1)])
  show "frame db (upd_ctx c (\<lambda>_. m) db)" by (rule frame_conn [OF assms(2)])
  show "broker_ok (upd_ctx c (\<lambda>_. m) db)"
    by (rule broker_ok_queue_frame [OF liveD(1) [OF assms(1)] db_inv_conn [OF _ assms(2)] queue_frame_conn [OF assms(2)]])
qed

lemma timeout_check_live: "live A db \<Longrightarrow> live A (snd (mqtt3_db_message_timeout_check e db t))"
  using live_frame [OF _ broker_ok_timeout [OF liveD(1)]] by (simp add: mqtt3_db_message_timeout_check_def frame_timeout Let_def)

lemma loop_client_live:
  assumes "live A db"
  shows "\<exists>db'. loop_client e c db = Some db' \<and> live A db'"
proof -
  obtain rc db' where w: "mqtt3_db_message_write e db c = Some (rc, db')" "broker_ok db'"
    using broker_ok_write [OF liveD(1) [OF assms]] by blast
  have "live A db'" by (rule live_frame [OF assms w(2) frame_message_write [OF w(1)]])
  then show ?thesis using assms w(1) conn_okD(1) [OF liveD(3) [OF assms]] do_disconnect_live
    by (auto simp: loop_client_def Let_def)
qed

lemma loop_handle_write_live:
  assumes "live A db"
  shows "live A (loop_handle_write e events c db)"
proof -
  have "conn_frame (snd (mosquitto_packet_write e (db_contexts db c))) = conn_frame (db_contexts db c)"
    by (simp add: mosquitto_packet_write_def Let_def)
  note l = live_conn [OF assms this]
  then show ?thesis using assms conn_okD(8) [OF liveD(3) [OF assms]] do_disconnect_live [OF l]
    by (auto simp: loop_handle_write_def Let_def split_beta)
qed

end
