(* ===== verification/Mosq_Arrive.thy ===== *)
theory Mosq_Arrive
  imports Mosq_Free
begin

text \<open>
  What \<open>_mosquitto_packet_read\<close> leaves in a connection before the packet is handled: a packet at
  rest if it has to wait for more bytes, a well-formed one for the handler, and nothing else of the
  connection that the invariant of the broker speaks of.
\<close>

section \<open>What reading does not touch\<close>

definition in_part :: "mosquitto \<Rightarrow> mosquitto" where
  "in_part m = m\<lparr>ctx_in_packet := packet_calloc, ctx_net_in := [], ctx_stats := zero_stats, ctx_last_msg_in := 0\<rparr>"

lemma in_part_upd [simp]:
  "in_part (m\<lparr>ctx_in_packet := p\<rparr>) = in_part m" "in_part (m\<lparr>ctx_net_in := i\<rparr>) = in_part m"
  "in_part (m\<lparr>ctx_stats := s\<rparr>) = in_part m" "in_part (m\<lparr>ctx_last_msg_in := t\<rparr>) = in_part m"
  "in_part (upd_in f m) = in_part m" "in_part (count_received n m) = in_part m" "in_part (add_stats g m) = in_part m"
  by (simp_all add: in_part_def upd_in_def count_received_def add_stats_def)

lemma net_read_part: "mosquitto_net_read m n = (r, m') \<Longrightarrow> in_part m' = in_part m"
  by (auto simp: mosquitto_net_read_def split: list.splits net_read_event.splits if_splits)

lemma in_part_fields:
  assumes "in_part m' = in_part m"
  shows "ctx_state m' = ctx_state m" "ctx_bridge m' = ctx_bridge m" "ctx_sock m' = ctx_sock m" "ctx_id m' = ctx_id m"
    "ctx_listener m' = ctx_listener m" "ctx_will m' = ctx_will m" "ctx_clean_session m' = ctx_clean_session m" "same_queue m m'"
proof -
  have "ctx_state (in_part m') = ctx_state (in_part m)" "ctx_bridge (in_part m') = ctx_bridge (in_part m)"
    "ctx_sock (in_part m') = ctx_sock (in_part m)" "ctx_id (in_part m') = ctx_id (in_part m)"
    "ctx_listener (in_part m') = ctx_listener (in_part m)" "ctx_will (in_part m') = ctx_will (in_part m)"
    "ctx_clean_session (in_part m') = ctx_clean_session (in_part m)" "same_queue (in_part m) (in_part m')"
    using assms by (simp_all add: same_queue_def)
  then show "ctx_state m' = ctx_state m" "ctx_bridge m' = ctx_bridge m" "ctx_sock m' = ctx_sock m" "ctx_id m' = ctx_id m"
    "ctx_listener m' = ctx_listener m" "ctx_will m' = ctx_will m" "ctx_clean_session m' = ctx_clean_session m" "same_queue m m'"
    by (simp_all add: in_part_def same_queue_def)
qed

section \<open>The remaining length\<close>

text \<open>A header whose remaining length is being read.\<close>

definition in_header :: "mosquitto_packet \<Rightarrow> bool" where
  "in_header p \<longleftrightarrow> pkt_payload p = [] \<and> pkt_pos p = 0 \<and> pkt_to_process p = 0 \<and> -4 \<le> pkt_remaining_count p
     \<and> pkt_remaining_count p \<le> 0 \<and> unat (pkt_remaining_mult p) = 128 ^ nat (- pkt_remaining_count p)
     \<and> unat (pkt_remaining_length p) < 128 ^ nat (- pkt_remaining_count p)"

lemma in_rest_cases: "in_rest p \<longleftrightarrow> (if 0 < pkt_remaining_count p
    then in_span p \<and> unat (pkt_remaining_length p) \<le> MQTT_MAX_PAYLOAD else in_header p)"
  by (auto simp: in_rest_def in_header_def in_span_def)

lemma digit_bound: "unat (ucast (b AND 127 :: u8) :: u32) \<le> 127"
proof -
  have "unat (b AND 127 :: u8) \<le> unat (127 :: u8)" by (rule word_le_nat_alt [THEN iffD1]) (rule word_and_le1)
  then show ?thesis by (simp add: unsigned_ucast_eq order_trans [OF take_bit_nat_less_eq_self])
qed

lemma in_header_digit:
  assumes "in_header p" and "-4 \<le> pkt_remaining_count p - 1"
  shows "in_header (in_digit p b)"
proof -
  define k where "k = nat (- pkt_remaining_count p)"
  have k: "k \<le> 3" "nat (- (pkt_remaining_count p - 1)) = Suc k" using assms by (auto simp: k_def in_header_def)
  have p: "unat (pkt_remaining_mult p) = 128 ^ k" "unat (pkt_remaining_length p) < 128 ^ k"
    using assms(1) by (simp_all add: in_header_def k_def)
  have le: "(128 :: nat) ^ Suc k \<le> 128 ^ 4" using k(1) by (intro power_increasing) auto
  let ?d = "ucast (b AND 127 :: u8) :: u32"
  have d: "unat ?d * 128 ^ k \<le> 127 * 128 ^ k" using digit_bound [of b] by (intro mult_right_mono) auto
  have le': "(128 :: nat) ^ k \<le> 2097152" using le by simp
  have "unat ?d * unat (pkt_remaining_mult p) < 4294967296" unfolding p(1) using d le' by linarith
  then have m: "unat (?d * pkt_remaining_mult p) = unat ?d * 128 ^ k"
    using p(1) by (subst unat_mult_lem [THEN iffD1]) simp_all
  then have s: "unat (pkt_remaining_length p) + unat (?d * pkt_remaining_mult p) < 128 * 128 ^ k" using p(2) d by linarith
  then have "unat (pkt_remaining_length p) + unat (?d * pkt_remaining_mult p) < 4294967296" using le' by linarith
  then have l: "unat (pkt_remaining_length p + ?d * pkt_remaining_mult p) < 128 ^ Suc k" using s by (simp add: unat_add_u32)
  have "unat (pkt_remaining_mult p * 128) = 128 ^ Suc k"
    using le p(1) by (subst unat_mult_lem [THEN iffD1]) simp_all
  then show ?thesis using assms l k(2) by (simp add: in_header_def in_digit_def)
qed

lemma remaining_length_loop_header:
  assumes "remaining_length_loop m = (r, m')" and "in_header (ctx_in_packet m)"
  shows "in_part m' = in_part m \<and> pkt_command (ctx_in_packet m') = pkt_command (ctx_in_packet m)
    \<and> (r = Some 0 \<longrightarrow> in_header (ctx_in_packet m'))
    \<and> (r = None \<longrightarrow> in_header (ctx_in_packet m') \<and> pkt_remaining_count (ctx_in_packet m') < 0)"
  using assms
proof (induction m rule: remaining_length_loop.induct)
  case (1 m)
  obtain res m1 where R: "mosquitto_net_read m 1 = (res, m1)" by fastforce
  note rd = net_read_fields(1) [OF R] net_read_part [OF R]
  show ?case
  proof (cases res)
    case (RFail err)
    then show ?thesis using "1.prems" R rd by (subst (asm) remaining_length_loop.simps) (auto split: if_splits)
  next
    case (RLen bs)
    show ?thesis
    proof (cases bs)
      case Nil
      then show ?thesis using "1.prems" R rd RLen by (subst (asm) remaining_length_loop.simps) auto
    next
      case (Cons b rest)
      let ?m2 = "upd_in (\<lambda>p. p\<lparr>pkt_remaining_count := pkt_remaining_count p - 1\<rparr>) m1"
      let ?m3 = "count_received 1 (upd_in (\<lambda>p. p\<lparr>pkt_remaining_length := pkt_remaining_length p
          + ucast (b AND 127) * pkt_remaining_mult p, pkt_remaining_mult := pkt_remaining_mult p * 128\<rparr>) ?m2)"
      have p3: "ctx_in_packet ?m3 = in_digit (ctx_in_packet m) b" using rd(1) by (simp add: in_digit_def)
      have eq: "remaining_length_loop m = (if pkt_remaining_count (ctx_in_packet ?m2) < -4 then (Some MOSQ_ERR_PROTOCOL, ?m2)
          else if b AND 128 \<noteq> 0 then remaining_length_loop ?m3 else (None, ?m3))"
        using R RLen Cons by (subst remaining_length_loop.simps) (simp add: Let_def)
      show ?thesis
      proof (cases "pkt_remaining_count (ctx_in_packet ?m2) < -4")
        case True
        then show ?thesis using "1.prems"(1) rd unfolding eq by auto
      next
        case False
        have h: "in_header (ctx_in_packet ?m3)" unfolding p3
          by (rule in_header_digit [OF "1.prems"(2)]) (use False rd(1) in simp)
        have part: "in_part ?m3 = in_part m" using rd(2) by simp
        have c: "pkt_command (ctx_in_packet ?m3) = pkt_command (ctx_in_packet m)" unfolding p3 by (simp add: in_digit_def)
        show ?thesis
        proof (cases "b AND 128 \<noteq> 0")
          case True
          have "remaining_length_loop ?m3 = (r, m')" using "1.prems"(1) False True unfolding eq by simp
          from "1.IH" [OF R [symmetric] RLen Cons refl False refl True this h] part c show ?thesis by simp
        next
          case none: False
          have "pkt_remaining_count (ctx_in_packet ?m3) < 0" using "1.prems"(2) unfolding p3 by (simp add: in_header_def in_digit_def)
          then show ?thesis using "1.prems"(1) False none h part c unfolding eq by auto
        qed
      qed
    qed
  qed
qed

section \<open>The three stages\<close>

lemma read_remaining_length_rest:
  assumes "packet_read_remaining_length e m = (r, m')" and "in_rest (ctx_in_packet m)" and "malloc_ok (env_malloc e)"
  shows "in_part m' = in_part m \<and> pkt_command (ctx_in_packet m') = pkt_command (ctx_in_packet m)
    \<and> (r = Some 0 \<longrightarrow> in_rest (ctx_in_packet m'))
    \<and> (r = None \<longrightarrow> in_rest (ctx_in_packet m') \<and> 0 < pkt_remaining_count (ctx_in_packet m'))"
proof (cases "0 < pkt_remaining_count (ctx_in_packet m)")
  case True
  then show ?thesis using assms(1,2) by (simp add: packet_read_remaining_length_def)
next
  case False
  obtain r1 m1 where l: "remaining_length_loop m = (r1, m1)" by fastforce
  have h: "in_header (ctx_in_packet m)" using assms(2) False by (simp add: in_rest_cases)
  note loop = remaining_length_loop_header [OF l h]
  show ?thesis
  proof (cases r1)
    case (Some rc)
    then show ?thesis using assms(1) loop l False
      by (auto simp: packet_read_remaining_length_def in_rest_cases in_header_def)
  next
    case None
    let ?p = "ctx_in_packet m1"
    have p: "in_header ?p" "pkt_remaining_count ?p < 0" using loop None by simp_all
    have "nat (- pkt_remaining_count ?p) \<le> 4" using p(1) unfolding in_header_def by linarith
    then have "(128 :: nat) ^ nat (- pkt_remaining_count ?p) \<le> 128 ^ 4" by (intro power_increasing) auto
    then have len: "unat (pkt_remaining_length ?p) \<le> MQTT_MAX_PAYLOAD" using p(1) by (simp add: in_header_def)
    show ?thesis
    proof (cases "env_malloc e (unat (pkt_remaining_length ?p))")
      case none: None
      then show ?thesis using assms(1) l False None p loop len
        by (auto simp: packet_read_remaining_length_def Let_def in_rest_cases in_span_def in_header_def word_less_nat_alt split: if_splits)
    next
      case (Some buf)
      then have "length buf = unat (pkt_remaining_length ?p)" using assms(3) by (simp add: malloc_ok_def)
      then show ?thesis using assms(1) l False None p loop len Some
        by (auto simp: packet_read_remaining_length_def Let_def in_rest_cases in_span_def in_header_def word_less_nat_alt split: if_splits)
    qed
  qed
qed

lemma read_payload_part: "packet_read_payload e m = (r, m') \<Longrightarrow> in_part m' = in_part m"
proof (induction e m rule: packet_read_payload.induct)
  case (1 e m)
  obtain res m1 where R: "mosquitto_net_read m (unat (pkt_to_process (ctx_in_packet m))) = (res, m1)" by fastforce
  note rd = net_read_part [OF R]
  show ?case
  proof (cases "0 < pkt_to_process (ctx_in_packet m)")
    case True
    show ?thesis
    proof (cases res)
      case (RFail err)
      then show ?thesis using "1.prems" R rd True by (subst (asm) packet_read_payload.simps) (auto simp: Let_def split: if_splits)
    next
      case (RLen bs)
      then show ?thesis using "1.prems" "1.IH" [OF refl True R [symmetric] RLen] R rd True
        by (subst (asm) packet_read_payload.simps) (auto simp: Let_def split: if_splits)
    qed
  next
    case False
    then show ?thesis using "1.prems" by (subst (asm) packet_read_payload.simps) simp
  qed
qed

lemma read_payload_rest:
  assumes "packet_read_payload e m = (r, m')" and "in_rest (ctx_in_packet m)" and "0 < pkt_remaining_count (ctx_in_packet m)"
  shows "in_rest (ctx_in_packet m') \<and> pkt_command (ctx_in_packet m') = pkt_command (ctx_in_packet m)
    \<and> (r = None \<longrightarrow> in_wf (ctx_in_packet m'\<lparr>pkt_pos := 0\<rparr>))"
proof -
  have s: "in_span (ctx_in_packet m)" "unat (pkt_remaining_length (ctx_in_packet m)) \<le> MQTT_MAX_PAYLOAD"
    using assms(2,3) by (simp_all add: in_rest_cases)
  obtain bs where bs: "length bs \<le> unat (pkt_to_process (ctx_in_packet m))" "ctx_in_packet m' = foldl in_body (ctx_in_packet m) bs"
    using packet_read_payload_bytes [OF assms(1) s(1)] by blast
  note c = in_body_chunk_span [OF s(1) bs(1), folded bs(2)]
  then show ?thesis using s(2) assms(3) by (auto simp: in_rest_cases in_wf_def in_span_def)
qed

lemma in_rest_command: "in_rest (p\<lparr>pkt_command := b\<rparr>) = in_rest p"
  by (simp add: in_rest_def in_span_def)

lemma read_command_rest:
  assumes "packet_read_command m = (r, m')" and "ctx_bridge m = None" and "packet_ok m" and "0 \<le> ctx_sock m"
  shows "in_part m' = in_part m \<and> in_rest (ctx_in_packet m')
    \<and> (r = Some 0 \<longrightarrow> ctx_in_packet m' = ctx_in_packet m)
    \<and> (r = None \<longrightarrow> ctx_state m = mosq_cs_new \<longrightarrow> pkt_command (ctx_in_packet m') AND 0xF0 = CONNECT)"
proof -
  obtain res m1 where R: "mosquitto_net_read m 1 = (res, m1)" by fastforce
  note rd = net_read_fields(1) [OF R] net_read_part [OF R] and f = in_part_fields [OF net_read_part [OF R]]
  have rest: "in_rest (ctx_in_packet m)" "in_rest (ctx_in_packet m\<lparr>pkt_command := b\<rparr>)" for b
    using assms(3,4) by (simp_all add: packet_ok_def in_rest_command)
  show ?thesis
  proof (cases "pkt_command (ctx_in_packet m) = 0")
    case False
    then show ?thesis using assms rest by (auto simp: packet_read_command_def packet_ok_def)
  next
    case True
    show ?thesis
    proof (cases "\<exists>b bs. res = RLen (b # bs)")
      case False
      then show ?thesis using assms(1) True R rd rest
        by (cases res) (auto simp: packet_read_command_def split: list.splits if_splits)
    next
      case t: True
      then obtain b bs where b: "res = RLen (b # bs)" by blast
      let ?m = "count_received 1 (upd_in (pkt_command_update (\<lambda>_. b)) m1)"
      have g: "ctx_state ?m = ctx_state m" "ctx_bridge ?m = ctx_bridge m" using f(1,2) in_part_fields [of ?m m1] by simp_all
      show ?thesis using assms(1,2) True R rd rest g unfolding b
        by (auto simp: packet_read_command_def Let_def split: if_splits)
    qed
  qed
qed

lemma packet_read_fill_rest:
  assumes "packet_read_fill e m = (r, m')" and "ctx_bridge m = None" and "packet_ok m" and "0 \<le> ctx_sock m" and "malloc_ok (env_malloc e)"
  shows "in_part m' = in_part m \<and> (r = Some 0 \<longrightarrow> packet_ok m')
    \<and> (r = None \<longrightarrow> in_wf (ctx_in_packet m') \<and> (ctx_state m = mosq_cs_new \<longrightarrow> pkt_command (ctx_in_packet m') AND 0xF0 = CONNECT))"
proof (cases "ctx_sock m = INVALID_SOCKET \<or> ctx_state m = mosq_cs_connect_pending")
  case True
  then show ?thesis using assms by (auto simp: packet_read_fill_def)
next
  case False
  obtain r1 m1 where 1: "packet_read_command m = (r1, m1)" by fastforce
  note c = read_command_rest [OF 1 assms(2-4)]
  show ?thesis
  proof (cases r1)
    case (Some rc)
    then show ?thesis using assms(1,3) False 1 c in_part_fields [of m1 m] by (auto simp: packet_read_fill_def packet_ok_def)
  next
    case None
    obtain r2 m2 where 2: "packet_read_remaining_length e m1 = (r2, m2)" by fastforce
    have i1: "in_rest (ctx_in_packet m1)" using c by blast
    note h = read_remaining_length_rest [OF 2 i1 assms(5)]
    show ?thesis
    proof (cases r2)
      case (Some rc)
      then show ?thesis using assms(1) False 1 2 c h None in_part_fields [of m2 m] by (auto simp: packet_read_fill_def packet_ok_def)
    next
      case n2: None
      obtain r3 m3 where 3: "packet_read_payload e m2 = (r3, m3)" by fastforce
      have "in_rest (ctx_in_packet m2)" "0 < pkt_remaining_count (ctx_in_packet m2)" using h n2 by simp_all
      note b = read_payload_rest [OF 3 this] read_payload_part [OF 3]
      show ?thesis using assms(1) False 1 2 3 c h b None n2 in_part_fields [of m3 m]
        by (cases r3) (auto simp: packet_read_fill_def packet_ok_def upd_in_def)
    qed
  qed
qed

end
