(* ===== verification/Mosq_Serve.thy ===== *)
theory Mosq_Serve
  imports Mosq_Arrive
begin

text \<open>
  The packet handlers keep the invariant of the running broker and return.  \<open>att\<close> is what holds
  while a connection is attended to, \<open>served\<close> what a handler leaves behind, also when it
  ends early.
\<close>

section \<open>While a connection is attended to\<close>

text \<open>Every QoS 2 message that the connection has yet to release is one that was accepted.\<close>

definition named_topics :: "ctxid \<Rightarrow> mosquitto_db \<Rightarrow> bool" where
  "named_topics c db \<longleftrightarrow> (\<forall>msg \<in> set (ctx_msgs (db_contexts db c)). cmsg_direction msg = mosq_md_in
     \<longrightarrow> store_topic (db_stores db (cmsg_store msg)) \<noteq> None)"

definition served :: "ctxid \<Rightarrow> mosquitto_db \<Rightarrow> bool" where
  "served c db \<longleftrightarrow> live {c} db \<and> idle_ok db c"

text \<open>
  \<open>i\<close>: the connection has no identifier yet; \<open>t\<close>: \<open>named_topics\<close> is known; \<open>n\<close>: how many bytes of the packet
  are left at most.
\<close>

definition att :: "ctxid \<Rightarrow> bool \<Rightarrow> bool \<Rightarrow> nat \<Rightarrow> mosquitto_db \<Rightarrow> bool" where
  "att c i t n db \<longleftrightarrow> served c db \<and> in_wf (ctx_in_packet (db_contexts db c)) \<and> 0 \<le> ctx_sock (db_contexts db c)
     \<and> (ctx_id (db_contexts db c) = None \<longleftrightarrow> i) \<and> (t \<longrightarrow> named_topics c db)
     \<and> length (pkt_rest (ctx_in_packet (db_contexts db c))) \<le> n"

lemma attD:
  assumes "att c i t n db"
  shows "served c db" "live {c} db" "broker_ok db" "in_wf (ctx_in_packet (db_contexts db c))" "0 \<le> ctx_sock (db_contexts db c)"
    "ctx_id (db_contexts db c) = None \<longleftrightarrow> i" "idle_ok db c"
  using assms liveD(1) by (auto simp: att_def served_def)

lemma att_weaken: "att c i t n db \<Longrightarrow> n \<le> n' \<Longrightarrow> (t' \<longrightarrow> t) \<Longrightarrow> att c i t' n' db"
  by (auto simp: att_def)

lemma att_bridge: "att c i t n db \<Longrightarrow> ctx_bridge (db_contexts db c) = None"
  using attD(2) liveD(3) conn_okD(1) by blast

lemma att_frame:
  assumes "att c i t n db" and "broker_ok db'" and "frame db db'"
  shows "att c i False n db'"
  using assms(1) live_frame [OF _ assms(2,3)] frame_idle_ok [OF assms(3)] frame_core(1,2,5) [OF assms(3), of c]
  by (simp add: att_def served_def)

lemma att_upd:
  assumes "att c i t n db" and "same_queue (db_contexts db c) (f (db_contexts db c))"
    and "core (f (db_contexts db c)) = core (db_contexts db c\<lparr>ctx_in_packet := ctx_in_packet (f (db_contexts db c))\<rparr>)"
    and "in_wf (ctx_in_packet (f (db_contexts db c)))"
    and "length (pkt_rest (ctx_in_packet (f (db_contexts db c)))) \<le> n'"
  shows "att c i t n' (upd_ctx c f db)"
proof -
  let ?m = "db_contexts db c" and ?m' = "f (db_contexts db c)"
  have fields: "ctx_id ?m' = ctx_id ?m" "ctx_sock ?m' = ctx_sock ?m" "ctx_listener ?m' = ctx_listener ?m" "ctx_state ?m' = ctx_state ?m"
    using assms(3) by (simp_all add: core_def)
  have "conn_ok ?m' = conn_ok (?m\<lparr>ctx_in_packet := ctx_in_packet ?m'\<rparr>)" by (rule conn_ok_core [OF assms(3)])
  then have c: "conn_ok ?m'" using liveD(3) [OF attD(2) [OF assms(1)]] by simp
  have l: "live {c} (upd_ctx c f db)"
    by (rule live_upd [OF attD(2) [OF assms(1)]])
      (use assms(2) c fields tables_okD(8) [OF liveD(2) [OF attD(2) [OF assms(1)]]] in auto)
  have "idle_ok (upd_ctx c f db) c"
    using attD(7) [OF assms(1)] fields same_queue_idle [OF assms(2)] by (simp add: idle_ok_def)
  moreover have "t \<longrightarrow> named_topics c (upd_ctx c f db)"
    using assms(1,2) by (auto simp: att_def named_topics_def same_queue_def)
  ultimately show ?thesis using l assms(1,4,5) fields by (simp add: att_def served_def)
qed

section \<open>Steps of the handlers\<close>

named_theorems serve

lemma att_served [simp]: "att c i t n db \<Longrightarrow> served c db"
  by (rule attD)

text \<open>A reader that takes at least \<open>k\<close> bytes and whose results satisfy \<open>Q\<close>.\<close>

definition reads :: "(mosquitto_packet \<Rightarrow> 'a cres \<times> mosquitto_packet) \<Rightarrow> nat \<Rightarrow> ('a \<Rightarrow> bool) \<Rightarrow> bool" where
  "reads rd k Q \<longleftrightarrow> (\<forall>p. in_wf p \<longrightarrow>
     (case rd p of
        (Ok x, p') \<Rightarrow> in_wf p' \<and> Q x \<and> length (pkt_rest p') + k \<le> length (pkt_rest p)
      | (Err rc, p') \<Rightarrow> in_wf p' \<and> length (pkt_rest p') \<le> length (pkt_rest p)
      | (Abort, _) \<Rightarrow> False))"

lemma hvalid_read_rc:
  assumes "reads rd k Q"
  shows "hvalid (att c i t n) (hread_rc c rd)
    (\<lambda>r db. case r of Inl _ \<Rightarrow> att c i t n db | Inr x \<Rightarrow> Q x \<and> k \<le> n \<and> att c i t (n - k) db) E"
  unfolding hvalid_def
proof (intro allI impI)
  fix db assume a: "att c i t n db"
  let ?p = "ctx_in_packet (db_contexts db c)"
  obtain r p where r: "rd ?p = (r, p)" by fastforce
  have rest: "length (pkt_rest ?p) \<le> n" using a by (simp add: att_def)
  have upd: "att c i t n' (upd_ctx c (\<lambda>m. m\<lparr>ctx_in_packet := p\<rparr>) db)" if "in_wf p" "length (pkt_rest p) \<le> n'" for n'
    by (rule att_upd [OF a]) (use that in \<open>simp_all add: same_queue_def core_def\<close>)
  have "case r of Ok x \<Rightarrow> in_wf p \<and> Q x \<and> length (pkt_rest p) + k \<le> length (pkt_rest ?p)
      | Err rc \<Rightarrow> in_wf p \<and> length (pkt_rest p) \<le> length (pkt_rest ?p) | Abort \<Rightarrow> False"
    using assms [unfolded reads_def, rule_format, OF attD(4) [OF a]] r by (auto split: cres.splits)
  then show "case hread_rc c rd db of None \<Rightarrow> False | Some (Inl rc, db') \<Rightarrow> E db'
      | Some (Inr x, db') \<Rightarrow> (case x of Inl _ \<Rightarrow> att c i t n db' | Inr y \<Rightarrow> Q y \<and> k \<le> n \<and> att c i t (n - k) db')"
    using rest upd [of n] upd [of "n - k"] r by (cases r) (auto simp: hread_rc_def)
qed

lemma hvalid_read:
  assumes "reads rd k Q"
  shows "hvalid (att c i t n) (hread_or f c rd) (\<lambda>x db. Q x \<and> k \<le> n \<and> att c i t (n - k) db) (served c)"
  unfolding hread_or_def
  by (rule hvalid_bind [OF hvalid_read_rc [OF assms]]) (auto simp: hvalid_def hraise_def hreturn_def split: sum.split)

section \<open>The readers\<close>

lemma reads_byte: "reads mosquitto_read_byte 1 (\<lambda>_. True)"
  unfolding reads_def
proof (intro allI impI)
  fix p assume w: "in_wf p"
  show "case mosquitto_read_byte p of (Ok x, p') \<Rightarrow> in_wf p' \<and> True \<and> length (pkt_rest p') + 1 \<le> length (pkt_rest p)
      | (Err rc, p') \<Rightarrow> in_wf p' \<and> length (pkt_rest p') \<le> length (pkt_rest p) | (Abort, _) \<Rightarrow> False"
    using mosquitto_read_byte_spec [OF w] w by (cases "pkt_rest p") auto
qed

lemma rest_two: "length xs < 2 \<or> (\<exists>a b r. xs = a # b # r)"
  by (cases xs rule: remdups_adj.cases) auto

lemma reads_uint16: "reads mosquitto_read_uint16 2 (\<lambda>_. True)"
  unfolding reads_def
proof (intro allI impI)
  fix p assume w: "in_wf p"
  show "case mosquitto_read_uint16 p of (Ok x, p') \<Rightarrow> in_wf p' \<and> True \<and> length (pkt_rest p') + 2 \<le> length (pkt_rest p)
      | (Err rc, p') \<Rightarrow> in_wf p' \<and> length (pkt_rest p') \<le> length (pkt_rest p) | (Abort, _) \<Rightarrow> False"
    using rest_two [of "pkt_rest p"]
  proof (elim disjE exE)
    assume "length (pkt_rest p) < 2"
    then show ?thesis using mosquitto_read_uint16_spec(1) [OF w] w by simp
  next
    fix a b r assume "pkt_rest p = a # b # r"
    then show ?thesis using mosquitto_read_uint16_spec(2) [OF w] by fastforce
  qed
qed

lemma reads_bytes:
  assumes "unat n \<le> MQTT_MAX_PAYLOAD"
  shows "reads (\<lambda>p. mosquitto_read_bytes p n) 0 (\<lambda>_. True)"
  unfolding reads_def
proof (intro allI impI)
  fix p assume w: "in_wf p"
  have "length (pkt_rest p) < unat n \<or> pkt_rest p = take (unat n) (pkt_rest p) @ drop (unat n) (pkt_rest p) \<and> length (take (unat n) (pkt_rest p)) = unat n"
    by auto
  then show "case mosquitto_read_bytes p n of (Ok x, p') \<Rightarrow> in_wf p' \<and> True \<and> length (pkt_rest p') + 0 \<le> length (pkt_rest p)
      | (Err rc, p') \<Rightarrow> in_wf p' \<and> length (pkt_rest p') \<le> length (pkt_rest p) | (Abort, _) \<Rightarrow> False"
  proof (elim disjE conjE)
    assume "length (pkt_rest p) < unat n"
    then show ?thesis using mosquitto_read_bytes_spec(1) [OF w assms] w by simp
  next
    assume "pkt_rest p = take (unat n) (pkt_rest p) @ drop (unat n) (pkt_rest p)" "length (take (unat n) (pkt_rest p)) = unat n"
    from mosquitto_read_bytes_spec(2) [OF w assms this] show ?thesis by auto
  qed
qed

lemma reads_string: "reads (read_c_string malloc) 2 nul_free"
  unfolding reads_def
proof (intro allI impI)
  fix p assume w: "in_wf p"
  obtain r q where r: "mosquitto_read_uint16 p = (r, q)" by fastforce
  have s: "case r of Ok x \<Rightarrow> in_wf q \<and> length (pkt_rest q) + 2 \<le> length (pkt_rest p)
      | Err rc \<Rightarrow> in_wf q \<and> length (pkt_rest q) \<le> length (pkt_rest p) | Abort \<Rightarrow> False"
    using reads_uint16 [unfolded reads_def, rule_format, OF w] r by (auto split: cres.splits)
  show "case read_c_string malloc p of (Ok x, p') \<Rightarrow> in_wf p' \<and> nul_free x \<and> length (pkt_rest p') + 2 \<le> length (pkt_rest p)
      | (Err rc, p') \<Rightarrow> in_wf p' \<and> length (pkt_rest p') \<le> length (pkt_rest p) | (Abort, _) \<Rightarrow> False"
  proof (cases r)
    case (Ok len)
    then have q: "in_wf q" "length (pkt_rest q) + 2 \<le> length (pkt_rest p)" using s by simp_all
    have add: "unat (pkt_pos q + ucast len) = unat (pkt_pos q) + unat len"
      using in_wf_pos_add [OF q(1), of "ucast len"] u16_lt [of len] by simp
    show ?thesis
    proof (cases "pkt_pos q + ucast len > pkt_remaining_length q \<or> malloc (unat len + 1) = None")
      case True
      then show ?thesis using r Ok q by (auto simp: read_c_string_def mosquitto_read_string_def)
    next
      case False
      then have le: "unat (pkt_pos q) + unat len \<le> unat (pkt_remaining_length q)" using add by (simp add: word_less_nat_alt)
      have "in_wf (q\<lparr>pkt_pos := pkt_pos q + ucast len\<rparr>)" using q(1) le add by (simp add: in_wf_def)
      moreover have "length (pkt_rest (q\<lparr>pkt_pos := pkt_pos q + ucast len\<rparr>)) \<le> length (pkt_rest q)" by (simp add: pkt_rest_def add)
      ultimately show ?thesis using r Ok q le False
        by (auto simp: read_c_string_def mosquitto_read_string_def in_wf_def)
    qed
  qed (use r s in \<open>auto simp: read_c_string_def mosquitto_read_string_def\<close>)
qed

section \<open>Rules for the steps of a handler\<close>

lemma hbind_return: "hbind (hreturn x) k = k x"
  by (simp add: fun_eq_iff hbind_def hreturn_def)

lemma hbind_raise: "hbind (hraise rc) k = hraise rc"
  by (simp add: fun_eq_iff hbind_def hraise_def)

lemma hbind_assoc: "hbind (hbind h k) l = hbind h (\<lambda>x. hbind (k x) l)"
  by (auto simp: fun_eq_iff hbind_def split: option.split sum.split)

lemma hbind_if: "hbind (if b then h else h') k = (if b then hbind h k else hbind h' k)"
  by simp

lemmas hnorm = hbind_return hbind_raise hbind_assoc hbind_if hignore_def

lemma hvalid_last: "hvalid P (hbind h hreturn) Q E \<Longrightarrow> hvalid P h Q E"
proof -
  have "hbind h hreturn = h" by (auto simp: fun_eq_iff hbind_def hreturn_def split: option.split sum.split)
  then show "hvalid P (hbind h hreturn) Q E \<Longrightarrow> hvalid P h Q E" by simp
qed

lemma serve_return [serve]: "hvalid (att c i t n) (hreturn x) (\<lambda>_. served c) (served c)"
  by (simp add: hvalid_return)

lemma serve_raise [serve]: "hvalid (att c i t n) (hraise rc) Q (served c)"
  by (simp add: hvalid_raise)

lemma serve_if [serve]: "(b \<Longrightarrow> hvalid P h Q E) \<Longrightarrow> (\<not> b \<Longrightarrow> hvalid P h' Q E) \<Longrightarrow> hvalid P (if b then h else h') Q E"
  by simp

lemma serve_read:
  assumes "reads rd k Q" and "\<And>x. Q x \<Longrightarrow> k \<le> n \<Longrightarrow> hvalid (att c i t (n - k)) (K x) R (served c)"
  shows "hvalid (att c i t n) (hbind (hread_or f c rd) K) R (served c)"
  by (rule hvalid_bind [OF hvalid_read [OF assms(1)]]) (intro hvalid_pure assms(2))

lemmas serve_readers [serve] = serve_read [OF reads_byte] serve_read [OF reads_uint16] serve_read [OF reads_string]

lemma serve_ctx:
  assumes "\<And>m. ctx_bridge m = None \<Longrightarrow> hvalid (\<lambda>db. m = db_contexts db c \<and> att c i t n db) (K (f m)) R E"
  shows "hvalid (att c i t n) (hbind (hctx c f) K) R E"
  using assms att_bridge unfolding hvalid_def hbind_def hctx_def hget_def by fastforce

lemma serve_ctx_any [serve]:
  assumes "\<And>m. ctx_bridge m = None \<Longrightarrow> hvalid (att c i t n) (K (f m)) R E"
  shows "hvalid (att c i t n) (hbind (hctx c f) K) R E"
  by (rule serve_ctx) (rule hvalid_conseq [OF assms], auto)

lemma serve_get [serve]:
  assumes "\<And>x. hvalid (att c i t n) (K x) R E"
  shows "hvalid (att c i t n) (hbind (hget f) K) R E"
  using assms unfolding hvalid_def hbind_def hget_def by simp

lemma serve_when [serve]:
  assumes "\<not> b \<Longrightarrow> hvalid (att c i t n) (K ()) R (served c)"
  shows "hvalid (att c i t n) (hbind (hwhen b (hraise rc)) K) R (served c)"
  using assms by (simp add: hwhen_def hbind_return hbind_raise serve_raise)

lemma serve_alloc [serve]:
  assumes "hvalid (att c i t n) (K ()) R (served c)"
  shows "hvalid (att c i t n) (hbind (halloc e k rc) K) R (served c)"
  using assms by (simp add: halloc_def hbind_return hbind_raise serve_raise)

lemma serve_set [serve]:
  assumes "\<And>m. same_queue m (f m)" and "\<And>m. core (f m) = core m" and "hvalid (att c i t n) (K ()) R E"
  shows "hvalid (att c i t n) (hbind (hset c f) K) R E"
proof (rule hvalid_bind)
  show "hvalid (att c i t n) (hset c f) (\<lambda>_. att c i t n) E"
  proof (rule hvalid_set)
    fix db assume a: "att c i t n db"
    have p: "ctx_in_packet (f m) = ctx_in_packet m" for m using assms(2) [of m] by (simp add: core_def)
    show "att c i t n (upd_ctx c f db)"
      by (rule att_upd [OF a]) (use assms(1,2) a in \<open>simp_all add: p att_def\<close>)
  qed
qed (use assms(3) in simp)

lemma serve_send [serve]:
  assumes "\<And>m. conn_frame (snd (f m)) = conn_frame m" and "\<And>x. hvalid (att c i t n) (K x) R E"
  shows "hvalid (att c i t n) (hbind (hsend c f) K) R E"
proof (rule hvalid_bind)
  show "hvalid (att c i t n) (hsend c f) (\<lambda>_. att c i t n) E"
  proof (rule hvalid_send)
    fix db assume a: "att c i t n db"
    let ?m = "db_contexts db c"
    note s = conn_frame_sel [of "snd (f ?m)", unfolded assms(1)] conn_frame_sel [of ?m]
    have "same_queue ?m (snd (f ?m))" "core (snd (f ?m)) = core ?m" using s by (simp_all add: same_queue_def core_def)
    then show "att c i t n (upd_ctx c (\<lambda>_. snd (f ?m)) db)"
      by (intro att_upd [OF a]) (use a s in \<open>simp_all add: att_def core_def\<close>)
  qed
qed (rule assms(2))

lemma serve_call:
  assumes "\<And>db. att c i t n db \<Longrightarrow> broker_ok (snd (f db)) \<and> frame db (snd (f db))"
    and "\<And>x. hvalid (att c i False n) (K x) R E"
  shows "hvalid (att c i t n) (hbind (hcall f) K) R E"
proof (rule hvalid_bind)
  show "hvalid (att c i t n) (hcall f) (\<lambda>_. att c i False n) E"
    by (rule hvalid_call) (use assms(1) att_frame in blast)
qed (rule assms(2))

lemma serve_acl [serve]:
  assumes "\<And>x. hvalid (att c i t n) (K x) R E"
  shows "hvalid (att c i t n) (hbind (hacl e c topic access) K) R E"
proof (rule hvalid_bind)
  show "hvalid (att c i t n) (hacl e c topic access) (\<lambda>_. att c i t n) E"
    unfolding hvalid_def
  proof (intro allI impI)
    fix db assume a: "att c i t n db"
    obtain rc where "mosquitto_acl_check e db (db_contexts db c) topic access = Some rc"
      using acl_check_total [OF broker_ok_patterns [OF attD(3) [OF a]]] by blast
    then show "case hacl e c topic access db of None \<Rightarrow> False | Some (Inl rc, db') \<Rightarrow> E db' | Some (Inr x, db') \<Rightarrow> att c i t n db'"
      using a by (simp add: hacl_def)
  qed
qed (rule assms)

section \<open>Acknowledgements\<close>

lemma pingreq_serves: "hvalid (att c i t n) (mosquitto_handle_pingreq e c) (\<lambda>_. served c) (served c)"
  unfolding mosquitto_handle_pingreq_def by (rule hvalid_last) (intro serve send_conn_frame)

lemma pingresp_serves: "hvalid (att c i t n) (mosquitto_handle_pingresp e c) (\<lambda>_. served c) (served c)"
  unfolding mosquitto_handle_pingresp_def by (intro serve) (simp_all add: same_queue_def core_def)

lemma frame_message_delete: "frame db (snd (mqtt3_db_message_delete e db c mid dir))"
  by (simp add: mqtt3_db_message_delete_def Let_def frame_delete)

lemma pubackcomp_serves: "hvalid (att c i t n) (mosquitto_handle_pubackcomp e c) (\<lambda>_. served c) (served c)"
  unfolding mosquitto_handle_pubackcomp_def
  by (intro serve serve_call conjI broker_ok_delete attD(3) frame_message_delete)

lemma serve_update:
  assumes "\<And>x. hvalid (att c i False n) (K x) R E" and "state \<noteq> mosq_ms_invalid"
  shows "hvalid (att c i t n) (hbind (hsend c (\<lambda>m. mqtt3_db_message_update e m mid dir state)) K) R E"
  unfolding hsend_def
proof (rule serve_call [OF _ assms(1)])
  fix db assume a: "att c i t n db"
  have eq: "upd_ctx c (\<lambda>_. snd (mqtt3_db_message_update e (db_contexts db c) mid dir state)) db
      = upd_ctx c (\<lambda>m. snd (mqtt3_db_message_update e m mid dir state)) db" by (simp add: upd_ctx_def)
  show "broker_ok (snd (case mqtt3_db_message_update e (db_contexts db c) mid dir state of (x, m) \<Rightarrow> (x, upd_ctx c (\<lambda>_. m) db)))
      \<and> frame db (snd (case mqtt3_db_message_update e (db_contexts db c) mid dir state of (x, m) \<Rightarrow> (x, upd_ctx c (\<lambda>_. m) db)))"
    unfolding split_beta snd_conv eq by (intro conjI broker_ok_update [OF attD(3) [OF a] assms(2)] frame_update)
qed

lemma pubrec_serves: "hvalid (att c i t n) (mosquitto_handle_pubrec e c) (\<lambda>_. served c) (served c)"
  unfolding mosquitto_handle_pubrec_def
  by (intro serve serve_update) (simp_all, rule hvalid_last, intro serve send_conn_frame)

lemma serve_release [serve]:
  assumes "\<And>x. hvalid (att c i False n) (K x) R E"
  shows "hvalid (att c i t n) (hbind (hrelease e c mid) K) R E"
proof (rule hvalid_bind)
  show "hvalid (att c i t n) (hrelease e c mid) (\<lambda>_. att c i False n) E"
    unfolding hvalid_def
  proof (intro allI impI)
    fix db assume a: "att c i t n db"
    obtain rc db' where "mqtt3_db_message_release e db c mid mosq_md_in = Some (rc, db')" "broker_ok db'" "frame db db'"
      using release_returns [OF attD(3) [OF a]] by blast
    then show "case hrelease e c mid db of None \<Rightarrow> False | Some (Inl rc, db') \<Rightarrow> E db' | Some (Inr x, db') \<Rightarrow> att c i False n db'"
      using att_frame [OF a] by (simp add: hrelease_def)
  qed
qed (rule assms)

lemma pubrel_serves: "hvalid (att c i t n) (mosquitto_handle_pubrel e c) (\<lambda>_. served c) (served c)"
  unfolding mosquitto_handle_pubrel_def
  by (intro serve) (rule hvalid_last, intro serve send_conn_frame)

lemma unsuback_serves: "hvalid (att c i t n) (mosquitto_handle_unsuback e c) (\<lambda>_. served c) (served c)"
  unfolding mosquitto_handle_unsuback_def by (intro serve)

section \<open>Loops over a packet\<close>

lemma att_more:
  assumes "att c i t n db" and "pkt_pos (ctx_in_packet (db_contexts db c)) < pkt_remaining_length (ctx_in_packet (db_contexts db c))"
  shows "0 < n"
  using assms in_wf_rest_length [OF attD(4) [OF assms(1)]] unfolding att_def word_less_nat_alt by linarith

lemma loop_serves:
  assumes eq: "\<And>x db. loop x db = (let packet = ctx_in_packet (db_contexts db c)
      in if pkt_pos packet < pkt_remaining_length packet
         then case item x db of None \<Rightarrow> None
            | Some (r, db) \<Rightarrow> (case r of Inl rc \<Rightarrow> Some (Inl rc, db) | Inr y \<Rightarrow> loop (next y) db)
         else Some (Inr (out x), db))"
    and item: "\<And>x n. hvalid (att c i False (Suc n)) (item x) (\<lambda>_. att c i False n) (served c)"
  shows "hvalid (att c i False n) (loop x) (\<lambda>_. att c i False n) (served c)"
proof (induction n arbitrary: x)
  case 0
  then show ?case using att_more [of c i False 0] by (auto simp: hvalid_def eq Let_def)
next
  case (Suc n)
  have turn: "hvalid (att c i False (Suc n)) (hbind (item x) (\<lambda>y. loop (next y))) (\<lambda>_. att c i False (Suc n)) (served c)"
    by (rule hvalid_bind [OF item]) (rule hvalid_conseq [OF Suc], auto elim: att_weaken)
  have "loop x db = (if pkt_pos (ctx_in_packet (db_contexts db c)) < pkt_remaining_length (ctx_in_packet (db_contexts db c))
      then hbind (item x) (\<lambda>y. loop (next y)) db else Some (Inr (out x), db))" for db
    by (subst eq) (auto simp: Let_def hbind_def split: option.split sum.split)
  then show ?case using turn by (simp add: hvalid_def)
qed

lemma suback_loop_serves: "hvalid (att c i False n) (suback_loop c) (\<lambda>_. att c i False n) (served c)"
proof (rule loop_serves [where loop = "\<lambda>_ :: unit. suback_loop c" and out = "\<lambda>_. ()" and ?next = "\<lambda>_. ()"])
  show "suback_loop c db = (let packet = ctx_in_packet (db_contexts db c)
      in if pkt_pos packet < pkt_remaining_length packet
         then case hread_or id c mosquitto_read_byte db of None \<Rightarrow> None
            | Some (r, db) \<Rightarrow> (case r of Inl rc \<Rightarrow> Some (Inl rc, db) | Inr y \<Rightarrow> suback_loop c db)
         else Some (Inr (), db))" for db by (rule suback_loop.simps)
  show "hvalid (att c i False (Suc n)) (hread_or id c mosquitto_read_byte) (\<lambda>_. att c i False n) (served c)" for n
    by (rule hvalid_conseq [OF hvalid_read [OF reads_byte]]) auto
qed

lemma suback_serves: "hvalid (att c i False n) (mosquitto_handle_suback e c) (\<lambda>_. served c) (served c)"
  unfolding mosquitto_handle_suback_def
  by (intro serve hvalid_bind [OF suback_loop_serves])

section \<open>Mount points\<close>

text \<open>
  A mount point must consist of whole levels without wildcards: a filter is checked before the
  mount point is put in front of it.
\<close>

definition mount_ok :: "string \<Rightarrow> bool" where
  "mount_ok mount \<longleftrightarrow> nul_free mount \<and> plain_level mount \<and> (mount = [] \<or> last mount = CHR ''/'')"

definition mounts_ok :: "mosq_env \<Rightarrow> bool" where
  "mounts_ok e \<longleftrightarrow> list_all (\<lambda>l. pred_option mount_ok (lst_mount_point l)) (cfg_listeners (env_config e))"

definition mounted :: "string \<Rightarrow> string \<Rightarrow> bool" where
  "mounted topic topic' \<longleftrightarrow> topic' = topic \<or> (\<exists>mount. mount_ok mount \<and> topic' = mount @ topic)"

lemma levels_slash: "levels (a @ CHR ''/'' # b) = levels a @ levels b"
  by (induction a) (auto simp: hd_append tl_append split: list.split)

lemma valid_filter_append: "\<forall>l \<in> set xs. plain_level l \<Longrightarrow> valid_filter ys \<Longrightarrow> valid_filter (xs @ ys)"
  by (induction xs) auto

lemma plain_level_append [simp]: "plain_level (a @ b) \<longleftrightarrow> plain_level a \<and> plain_level b"
  by (auto simp: plain_level_def)

lemma mounted_topic: "mounted topic topic' \<Longrightarrow> topic_ok topic \<Longrightarrow> topic_ok topic'"
  by (auto simp: mounted_def mount_ok_def topic_ok_def plain_level_levels nul_free_def)

lemma mounted_filter:
  assumes "mounted f f'" and "nul_free f" and "valid_filter (levels f)"
  shows "nul_free f' \<and> valid_filter (levels f')"
proof (cases "f' = f")
  case False
  then obtain mount where m: "mount_ok mount" "f' = mount @ f" "mount \<noteq> []" using assms(1) by (auto simp: mounted_def)
  then have "mount = butlast mount @ [CHR ''/'']" by (metis append_butlast_last_id mount_ok_def)
  then have f: "f' = butlast mount @ CHR ''/'' # f" using m(2) by (metis append.assoc append_Cons append_Nil)
  have "plain_level (butlast mount)" using m(1) by (auto simp: mount_ok_def plain_level_def dest: in_set_butlastD)
  then have "valid_filter (levels f')" unfolding f levels_slash using assms(3) by (intro valid_filter_append) (simp add: plain_level_levels)
  then show ?thesis using m assms(2) by (simp add: mount_ok_def nul_free_def)
qed (use assms in simp)

lemma mount_point_ok: "mounts_ok e \<Longrightarrow> mount_point e m = Some mount \<Longrightarrow> mount_ok mount"
  by (auto simp: mounts_ok_def mount_point_def list_all_length bind_eq_Some_conv split: if_splits)

lemma serve_mount:
  assumes "mounts_ok e" and "\<And>topic'. mounted topic topic' \<Longrightarrow> hvalid (att c i t n) (K topic') R (served c)"
  shows "hvalid (att c i t n) (hbind (hmount e c topic) K) R (served c)"
proof -
  have "hvalid (att c i t n) (hbind (case mount_point e m of None \<Rightarrow> hreturn topic
      | Some mount \<Rightarrow> hbind (halloc e (length mount + length topic + 2) MOSQ_ERR_NOMEM) (\<lambda>_. hreturn (mount @ topic))) K) R (served c)" for m
    using assms(2) [of topic] assms(2) [of "mount @ topic" for mount] mount_point_ok [OF assms(1), of m]
    by (auto simp: hnorm mounted_def split: option.split intro!: serve_alloc)
  then show ?thesis unfolding hmount_def hbind_assoc by (intro serve_ctx_any)
qed

section \<open>Subscriptions\<close>

lemma serve_done: "n' \<le> n \<Longrightarrow> hvalid (att c i False n') (hreturn x) (\<lambda>_. att c i False n) E"
  by (rule hvalid_return) (auto elim: att_weaken)

lemma filter_checked: "mosquitto_sub_topic_check f = MOSQ_ERR_SUCCESS \<Longrightarrow> nul_free f \<Longrightarrow> valid_filter (levels f)"
  by (auto simp: mosquitto_sub_topic_check_def sub_topic_check_loop_eq sub_ok_levels split: if_splits)

lemma sub_add_step:
  assumes "att c i t n db" and "nul_free f" and "valid_filter (levels f)" and "qos \<in> {0, 1, 2}"
  shows "broker_ok (snd (mqtt3_sub_add db c f qos)) \<and> frame db (snd (mqtt3_sub_add db c f qos))"
proof
  note b = attD(3) [OF assms(1)]
  show "broker_ok (snd (mqtt3_sub_add db c f qos))" by (rule broker_ok_sub_add [OF b assms(4,2,3)])
  show "frame db (snd (mqtt3_sub_add db c f qos))"
    by (rule frame_sub_add [OF assms(2)]) (use b in \<open>simp add: broker_ok_def filter_tree_def\<close>)
qed

lemma qos_small: "\<not> (2 :: u8) < qos \<Longrightarrow> uint qos \<in> {0, 1, 2}"
proof -
  assume "\<not> (2 :: u8) < qos"
  then have "uint qos \<le> 2" by (simp add: word_less_def not_less)
  then show "uint qos \<in> {0, 1, 2}" using uint_ge_0 [of qos] unfolding insert_iff empty_iff by presburger
qed

lemma subscribe_item_serves:
  assumes "mounts_ok e"
  shows "hvalid (att c i False (Suc n)) (subscribe_item e c payload rc) (\<lambda>_. att c i False n) (served c)"
  unfolding subscribe_item_def read_filter_def hnorm
proof (intro serve serve_mount [OF assms] serve_call serve_done)
  fix f qos f' db
  assume f: "nul_free f" "\<not> (f = [] \<or> mosquitto_sub_topic_check f \<noteq> MOSQ_ERR_SUCCESS)" "mounted f f'"
    and q: "\<not> (2 :: u8) < qos" and a: "att c i False (Suc n - 2 - 1) db"
  have "nul_free f' \<and> valid_filter (levels f')" by (rule mounted_filter [OF f(3,1) filter_checked]) (use f in auto)
  then show "broker_ok (snd (mqtt3_sub_add db c f' (uint qos))) \<and> frame db (snd (mqtt3_sub_add db c f' (uint qos)))"
    using sub_add_step [OF a] qos_small [OF q] by blast
  show "broker_ok (snd (mqtt3_retain_queue e db c f' (uint qos))) \<and> frame db (snd (mqtt3_retain_queue e db c f' (uint qos)))"
    using broker_ok_retain_queue [OF attD(3) [OF a] qos_small [OF q]] framed.retain_queue by blast
qed auto

lemma subscribe_loop_serves:
  assumes "mounts_ok e"
  shows "hvalid (att c i False n) (subscribe_loop e c payload rc) (\<lambda>_. att c i False n) (served c)"
  using loop_serves [where loop = "\<lambda>x. subscribe_loop e c (fst x) (snd x)" and item = "\<lambda>x. subscribe_item e c (fst x) (snd x)"
      and ?next = "\<lambda>y. y" and out = "\<lambda>x. (fst x, snd x)" and c = c and i = i and n = n and x = "(payload, rc)",
      OF subscribe_loop.simps [where e = e and c = c] subscribe_item_serves [OF assms]] by simp

lemma serve_upd_count [serve]:
  assumes "hvalid (att c i t n) (K ()) R E"
  shows "hvalid (att c i t n) (hbind (hupd count_change) K) R E"
proof (rule hvalid_bind)
  show "hvalid (att c i t n) (hupd count_change) (\<lambda>_. att c i t n) E"
  proof (rule hvalid_upd)
    fix db assume a: "att c i t n db"
    have f: "frame db (count_change db)" by (simp add: frame_same count_change_def db_tables_def)
    have "att c i False n (count_change db)" by (rule att_frame [OF a _ f]) (use attD(3) [OF a] in \<open>simp add: count_change_def\<close>)
    then show "att c i t n (count_change db)" using a by (simp add: att_def named_topics_def count_change_def)
  qed
qed (use assms in simp)

lemma subscribe_serves:
  assumes "mounts_ok e"
  shows "hvalid (att c i False n) (mqtt3_handle_subscribe e c) (\<lambda>_. served c) (served c)"
  unfolding mqtt3_handle_subscribe_def hreserved_def hnorm
  by (intro serve hvalid_bind [OF subscribe_loop_serves [OF assms]]) (auto intro!: serve send_conn_frame)

lemma unsubscribe_item_serves: "hvalid (att c i False (Suc n)) (unsubscribe_item e c) (\<lambda>_. att c i False n) (served c)"
  unfolding unsubscribe_item_def read_filter_def hnorm
  by (intro serve serve_call serve_done conjI broker_ok_sub_remove attD(3) frame_sub_remove) auto

lemma unsubscribe_loop_serves: "hvalid (att c i False n) (unsubscribe_loop e c) (\<lambda>_. att c i False n) (served c)"
  using loop_serves [where loop = "\<lambda>_ :: unit. unsubscribe_loop e c" and item = "\<lambda>_. unsubscribe_item e c"
      and ?next = "\<lambda>_. ()" and out = "\<lambda>_. ()" and c = c and i = i and n = n,
      OF unsubscribe_loop.simps [where e = e and c = c] unsubscribe_item_serves] by simp

lemma unsubscribe_serves: "hvalid (att c i False n) (mqtt3_handle_unsubscribe e c) (\<lambda>_. served c) (served c)"
  unfolding mqtt3_handle_unsubscribe_def hreserved_def hnorm
  by (intro serve hvalid_bind [OF unsubscribe_loop_serves]) (rule hvalid_last, intro serve send_conn_frame)

section \<open>PUBLISH\<close>

lemma serve_call_if:
  assumes "\<And>db. P db \<Longrightarrow> att c i t n db \<and> broker_ok (snd (f db)) \<and> frame db (snd (f db))"
    and "\<And>x. hvalid (att c i False n) (K x) R E"
  shows "hvalid P (hbind (hcall f) K) R E"
proof (rule hvalid_bind)
  show "hvalid P (hcall f) (\<lambda>_. att c i False n) E"
    by (rule hvalid_call) (use assms(1) att_frame in blast)
qed (rule assms(2))

lemma hvalid_store:
  assumes "qos \<in> {0, 1, 2}" and "case topic of None \<Rightarrow> True | Some t \<Rightarrow> topic_ok t"
  shows "hvalid (att c i t n) (hcall (\<lambda>db. case mqtt3_db_message_store e db client mid topic qos payload retain 0 of (rc, s, db) \<Rightarrow> ((rc, s), db)))
    (\<lambda>x db. att c i False n db \<and> (\<forall>stored. snd x = Some stored \<longrightarrow> stored \<in> live_stores db \<and> store_topic (db_stores db stored) = topic)) E"
proof (rule hvalid_call)
  fix db assume a: "att c i t n db"
  obtain rc s db' where st: "mqtt3_db_message_store e db client mid topic qos payload retain 0 = (rc, s, db')" using prod_cases3 by blast
  have "att c i False n db'"
    by (rule att_frame [OF a broker_ok_store(1) [OF attD(3) [OF a] assms st] frame_store [OF st]])
  then show "att c i False n (snd (case mqtt3_db_message_store e db client mid topic qos payload retain 0 of (rc, s, db) \<Rightarrow> ((rc, s), db)))
      \<and> (\<forall>stored. snd (fst (case mqtt3_db_message_store e db client mid topic qos payload retain 0 of (rc, s, db) \<Rightarrow> ((rc, s), db))) = Some stored
        \<longrightarrow> stored \<in> live_stores (snd (case mqtt3_db_message_store e db client mid topic qos payload retain 0 of (rc, s, db) \<Rightarrow> ((rc, s), db)))
          \<and> store_topic (db_stores (snd (case mqtt3_db_message_store e db client mid topic qos payload retain 0 of (rc, s, db) \<Rightarrow> ((rc, s), db))) stored) = topic)"
    using broker_ok_store(2) [OF attD(3) [OF a] assms st] message_store_frame(5) [OF st] st by simp
qed

lemma insert_step:
  assumes "att c i t n db" and "stored \<in> live_stores db"
  shows "broker_ok (snd (mqtt3_db_message_insert e db c mid mosq_md_in 2 retain stored))
    \<and> frame db (snd (mqtt3_db_message_insert e db c mid mosq_md_in 2 retain stored))"
  using broker_ok_insert [OF attD(3) [OF assms(1)] assms(2)] frame_insert by simp

lemma process_bad_message_serves:
  "hvalid (att c i t n) (process_bad_message e c qos mid) (\<lambda>_. served c) (served c)"
proof -
  have pubrec: "hvalid (att c i t n) (if res = 0 then hsend c (\<lambda>m. mosquitto_send_pubrec e m mid) else hreturn res) (\<lambda>_. served c) (served c)" for res t n
    by (intro serve) (rule hvalid_last, intro serve send_conn_frame)
  let ?store = "\<lambda>client. hcall (\<lambda>db. case mqtt3_db_message_store e db client mid None 2 [] False 0 of (rc, s, db) \<Rightarrow> ((rc, s), db))"
  have stored: "hvalid (att c i t n) (hbind (?store client) (\<lambda>(rc, s). hbind (case s of None \<Rightarrow> hraise 1
      | Some stored \<Rightarrow> hcall (\<lambda>db. mqtt3_db_message_insert e db c mid mosq_md_in 2 False stored))
        (\<lambda>res. if res = 0 then hsend c (\<lambda>m. mosquitto_send_pubrec e m mid) else hreturn res))) (\<lambda>_. served c) (served c)" for client
  proof (rule hvalid_bind [OF hvalid_store])
    fix x :: "int \<times> storeid option"
    show "hvalid (\<lambda>db. att c i False n db \<and> (\<forall>stored. snd x = Some stored \<longrightarrow> stored \<in> live_stores db \<and> store_topic (db_stores db stored) = None))
        (case x of (rc, s) \<Rightarrow> hbind (case s of None \<Rightarrow> hraise 1
      | Some stored \<Rightarrow> hcall (\<lambda>db. mqtt3_db_message_insert e db c mid mosq_md_in 2 False stored))
        (\<lambda>res. if res = 0 then hsend c (\<lambda>m. mosquitto_send_pubrec e m mid) else hreturn res)) (\<lambda>_. served c) (served c)"
    proof (cases "snd x")
      case None
      then show ?thesis by (cases x) (auto simp: hnorm intro: hvalid_conseq [OF serve_raise])
    next
      case (Some stored)
      have "hvalid (\<lambda>db. att c i False n db \<and> stored \<in> live_stores db) (hbind (hcall (\<lambda>db. mqtt3_db_message_insert e db c mid mosq_md_in 2 False stored))
          (\<lambda>res. if res = 0 then hsend c (\<lambda>m. mosquitto_send_pubrec e m mid) else hreturn res)) (\<lambda>_. served c) (served c)"
        by (rule serve_call_if [OF _ pubrec]) (use insert_step in blast)
      then show ?thesis using Some by (cases x) (auto elim: hvalid_conseq)
    qed
  qed simp_all
  have case_bind: "hbind (case found of None \<Rightarrow> h | Some _ \<Rightarrow> hreturn 0) K = (if found = None then hbind h K else K 0)" for found :: "storeid option" and h :: "int handler" and K :: "int \<Rightarrow> int handler"
    by (cases found) (simp_all add: hnorm)
  consider (two) "qos = 2" | (other) "qos \<noteq> 2" by blast
  then show ?thesis
  proof cases
    case two
    then have "process_bad_message e c qos mid = hbind (hget (\<lambda>db. snd (mqtt3_db_message_store_find db c mid))) (\<lambda>found.
        if found = None then hbind (hctx c ctx_id) (\<lambda>client. hbind (?store (case client of None \<Rightarrow> [] | Some i \<Rightarrow> i))
          (\<lambda>(rc, s). hbind (case s of None \<Rightarrow> hraise 1
            | Some stored \<Rightarrow> hcall (\<lambda>db. mqtt3_db_message_insert e db c mid mosq_md_in 2 False stored))
        (\<lambda>res. if res = 0 then hsend c (\<lambda>m. mosquitto_send_pubrec e m mid) else hreturn res)))
        else hsend c (\<lambda>m. mosquitto_send_pubrec e m mid))"
      by (simp add: process_bad_message_def case_bind hnorm case_prod_unfold cong: if_cong)
    then show ?thesis using pubrec [of t n 0] by (auto intro!: serve_get serve_if serve_ctx_any stored)
  next
    case other
    show ?thesis unfolding process_bad_message_def using other
      by (intro serve) (auto intro!: serve send_conn_frame hvalid_last [of _ "hsend c f" for f])
  qed
qed

lemma store_find_live:
  assumes "att c i t n db" and "snd (mqtt3_db_message_store_find db c mid) = Some stored"
  shows "stored \<in> live_stores db" and "t \<Longrightarrow> store_topic (db_stores db stored) \<noteq> None"
proof -
  obtain msg where msg: "msg \<in> set (ctx_msgs (db_contexts db c))" "cmsg_direction msg = mosq_md_in" "stored = cmsg_store msg"
    using assms(2) by (auto simp: mqtt3_db_message_store_find_def find_Some_iff split: option.splits) (metis nth_mem)
  then obtain k where "k < length (ctx_msgs (db_contexts db c))" "ctx_msgs (db_contexts db c) ! k = msg" by (auto simp: in_set_conv_nth)
  then show "stored \<in> live_stores db" using broker_ok_live [OF attD(3) [OF assms(1)]] msg(3) by blast
  show "store_topic (db_stores db stored) \<noteq> None" if t
    using assms(1) that msg by (auto simp: att_def named_topics_def)
qed

definition to_deliver :: "ctxid \<Rightarrow> nat \<Rightarrow> int \<Rightarrow> storeid \<Rightarrow> mosquitto_db \<Rightarrow> bool" where
  "to_deliver c n qos stored db \<longleftrightarrow> att c False False n db \<and> stored \<in> live_stores db
     \<and> (qos \<noteq> 2 \<longrightarrow> store_topic (db_stores db stored) \<noteq> None)"

lemma publish_store_serves:
  assumes "topic_ok topic" and "qos \<in> {0, 1, 2}" and "t = (qos = 1)"
  shows "hvalid (att c False t n) (publish_store e c client qos mid topic payload retain)
    (\<lambda>x. to_deliver c n qos (snd x)) (served c)"
proof -
  let ?new = "hbind (hcall (\<lambda>db. case mqtt3_db_message_store e db client mid (Some topic) qos payload retain 0 of (rc, s, db) \<Rightarrow> ((rc, s), db)))
      (\<lambda>(rc, s). case s of None \<Rightarrow> hraise 1 | Some stored \<Rightarrow> hreturn (False, stored))"
  have new: "hvalid (att c False t n) ?new (\<lambda>x. to_deliver c n qos (snd x)) (served c)"
  proof (rule hvalid_bind [OF hvalid_store [OF assms(2)]])
    fix x :: "int \<times> storeid option"
    show "hvalid (\<lambda>db. att c False False n db \<and> (\<forall>stored. snd x = Some stored \<longrightarrow> stored \<in> live_stores db \<and> store_topic (db_stores db stored) = Some topic))
        (case x of (rc, s) \<Rightarrow> case s of None \<Rightarrow> hraise 1 | Some stored \<Rightarrow> hreturn (False, stored)) (\<lambda>x. to_deliver c n qos (snd x)) (served c)"
      by (cases x; cases "snd x") (simp_all add: hvalid_def hreturn_def hraise_def to_deliver_def)
  qed (simp add: assms(1))
  have found: "hvalid (\<lambda>db. att c False t n db \<and> snd (mqtt3_db_message_store_find db c mid) = Some stored) (hreturn (True, stored))
      (\<lambda>x. to_deliver c n qos (snd x)) (served c)" if "0 < qos" for stored
  proof (rule hvalid_return)
    fix db assume a: "att c False t n db \<and> snd (mqtt3_db_message_store_find db c mid) = Some stored"
    then show "to_deliver c n qos (snd (True, stored)) db"
      using store_find_live [of c False t n db mid stored] assms(2,3) that att_weaken [of c False t n db n False] by (auto simp: to_deliver_def)
  qed
  show ?thesis
  proof (cases "0 < qos")
    case True
    show ?thesis unfolding hvalid_def
    proof (intro allI impI)
      fix db assume a: "att c False t n db"
      show "case publish_store e c client qos mid topic payload retain db of None \<Rightarrow> False
          | Some (Inl rc, db') \<Rightarrow> served c db' | Some (Inr x, db') \<Rightarrow> to_deliver c n qos (snd x) db'"
        using new found [OF True] a True
        by (cases "snd (mqtt3_db_message_store_find db c mid)") (auto simp: hvalid_def publish_store_def hbind_def [of "hget f" for f] hget_def)
    qed
  qed (use new in \<open>simp add: publish_store_def hnorm\<close>)
qed

lemma publish_deliver_serves:
  assumes "topic_ok topic" and "qos \<in> {0, 1, 2}"
  shows "hvalid (to_deliver c n qos stored) (publish_deliver e c client qos mid topic retain dup stored) (\<lambda>_. served c) (served c)"
proof -
  have queue: "att c False False n db \<and> broker_ok (snd (mqtt3_db_messages_queue e db client topic qos retain stored))
      \<and> frame db (snd (mqtt3_db_messages_queue e db client topic qos retain stored))" if "to_deliver c n qos stored db" "qos \<noteq> 2" for db
    using that messages_queue_ok [OF attD(3) _ assms(2,1), of c False False n db stored] framed.messages_queue by (auto simp: to_deliver_def)
  have ins: "att c False False n db \<and> broker_ok (snd (mqtt3_db_message_insert e db c mid mosq_md_in qos retain stored))
      \<and> frame db (snd (mqtt3_db_message_insert e db c mid mosq_md_in qos retain stored))" if "to_deliver c n qos stored db" "qos = 2" for db
    using that insert_step [of c False False n db stored e mid retain] by (auto simp: to_deliver_def)
  have pubrec: "hvalid (att c False t n) (if res = 0 then hbind (hsend c (\<lambda>m. mosquitto_send_pubrec e m mid)) (\<lambda>r. hreturn (if r \<noteq> 0 then 1 else 0))
      else hreturn (if res = 1 then 1 else 0)) (\<lambda>_. served c) (served c)" for res t by (intro serve send_conn_frame)
  have *: "hvalid (to_deliver c n qos stored) h Q E" if "hvalid (att c False False n) h Q E" for h :: "int handler" and Q E
    by (rule hvalid_conseq [OF that]) (auto simp: to_deliver_def)
  consider "qos = 0" | "qos = 1" | "qos = 2" "dup" | "qos = 2" "\<not> dup" using assms(2) by auto
  then show ?thesis
  proof cases
    case 1
    then show ?thesis unfolding publish_deliver_def
      by (simp, intro serve_call_if [where c = c and i = False and t = False and n = n] serve) (use queue in auto)
  next
    case 2
    then show ?thesis unfolding publish_deliver_def
      by (simp, intro serve_call_if [where c = c and i = False and t = False and n = n] serve send_conn_frame) (use queue in auto)
  next
    case 3
    then show ?thesis using * [OF pubrec [of False 0]] by (simp add: publish_deliver_def hnorm)
  next
    case 4
    then show ?thesis unfolding publish_deliver_def
      by (simp, intro serve_call_if [where c = c and i = False and t = False and n = n] pubrec) (use ins in auto)
  qed
qed

lemma publish_accept_serves:
  assumes "topic_ok topic" and "qos \<in> {0, 1, 2}"
  shows "hvalid (att c False (qos = 1) n) (publish_accept e c qos mid retain topic payload) (\<lambda>_. served c) (served c)"
  unfolding publish_accept_def Let_def
  by (intro serve process_bad_message_serves hvalid_bind [OF publish_store_serves [OF assms refl]])
    (auto intro: publish_deliver_serves [OF assms])

lemma publish_qos_range: "publish_qos header \<in> {0, 1, 2, 3}"
proof -
  have "uint (header AND 6 :: u8) \<le> uint (6 :: u8)" by (rule word_le_def [THEN iffD1]) (rule word_and_le1)
  then have "uint (drop_bit 1 (header AND 6 :: u8)) \<le> 3" by (simp add: drop_bit_eq_div uint_div)
  then show ?thesis using uint_ge_0 [of "drop_bit 1 (header AND 6 :: u8)"] unfolding publish_qos_def insert_iff empty_iff by presburger
qed

lemma publish_qos_valid: "publish_qos header \<noteq> 3 \<Longrightarrow> publish_qos header \<in> {0, 1, 2}"
  using publish_qos_range [of header] by blast

lemma serve_left:
  assumes "\<And>len. unat len \<le> MQTT_MAX_PAYLOAD \<Longrightarrow> hvalid (att c i t n) (K len) R E"
  shows "hvalid (att c i t n) (hbind (hctx c (\<lambda>m. pkt_remaining_length (ctx_in_packet m) - pkt_pos (ctx_in_packet m))) K) R E"
  unfolding hvalid_def
proof (intro allI impI)
  fix db assume a: "att c i t n db"
  let ?p = "ctx_in_packet (db_contexts db c)"
  have "unat (pkt_remaining_length ?p - pkt_pos ?p) \<le> MQTT_MAX_PAYLOAD"
    using attD(4) [OF a] unfolding in_wf_def by (subst unat_sub) (simp_all only: word_le_nat_alt, linarith)
  from assms [OF this] a show "case hbind (hctx c (\<lambda>m. pkt_remaining_length (ctx_in_packet m) - pkt_pos (ctx_in_packet m))) K db of
      None \<Rightarrow> False | Some (Inl rc, db') \<Rightarrow> E db' | Some (Inr x, db') \<Rightarrow> R x db'"
    by (simp add: hvalid_def hbind_def hctx_def hget_def)
qed

lemma serve_payload:
  assumes "unat len \<le> MQTT_MAX_PAYLOAD" and "\<And>payload n. hvalid (att c i t n) (K payload) R (served c)"
  shows "hvalid (att c i t n) (hbind (publish_payload e c len) K) R (served c)"
  unfolding publish_payload_def Let_def hnorm
  by (intro serve serve_read [OF reads_bytes [OF assms(1)]] assms(2))

lemma topic_checked: "mosquitto_pub_topic_check topic = MOSQ_ERR_SUCCESS \<Longrightarrow> nul_free topic \<Longrightarrow> topic_ok topic"
  by (auto simp: mosquitto_pub_topic_check_def pub_topic_check_loop_eq topic_ok_def plain_level_levels split: if_splits)

lemma serve_map_topic:
  "ctx_bridge m = None \<Longrightarrow> hvalid P (K topic) R E \<Longrightarrow> hvalid P (hbind (publish_map_topic m topic) K) R E"
  by (simp add: publish_map_topic_def hnorm)

lemma publish_body_serves:
  assumes "mounts_ok e" and "topic_ok topic" and "qos \<in> {0, 1, 2}"
  shows "hvalid (att c False (qos = 1) n) (hbind (hctx c (\<lambda>m. pkt_remaining_length (ctx_in_packet m) - pkt_pos (ctx_in_packet m))) (\<lambda>payloadlen.
     hbind (hset c (add_stats (\<lambda>s. s\<lparr>g_pub_bytes_received := g_pub_bytes_received s + ucast payloadlen\<rparr>))) (\<lambda>_.
     hbind (hmount e c topic) (\<lambda>topic.
     hbind (publish_payload e c payloadlen) (\<lambda>payload.
       case payload of
         None \<Rightarrow> process_bad_message e c qos mid
       | Some payload \<Rightarrow> publish_accept e c qos mid retain topic payload))))) (\<lambda>_. served c) (served c)"
proof (intro serve_left serve_set serve_mount [OF assms(1)] serve_payload)
  fix topic' and payload :: "byte list option" and n assume "mounted topic topic'"
  then have "topic_ok topic'" using mounted_topic assms(2) by blast
  then show "hvalid (att c False (qos = 1) n) (case payload of None \<Rightarrow> process_bad_message e c qos mid
       | Some payload \<Rightarrow> publish_accept e c qos mid retain topic' payload) (\<lambda>_. served c) (served c)"
    using process_bad_message_serves publish_accept_serves [OF _ assms(3)] by (cases payload) simp_all
qed (simp_all add: same_queue_def core_def add_stats_def)

definition publishing :: "ctxid \<Rightarrow> nat \<Rightarrow> mosquitto_db \<Rightarrow> bool" where
  "publishing c n db \<longleftrightarrow> att c False False n db
     \<and> (publish_qos (pkt_command (ctx_in_packet (db_contexts db c))) = 1 \<longrightarrow> named_topics c db)"

lemma publish_serves:
  assumes "mounts_ok e"
  shows "hvalid (publishing c n) (mqtt3_handle_publish e c) (\<lambda>_. served c) (served c)"
proof -
  have header: "hvalid (publishing c n) (hbind (hctx c (\<lambda>m. pkt_command (ctx_in_packet m))) K) R E"
    if "\<And>header. hvalid (att c False (publish_qos header = 1) n) (K header) R E" for K :: "u8 \<Rightarrow> int handler" and R E
    using that by (auto simp: hvalid_def hbind_def hctx_def hget_def publishing_def att_def)
  show ?thesis unfolding mqtt3_handle_publish_def Let_def publish_topic_def hnorm
  proof (intro header serve_when serve_readers serve_if serve_ctx_any [where f = id] serve_map_topic publish_body_serves [OF assms])
  qed (rule topic_checked publish_qos_valid | simp)+
qed

section \<open>DISCONNECT and CONNACK\<close>

lemma served_disconnect: "served c db \<Longrightarrow> served c (do_disconnect e c db)"
  using do_disconnect_live do_disconnect_facts(2) by (auto simp: served_def)

lemma served_state:
  assumes "att c False t n db" and "state \<notin> {mosq_cs_new, mosq_cs_disconnected, mosq_cs_connect_pending}"
  shows "served c (upd_ctx c (\<lambda>m. m\<lparr>ctx_state := state\<rparr>) db)"
proof -
  have "live {c} (upd_ctx c (\<lambda>m. m\<lparr>ctx_state := state\<rparr>) db)"
    by (rule live_state [OF attD(2) [OF assms(1)], where b = "ctx_clean_session (db_contexts db c)"])
      (use attD(6) [OF assms(1)] assms(2) in \<open>simp_all add: same_queue_def core_def\<close>)
  then show ?thesis using attD(6) [OF assms(1)] by (auto simp: served_def idle_ok_def)
qed

lemma disconnect_serves: "hvalid (att c False t n) (mqtt3_handle_disconnect e c) (\<lambda>_. served c) (served c)"
  unfolding mqtt3_handle_disconnect_def
proof (intro serve_ctx_any serve_when serve_if)
  have d: "hvalid (served c) (hbind (hupd (do_disconnect e c)) (\<lambda>_. hreturn x)) (\<lambda>_. served c) (served c)" for x :: int
    by (rule hvalid_bind [OF hvalid_upd hvalid_return]) (auto intro: served_disconnect)
  show "hvalid (att c False t n) (hbind (hupd (do_disconnect e c)) (\<lambda>_. hreturn MOSQ_ERR_PROTOCOL)) (\<lambda>_. served c) (served c)"
    by (rule hvalid_conseq [OF d]) simp_all
  have "hvalid (att c False t n) (hset c (\<lambda>m. m\<lparr>ctx_state := mosq_cs_disconnecting\<rparr>)) (\<lambda>_. served c) (served c)"
    by (rule hvalid_set) (simp add: served_state)
  from hvalid_bind [OF this d]
  show "hvalid (att c False t n) (hbind (hset c (\<lambda>m. m\<lparr>ctx_state := mosq_cs_disconnecting\<rparr>))
      (\<lambda>_. hbind (hupd (do_disconnect e c)) (\<lambda>_. hreturn MOSQ_ERR_SUCCESS))) (\<lambda>_. served c) (served c)" .
qed

lemma connack_serves: "hvalid (att c False t n) (mqtt3_handle_connack e c) (\<lambda>_. served c) (served c)"
proof -
  have ok: "hvalid (att c False t n) (hbind (hset c (\<lambda>m. m\<lparr>ctx_state := mosq_cs_connected\<rparr>)) (\<lambda>_. hreturn MOSQ_ERR_SUCCESS)) (\<lambda>_. served c) (served c)" for n
    by (rule hvalid_bind [OF hvalid_set hvalid_return]) (auto intro: served_state)
  have bridge: "hvalid (att c False t n) (hbind (hctx c ctx_bridge) K) R E" if "hvalid (att c False t n) (K None) R E" for K :: "mqtt3_bridge option \<Rightarrow> int handler" and n R E
    by (rule serve_ctx_any) (use that in simp)
  show ?thesis unfolding mqtt3_handle_connack_def
    by (intro serve_readers bridge serve_if serve_set serve_raise; simp add: hnorm ok same_queue_def core_def split: option.split)
qed

end
