(* ===== verification/Mosq_Takeover.thy ===== *)
theory Mosq_Takeover
  imports Mosq_Serve
begin

text \<open>
  The session of an earlier connection with the same client identifier: its messages and
  subscriptions pass to the new connection, and the earlier connection is ended.
\<close>

section \<open>Moving the leaves\<close>

lemma map_fst_move: "map fst (move_leaves f c subs) = map (\<lambda>d. if d = f then c else d) (map fst subs)"
  by (auto simp: move_leaves_def)

lemma move_leaves_fst: "fst ` set (move_leaves f c subs) = (\<lambda>d. if d = f then c else d) ` fst ` set subs"
  using arg_cong [OF map_fst_move, of set f c subs] by (simp only: set_map)

lemma leaves_ok_move: "leaves_ok subs \<Longrightarrow> leaves_ok (move_leaves f c subs)"
  by (auto simp: leaves_ok_def move_leaves_def)

lemma move_leaves_absent: "f \<notin> fst ` set subs \<Longrightarrow> move_leaves f c subs = subs"
  by (induction subs) (auto simp: move_leaves_def)

lemma move_leaves_distinct:
  assumes "distinct (map fst subs)" and "c \<notin> fst ` set subs"
  shows "distinct (map fst (move_leaves f c subs))"
proof -
  have "inj_on (\<lambda>d. if d = f then c else d) (set (map fst subs))" using assms(2) by (auto simp: inj_on_def)
  then show ?thesis using assms(1) unfolding map_fst_move by (rule distinct_map [THEN iffD2, OF conjI, rotated])
qed

lemma take_slots:
  "distinct (used_slots slots) \<Longrightarrow> \<forall>p. Some p \<in> set slots \<longrightarrow> subs_at (db_subs db) p \<noteq> [] \<Longrightarrow>
   \<exists>nodes. foldl (\<lambda>db slot. take_slot f c slot db) db slots = db\<lparr>db_subs := nodes\<rparr>
     \<and> relists {p. Some p \<in> set slots} (move_leaves f c) (db_subs db) nodes"
proof (induction slots arbitrary: db)
  case Nil
  show ?case by (intro exI [of _ "db_subs db"]) (simp add: relists_none)
next
  case (Cons s slots)
  show ?case
  proof (cases s)
    case None
    then show ?thesis using Cons by (simp add: take_slot_def used_slots_def)
  next
    case (Some path)
    let ?ns = "upd_node_at (\<lambda>node. set_subs (move_leaves f c (sh_subs node)) node) path (db_subs db)"
    have "subs_at (db_subs db) path \<noteq> []" using Cons.prems(2) Some by simp
    then have node: "node_at (db_subs db) path \<noteq> None"
      by (cases "node_at (db_subs db) path") (simp_all add: subs_at_def)
    have r: "relists {path} (move_leaves f c) (db_subs db) ?ns" 
      by (rule upd_node_relists) (rule leaves_ok_move, assumption, rule node)
    have same: "subs_at ?ns p = subs_at (db_subs db) p" if "p \<noteq> path" for p using r that by (simp add: relists_def)
    have path: "Some path \<notin> set slots" "distinct (used_slots slots)" using Cons.prems(1) Some by (auto simp: used_slots_def)
    have "subs_at ?ns p \<noteq> []" if "Some p \<in> set slots" for p
    proof -
      have "p \<noteq> path" using path(1) that by blast
      from same [OF this] Cons.prems(2) that show ?thesis by simp
    qed
    then have "\<forall>p. Some p \<in> set slots \<longrightarrow> subs_at (db_subs (db\<lparr>db_subs := ?ns\<rparr>)) p \<noteq> []" by simp
    from Cons.IH [OF path(2) this] obtain ns where
      ns: "foldl (\<lambda>db slot. take_slot f c slot db) (db\<lparr>db_subs := ?ns\<rparr>) slots = (db\<lparr>db_subs := ?ns\<rparr>)\<lparr>db_subs := ns\<rparr>"
        "relists {p. Some p \<in> set slots} (move_leaves f c) (db_subs (db\<lparr>db_subs := ?ns\<rparr>)) ns" by blast
    have "{p. Some p \<in> set (s # slots)} = insert path {p. Some p \<in> set slots}" using Some by auto
    then have "relists {p. Some p \<in> set (s # slots)} (move_leaves f c) (db_subs db) ns"
      using relists_insert [OF r] ns(2) path(1) by simp
    moreover have "take_slot f c s db = db\<lparr>db_subs := ?ns\<rparr>" using node Some by (auto simp: take_slot_def)
    then have "foldl (\<lambda>db slot. take_slot f c slot db) db (s # slots) = db\<lparr>db_subs := ns\<rparr>" using ns(1) by simp
    ultimately show ?thesis by blast
  qed
qed

section \<open>The state after the move\<close>

definition takes :: "int \<Rightarrow> mosquitto \<Rightarrow> mosquitto \<Rightarrow> mosquitto" where
  "takes max_inflight old m = (reset_queue max_inflight (m\<lparr>ctx_msgs := ctx_msgs old\<rparr>))
     \<lparr>ctx_subs := ctx_subs old, ctx_last_mid := ctx_last_mid old\<rparr>"

definition gives :: "mosquitto \<Rightarrow> mosquitto" where
  "gives m = m\<lparr>ctx_msgs := [], ctx_subs := []\<rparr>"

definition handed :: "ctxid \<Rightarrow> ctxid \<Rightarrow> subhier list \<Rightarrow> mosquitto_db \<Rightarrow> mosquitto_db" where
  "handed f c nodes db = db\<lparr>db_contexts := (db_contexts db)
     (c := takes (db_max_inflight db) (db_contexts db f) (db_contexts db c), f := gives (db_contexts db f)), db_subs := nodes\<rparr>"

lemma take_messages_eq:
  assumes "f \<noteq> c" and "list_all msg_ok (ctx_msgs (db_contexts db f))" and "queue_wf (db_contexts db c)" and "ctx_msgs (db_contexts db c) = []"
  shows "take_messages f c db = upd_ctx f (\<lambda>m. m\<lparr>ctx_msgs := []\<rparr>)
    (upd_ctx c (\<lambda>m. reset_queue (db_max_inflight db) (m\<lparr>ctx_msgs := ctx_msgs (db_contexts db f)\<rparr>)) db)"
proof (cases "ctx_msgs (db_contexts db f) = []")
  case True
  have "upd_ctx c (\<lambda>m. reset_queue (db_max_inflight db) (m\<lparr>ctx_msgs := []\<rparr>)) db = db"
    by (rule upd_ctx_ident) (use assms(3,4) in \<open>simp add: reset_queue_def queue_wf_def\<close>)
  moreover have "upd_ctx f (\<lambda>m. m\<lparr>ctx_msgs := []\<rparr>) db = db" by (rule upd_ctx_ident) (use True in simp)
  ultimately show ?thesis using True by (simp add: take_messages_def)
next
  case False
  let ?msgs = "ctx_msgs (db_contexts db f)"
  let ?db = "upd_ctx f (\<lambda>m. m\<lparr>ctx_msgs := []\<rparr>) (upd_ctx c (\<lambda>m. m\<lparr>ctx_msgs := ?msgs\<rparr>) db)"
  have "snd (mqtt3_db_message_reconnect_reset ?db c) = upd_ctx c (reset_queue (db_max_inflight ?db)) ?db"
    by (rule reconnect_reset_queue) (use assms(1,2) in simp)
  then show ?thesis using False assms(1) by (simp add: take_messages_def Let_def upd_ctx_def fun_upd_twist)
qed

lemma take_session:
  assumes "broker_ok db" and "f \<noteq> c" and "queue_wf (db_contexts db c)" and "ctx_msgs (db_contexts db c) = []"
  shows "\<exists>nodes. take_subs f c (take_messages f c db) = handed f c nodes db \<and> relists UNIV (move_leaves f c) (db_subs db) nodes"
proof -
  let ?mf = "db_contexts db f"
  have slots: "distinct (used_slots (ctx_subs ?mf))" "\<And>p. Some p \<in> set (ctx_subs ?mf) \<longleftrightarrow> f \<in> fst ` set (subs_at (db_subs db) p)"
    using assms(1) unfolding broker_ok_def slots_ok_def by blast+
  let ?db = "upd_ctx f (\<lambda>m. m\<lparr>ctx_msgs := []\<rparr>) (upd_ctx c (\<lambda>m. reset_queue (db_max_inflight db) (m\<lparr>ctx_msgs := ctx_msgs ?mf\<rparr>)) db)"
  have m: "take_messages f c db = ?db"
    by (rule take_messages_eq [OF assms(2) queue_ok_msgs [OF broker_ok_queue_ok [OF assms(1)]] assms(3,4)])
  let ?db' = "upd_ctx f (\<lambda>m. m\<lparr>ctx_subs := []\<rparr>) (upd_ctx c (\<lambda>m. m\<lparr>ctx_subs := ctx_subs ?mf, ctx_last_mid := ctx_last_mid ?mf\<rparr>) ?db)"
  have "\<forall>p. Some p \<in> set (ctx_subs ?mf) \<longrightarrow> subs_at (db_subs ?db') p \<noteq> []" using slots(2) by fastforce
  from take_slots [OF slots(1) this] obtain nodes where
    n: "foldl (\<lambda>db slot. take_slot f c slot db) ?db' (ctx_subs ?mf) = ?db'\<lparr>db_subs := nodes\<rparr>"
      "relists {p. Some p \<in> set (ctx_subs ?mf)} (move_leaves f c) (db_subs db) nodes" by auto
  have "relists UNIV (move_leaves f c) (db_subs db) nodes"
  proof -
    have "move_leaves f c (subs_at (db_subs db) p) = subs_at (db_subs db) p" if "Some p \<notin> set (ctx_subs ?mf)" for p
      using that by (intro move_leaves_absent) (simp add: slots(2))
    then show ?thesis using n(2) by (auto simp: relists_def)
  qed
  moreover have "take_subs f c (take_messages f c db) = ?db'\<lparr>db_subs := nodes\<rparr>"
    unfolding m take_subs_def Let_def using n(1) assms(2) by simp
  moreover have "?db'\<lparr>db_subs := nodes\<rparr> = handed f c nodes db"
    using assms(2) by (simp add: handed_def upd_ctx_def takes_def gives_def fun_upd_twist)
  ultimately show ?thesis by auto
qed

section \<open>Ending the earlier connection\<close>

text \<open>Ending the connection does not depend on the messages and subscriptions that were taken from it.\<close>

lemma gives_sel [simp]:
  "ctx_id (gives m) = ctx_id m" "ctx_sock (gives m) = ctx_sock m" "ctx_listener (gives m) = ctx_listener m" "ctx_will (gives m) = ctx_will m"
  "ctx_state (gives m) = ctx_state m" "ctx_bridge (gives m) = ctx_bridge m" "ctx_clean_session (gives m) = ctx_clean_session m"
  "ctx_msgs (gives m) = []" "ctx_subs (gives m) = []" "ctx_in_packet (gives m) = ctx_in_packet m"
  by (simp_all add: gives_def)

lemma handed_sel [simp]:
  "f \<noteq> c \<Longrightarrow> db_contexts (handed f c nodes db) f = gives (db_contexts db f)"
  "db_contexts_by_id (handed f c nodes db) = db_contexts_by_id db" "db_contexts_by_sock (handed f c nodes db) = db_contexts_by_sock db"
  "db_client_count (handed f c nodes db) = db_client_count db" "db_ll_for_free (handed f c nodes db) = db_ll_for_free db"
  "db_aborted (handed f c nodes db) = db_aborted db"
  by (simp_all add: handed_def)

lemma handed_upd:
  assumes "f \<noteq> c" and "gives (g (db_contexts db f)) = g (gives (db_contexts db f))"
    and "ctx_msgs (g (db_contexts db f)) = ctx_msgs (db_contexts db f)" "ctx_subs (g (db_contexts db f)) = ctx_subs (db_contexts db f)"
      "ctx_last_mid (g (db_contexts db f)) = ctx_last_mid (db_contexts db f)"
  shows "upd_ctx f g (handed f c nodes db) = handed f c nodes (upd_ctx f g db)"
  using assms by (simp add: handed_def upd_ctx_def takes_def fun_upd_twist)

lemma handed_fields [simp]:
  "(handed f c nodes db)\<lparr>db_contexts_by_sock := x1\<rparr> = handed f c nodes (db\<lparr>db_contexts_by_sock := x1\<rparr>)"
  "(handed f c nodes db)\<lparr>db_contexts_by_id := x2\<rparr> = handed f c nodes (db\<lparr>db_contexts_by_id := x2\<rparr>)"
  "(handed f c nodes db)\<lparr>db_ll_for_free := x3\<rparr> = handed f c nodes (db\<lparr>db_ll_for_free := x3\<rparr>)"
  "(handed f c nodes db)\<lparr>db_client_count := x4\<rparr> = handed f c nodes (db\<lparr>db_client_count := x4\<rparr>)"
  "(handed f c nodes db)\<lparr>db_aborted := x5\<rparr> = handed f c nodes (db\<lparr>db_aborted := x5\<rparr>)"
  by (simp_all add: handed_def)

lemma handed_upds [simp]:
  assumes "f \<noteq> c"
  shows "upd_ctx f (\<lambda>m. m\<lparr>ctx_sock := x1\<rparr>) (handed f c nodes db) = handed f c nodes (upd_ctx f (\<lambda>m. m\<lparr>ctx_sock := x1\<rparr>) db)"
    "upd_ctx f (\<lambda>m. m\<lparr>ctx_listener := x2\<rparr>) (handed f c nodes db) = handed f c nodes (upd_ctx f (\<lambda>m. m\<lparr>ctx_listener := x2\<rparr>) db)"
    "upd_ctx f (\<lambda>m. m\<lparr>ctx_will := x3\<rparr>) (handed f c nodes db) = handed f c nodes (upd_ctx f (\<lambda>m. m\<lparr>ctx_will := x3\<rparr>) db)"
    "upd_ctx f (\<lambda>m. m\<lparr>ctx_id := x4\<rparr>) (handed f c nodes db) = handed f c nodes (upd_ctx f (\<lambda>m. m\<lparr>ctx_id := x4\<rparr>) db)"
    "upd_ctx f (\<lambda>m. m\<lparr>ctx_state := x5\<rparr>) (handed f c nodes db) = handed f c nodes (upd_ctx f (\<lambda>m. m\<lparr>ctx_state := x5\<rparr>) db)"
    "upd_ctx f (\<lambda>m. m\<lparr>ctx_disconnect_t := x6\<rparr>) (handed f c nodes db) = handed f c nodes (upd_ctx f (\<lambda>m. m\<lparr>ctx_disconnect_t := x6\<rparr>) db)"
  by (rule handed_upd [OF assms]; simp add: gives_def)+

lemma socket_close_handed: "f \<noteq> c \<Longrightarrow> mosquitto_socket_close f (handed f c nodes db) = handed f c nodes (mosquitto_socket_close f db)"
  unfolding mosquitto_socket_close_def leave_listener_def hash_delete_sock_def Let_def
  by (simp split: option.split)

lemma retire_handed:
  assumes "f \<noteq> c"
  shows "retire e f (handed f c nodes db) = handed f c nodes (retire e f db)"
proof -
  let ?db = "upd_ctx f (\<lambda>m. m\<lparr>ctx_clean_session := True, ctx_state := mosq_cs_disconnecting\<rparr>) db"
  have 1: "upd_ctx f (\<lambda>m. m\<lparr>ctx_clean_session := True, ctx_state := mosq_cs_disconnecting\<rparr>) (handed f c nodes db) = handed f c nodes ?db"
    by (rule handed_upd [OF assms]) (simp_all add: gives_def)
  have "mqtt3_context_send_will e f (handed f c nodes ?db) = handed f c nodes (mqtt3_context_send_will e f ?db)"
    using assms by (simp add: mqtt3_context_send_will_def split: option.split)
  then have 2: "mqtt3_context_disconnect e f (handed f c nodes ?db) = handed f c nodes (mqtt3_context_disconnect e f ?db)"
    unfolding mqtt3_context_disconnect_def using assms by (simp add: socket_close_handed)
  show ?thesis unfolding retire_def 1 do_disconnect_def 2
    using assms by (simp add: Let_def drop_id_def hash_delete_id_def mosquitto_add_context_to_disused_def split: option.split)
qed

text \<open>The will of the earlier connection is dropped.\<close>

definition leaving :: "mosq_env \<Rightarrow> mosquitto \<Rightarrow> mosquitto" where
  "leaving e m = m\<lparr>ctx_clean_session := True, ctx_state := mosq_cs_disconnecting, ctx_will := None, ctx_disconnect_t := env_now e\<rparr>"

lemma retire_live:
  assumes "live A db" and "ctx_id (db_contexts db f) \<noteq> None"
  shows "live A (retire e f db)"
    and "retire e f db = discard f (mosquitto_socket_close f (upd_ctx f (leaving e) db))"
    and "live A (upd_ctx f (leaving e) db)"
proof -
  let ?db = "upd_ctx f (\<lambda>m. m\<lparr>ctx_clean_session := True, ctx_state := mosq_cs_disconnecting\<rparr>) db"
  have l: "live A ?db"
    by (rule live_state [OF assms, where b = True]) (simp_all add: same_queue_def core_def)
  then show "live A (retire e f db)" unfolding retire_def by (rule do_disconnect_live)
  have w: "mqtt3_context_send_will e f ?db = upd_ctx f (\<lambda>m. m\<lparr>ctx_will := None\<rparr>) ?db"
    by (cases "ctx_will (db_contexts db f)") (simp_all add: mqtt3_context_send_will_def upd_ctx_ident)
  have d: "upd_ctx f (\<lambda>m. m\<lparr>ctx_disconnect_t := env_now e\<rparr>) (mqtt3_context_send_will e f ?db) = upd_ctx f (leaving e) db"
    unfolding w upd_ctx_twice leaving_def by simp
  show l': "live A (upd_ctx f (leaving e) db)" using live_disconnect_t [OF send_will_live [OF l]] d by metis
  have "ctx_clean_session (db_contexts (mosquitto_socket_close f (upd_ctx f (leaving e) db)) f)"
    unfolding socket_close_ctx [OF l'] by (simp add: closed_def leaving_def)
  then show "retire e f db = discard f (mosquitto_socket_close f (upd_ctx f (leaving e) db))"
    unfolding retire_def do_disconnect_cases [OF l] mqtt3_context_disconnect_def d by simp
qed

lemma retire_facts:
  assumes "live A db" and "ctx_id (db_contexts db f) \<noteq> None"
  shows "d \<noteq> f \<Longrightarrow> db_contexts (retire e f db) d = db_contexts db d"
    and "ctx_id (db_contexts (retire e f db) f) = None" and "ctx_id (db_contexts db f) = Some i \<Longrightarrow> i \<notin> fst ` set (db_contexts_by_id (retire e f db))"
    and "db_subs (retire e f db) = db_subs db" and "ctx_msgs (db_contexts (retire e f db) f) = ctx_msgs (db_contexts db f)"
    and "db_stores (retire e f db) = db_stores db" "db_acl_list (retire e f db) = db_acl_list db" "db_acl_patterns (retire e f db) = db_acl_patterns db"
proof -
  note r = retire_live [OF assms, of e] and c = socket_close_ctx [OF retire_live(3) [OF assms]]
  show "d \<noteq> f \<Longrightarrow> db_contexts (retire e f db) d = db_contexts db d" "ctx_id (db_contexts (retire e f db) f) = None"
    "ctx_msgs (db_contexts (retire e f db) f) = ctx_msgs (db_contexts db f)"
    by (simp_all add: r(2) discard_def c closed_def leaving_def)
  show "db_subs (retire e f db) = db_subs db" "db_stores (retire e f db) = db_stores db" "db_acl_list (retire e f db) = db_acl_list db"
    "db_acl_patterns (retire e f db) = db_acl_patterns db"
    unfolding r(2) by (simp_all add: discard_def mosquitto_socket_close_def leave_listener_def hash_delete_sock_def Let_def split: option.split)
  assume i: "ctx_id (db_contexts db f) = Some i"
  note t = tables_okD [OF liveD(2) [OF assms(1)]]
  have "d = f" if "(i, d) \<in> set (db_contexts_by_id db)" for d
    using that t(1) i t(2) [of i f] by (metis eq_key_imp_eq_value)
  then show "i \<notin> fst ` set (db_contexts_by_id (retire e f db))" by (auto simp: r(2) discard_def c)
qed

section \<open>The invariant after the move\<close>

lemma takes_core [simp]: "core (takes n old m) = core m"
  by (simp add: takes_def reset_queue_def core_def)

lemma gives_core [simp]: "core (gives m) = core m"
  by (simp add: gives_def core_def)

lemma takes_wf: "queue_ok old \<Longrightarrow> queue_wf m \<Longrightarrow> ctx_msgs m = [] \<Longrightarrow> queue_wf (takes n old m)"
  using reset_queue_wf [of "m\<lparr>ctx_msgs := ctx_msgs old\<rparr>" n] queue_ok_msgs [of old] by (simp add: takes_def queue_wf_def)

lemma handed_refs:
  assumes "finite (busy db)" and "f \<noteq> c" and "ctx_msgs (db_contexts db c) = []"
  shows "all_queue_refs (handed f c nodes db) = all_queue_refs db" and "finite (busy (handed f c nodes db))"
proof -
  let ?t = "takes (db_max_inflight db) (db_contexts db f) (db_contexts db c)"
  let ?db = "db\<lparr>db_contexts := (db_contexts db)(c := ?t)\<rparr>"
  have t: "queue_refs ?t = queue_refs (db_contexts db f)" "queue_refs (db_contexts db c) = {#}" "queue_refs (gives (db_contexts db f)) = {#}"
    using reset_queue_refs [of "db_max_inflight db" "(db_contexts db c)\<lparr>ctx_msgs := ctx_msgs (db_contexts db f)\<rparr>"] assms(3)
    by (simp_all add: queue_refs_def takes_def)
  note 1 = all_queue_refs_upd [OF assms(1), of ?db c ?t]
  have "finite (busy ?db)" using 1(2) by simp
  note 2 = all_queue_refs_upd [OF this, of "handed f c nodes db" f "gives (db_contexts db f)"]
  show "all_queue_refs (handed f c nodes db) = all_queue_refs db" using 1(1) 2(1) t assms(2) by (simp add: handed_def)
  show "finite (busy (handed f c nodes db))" using 2(2) by (simp add: handed_def)
qed

lemma handed_slots:
  assumes "slots_ok db" and "f \<noteq> c" and "ctx_subs (db_contexts db c) = []" and "relists UNIV (move_leaves f c) (db_subs db) nodes"
  shows "slots_ok (handed f c nodes db)"
proof -
  have s: "distinct (map fst (subs_at (db_subs db) p))" "distinct (used_slots (ctx_subs (db_contexts db d)))"
    "Some p \<in> set (ctx_subs (db_contexts db d)) \<longleftrightarrow> d \<in> fst ` set (subs_at (db_subs db) p)" for p d
    using assms(1) unfolding slots_ok_def by blast+
  have c: "c \<notin> fst ` set (subs_at (db_subs db) p)" for p using s(3) [of p c] assms(3) by simp
  have n: "subs_at nodes p = move_leaves f c (subs_at (db_subs db) p)" for p using assms(4) by (simp add: relists_def)
  have moved: "d \<in> fst ` set (subs_at nodes p) \<longleftrightarrow> d \<noteq> f \<and> (if d = c then f else d) \<in> fst ` set (subs_at (db_subs db) p)" for d p
    unfolding n move_leaves_fst using c [of p] assms(2) by auto
  have ctx: "ctx_subs (db_contexts (handed f c nodes db) d) = (if d = f then [] else if d = c then ctx_subs (db_contexts db f) else ctx_subs (db_contexts db d))" for d
    by (simp add: handed_def takes_def)
  have nodes: "db_subs (handed f c nodes db) = nodes" by (simp add: handed_def)
  show ?thesis unfolding slots_ok_def nodes
  proof (intro conjI allI)
    show "distinct (map fst (subs_at nodes p))" for p unfolding n by (rule move_leaves_distinct [OF s(1) c])
    show "distinct (used_slots (ctx_subs (db_contexts (handed f c nodes db) d)))" for d
      unfolding ctx using s(2) by (simp add: used_slots_def)
    show "Some p \<in> set (ctx_subs (db_contexts (handed f c nodes db) d)) \<longleftrightarrow> d \<in> fst ` set (subs_at nodes p)" for d p
      unfolding ctx moved using s(3) [of p] assms(2) by simp
  qed
qed

lemma handed_broker_ok:
  assumes "broker_ok db" and "f \<noteq> c" and "ctx_subs (db_contexts db c) = []" "ctx_msgs (db_contexts db c) = []" "queue_wf (db_contexts db c)"
    and "ctx_id (db_contexts db f) = None" and "relists UNIV (move_leaves f c) (db_subs db) nodes"
  shows "broker_ok (handed f c nodes db)"
proof -
  let ?db = "handed f c nodes db"
  have b: "broker_inv {#} db" "filter_tree (db_subs db)" "slots_ok db" "topics_ok db" using assms(1) by (simp_all add: broker_ok_def)
  have sel: "db_stores ?db = db_stores db" "db_acl_patterns ?db = db_acl_patterns db" "db_msg_store ?db = db_msg_store db"
    "db_next_store ?db = db_next_store db" "db_msg_store_count ?db = db_msg_store_count db" "db_subs ?db = nodes" by (simp_all add: handed_def)
  have i: "db_inv (forest_refs (db_subs db)) db" using b(1) by (simp add: broker_inv_def)
  have q: "queue_ok (db_contexts db d)" for d by (rule db_invD(3) [OF i])
  have "queue_ok (db_contexts ?db d)" for d
    using takes_wf [OF q assms(5,4), of "db_max_inflight db" f] q [of d] assms(2,6)
    by (auto simp: handed_def queue_ok_def)
  then have "db_inv (forest_refs nodes) ?db"
    using i handed_refs [OF db_invD(2) [OF i] assms(2,4)] assms(7) by (simp add: db_inv_def store_inv_def sel relists_def)
  then have "broker_inv {#} ?db"
    using b(1) assms(7) by (simp add: broker_inv_def sel relists_def patterns_wf_def stores_ok_def retained_ok_def)
  moreover have "filter_tree nodes"
  proof -
    have "subs \<noteq> []" if "move_leaves f c subs \<noteq> []" for subs using that by (auto simp: move_leaves_def)
    then show ?thesis using b(2) assms(7) by (auto simp: filter_tree_def relists_def)
  qed
  ultimately show ?thesis using handed_slots [OF b(3) assms(2,3,7)] b(4) by (simp add: broker_ok_def sel topics_ok_def)
qed

lemma handed_core: "f \<noteq> c \<Longrightarrow> core (db_contexts (handed f c nodes db) d) = core (db_contexts db d)"
  by (simp add: handed_def)

lemma handed_live:
  assumes "live {c} db" and "f \<noteq> c" and "ctx_subs (db_contexts db c) = []" "ctx_msgs (db_contexts db c) = []" "queue_wf (db_contexts db c)"
    and "ctx_id (db_contexts db f) = None" and "relists UNIV (move_leaves f c) (db_subs db) nodes"
  shows "live {c} (handed f c nodes db)"
  unfolding live_def
proof (intro conjI allI impI)
  let ?db = "handed f c nodes db"
  have c: "core (db_contexts ?db d) = core (db_contexts db d)" for d by (rule handed_core [OF assms(2)])
  then have f: "ctx_id (db_contexts ?db d) = ctx_id (db_contexts db d)" "ctx_sock (db_contexts ?db d) = ctx_sock (db_contexts db d)"
    "ctx_listener (db_contexts ?db d) = ctx_listener (db_contexts db d)" "ctx_state (db_contexts ?db d) = ctx_state (db_contexts db d)" for d
    by (simp_all add: core_def)
  show "broker_ok ?db" by (rule handed_broker_ok [OF liveD(1) [OF assms(1)] assms(2-)])
  show "tables_ok ?db"
    by (rule tables_ok_same [OF liveD(2) [OF assms(1)]]) (use tables_okD(8) [OF liveD(2) [OF assms(1)]] f in \<open>simp_all add: db_tables_def\<close>)
  show "conn_ok (db_contexts ?db d)" for d using liveD(3) [OF assms(1), of d] conn_ok_core [OF c] by simp
  show "packet_ok (db_contexts ?db d)" if "d \<notin> {c}" for d using liveD(4) [OF assms(1) that] packet_ok_core [OF c] by simp
  show "idle_ok ?db d" if "d \<notin> {c}" for d
    using liveD(5) [OF assms(1) that] f(1) [of d] that by (auto simp: idle_ok_def idle_def handed_def gives_def queue_wf_def)
qed

end
