(* ===== verification/Mosq_Join.thy ===== *)
theory Mosq_Join
  imports Mosq_Takeover
begin

text \<open>
  CONNECT keeps the invariant of the running broker and returns, also when the new connection
  takes over the session of an earlier one.
\<close>

section \<open>The fields\<close>

lemma serve_refuse [serve]: "hvalid (att c i t n) (refuse e c result rc) Q (served c)"
  unfolding refuse_def by (intro serve send_conn_frame)

lemma serve_refuse_bind [serve]: "hvalid (att c i t n) (hbind (refuse e c result rc) K) Q (served c)"
  unfolding refuse_def hnorm by (intro serve send_conn_frame)

lemma serve_bind_raise [serve]: "hvalid (att c i t n) (hbind (hraise rc) K) Q (served c)"
  unfolding hnorm by (rule serve_raise)

lemma serve_bind_return [serve]: "hvalid P (K x) Q E \<Longrightarrow> hvalid P (hbind (hreturn x) K) Q E"
  by (simp add: hnorm)

lemma serve_set_done [serve]:
  "(\<And>m. same_queue m (f m)) \<Longrightarrow> (\<And>m. core (f m) = core m) \<Longrightarrow> n' \<le> n \<Longrightarrow> hvalid (att c i False n') (hset c f) (\<lambda>_. att c i False n) E"
  by (rule hvalid_last) (intro serve_set serve_done)

lemma protocol_serves: "hvalid (att c i False n) (connect_protocol e c) (\<lambda>_. att c i False n) (served c)"
  unfolding connect_protocol_def hnorm
  by (intro serve serve_done) (auto simp: same_queue_def core_def)

lemma will_qos_small: "will_qos_of flags \<noteq> 3 \<Longrightarrow> will_qos_of flags \<in> {0, 1, 2}"
proof -
  have "uint (flags AND 0x18 :: u8) \<le> uint (0x18 :: u8)" by (rule word_le_def [THEN iffD1]) (rule word_and_le1)
  then have "will_qos_of flags \<le> 3" by (simp add: will_qos_of_def drop_bit_eq_div uint_div)
  then show "will_qos_of flags \<noteq> 3 \<Longrightarrow> will_qos_of flags \<in> {0, 1, 2}"
    using uint_ge_0 [of "drop_bit 3 (flags AND 0x18 :: u8)"] unfolding will_qos_of_def insert_iff empty_iff by presburger
qed

lemma flags_serves:
  "hvalid (att c i False n) (connect_flags c) (\<lambda>flags db. will_qos_of flags \<noteq> 3 \<and> att c i False n db) (served c)"
  unfolding connect_flags_def hnorm
  by (intro serve hvalid_return) (auto simp: same_queue_def core_def elim: att_weaken)

lemma client_id_serves: "hvalid (att c i False n) (connect_client_id e c flags) (\<lambda>_. att c i False n) (served c)"
  unfolding connect_client_id_def client_id_gen_def Let_def hnorm
  by (intro serve) (auto split: option.split intro!: serve serve_done)

lemma mounted_nul_free: "mounted topic topic' \<Longrightarrow> nul_free topic \<Longrightarrow> nul_free topic'"
  by (auto simp: mounted_def mount_ok_def nul_free_def)

lemma will_serves:
  assumes "mounts_ok e" and "will_qos_of flags \<noteq> 3"
  shows "hvalid (att c i False n) (connect_will e c flags) (\<lambda>will db. pred_option will_ok will \<and> att c i False n db) (served c)"
  unfolding connect_will_def hnorm
proof (intro serve serve_mount [OF assms(1)] serve_read [OF reads_bytes] hvalid_return)
  fix payloadlen :: u16
  show "unat (ucast payloadlen :: u32) \<le> MQTT_MAX_PAYLOAD" using u16_lt [of payloadlen] by simp
qed (use will_qos_small [OF assms(2)] in \<open>auto simp: will_ok_def topic_checked [OF _ mounted_nul_free] elim: att_weaken\<close>)

lemma serve_read_rc:
  assumes "reads rd k Q" and "\<And>rc. hvalid (att c i t n) (K (Inl rc)) R E"
    and "\<And>x n'. n' \<le> n \<Longrightarrow> hvalid (att c i t n') (K (Inr x)) R E"
  shows "hvalid (att c i t n) (hbind (hread_rc c rd) K) R E"
proof (rule hvalid_bind [OF hvalid_read_rc [OF assms(1)]])
  fix r
  show "hvalid (\<lambda>db. case r of Inl _ \<Rightarrow> att c i t n db | Inr x \<Rightarrow> Q x \<and> k \<le> n \<and> att c i t (n - k) db) (K r) R E"
    using assms(2) assms(3) [of "n - k"] by (cases r) (simp_all, intro hvalid_pure)
qed

lemma login_serves: "hvalid (att c i False n) (connect_login e c flags) (\<lambda>_. att c i False n) (served c)"
  unfolding connect_login_def
proof (intro serve serve_read_rc [OF reads_string]; (simp only: sum.case)?)
  fix n' username protocol assume n: "n' \<le> n"
  show "hvalid (att c i False n') (if flags AND 0x40 \<noteq> 0
      then hbind (hread_rc c (read_c_string (env_malloc e))) (\<lambda>r. case r of
          Inl rc \<Rightarrow> if rc = MOSQ_ERR_NOMEM then hraise MOSQ_ERR_NOMEM
            else if rc = MOSQ_ERR_PROTOCOL \<and> protocol = mosq_p_mqtt311 then hraise MOSQ_ERR_PROTOCOL else hreturn (True, Some username, None)
        | Inr password \<Rightarrow> hreturn (True, Some username, Some password))
      else hreturn (True, Some username, None)) (\<lambda>_. att c i False n) (served c)"
    by (intro serve serve_done serve_read_rc [OF reads_string]; (simp only: sum.case)?; (intro serve serve_done)?; use n in simp)
qed (intro serve serve_done; simp)+

lemma serve_drop:
  assumes "att c i t n db"
  shows "served c (mqtt3_context_disconnect e c db)"
  unfolding served_def
  using context_disconnect_live [OF attD(2) [OF assms]] context_disconnect_facts(7) [OF attD(2) [OF assms] attD(7) [OF assms]] by blast

lemma auth_serves: "hvalid (att c i False n) (connect_auth e c username_flag username password) (\<lambda>_. att c i False n) (served c)"
proof -
  have drop: "hvalid (att c i False n) (hbind (hupd (mqtt3_context_disconnect e c)) (\<lambda>_. hraise 1)) Q (served c)" for Q :: "unit \<Rightarrow> mosquitto_db \<Rightarrow> bool"
    by (rule hvalid_bind [OF hvalid_upd hvalid_raise]) (auto intro: serve_drop)
  show ?thesis unfolding connect_auth_def hnorm
    by (intro serve drop serve_done send_conn_frame) (simp_all add: same_queue_def core_def)
qed

lemma username_id_serves: "hvalid (att c i False n) (connect_username_id e c client_id) (\<lambda>_. att c i False n) (served c)"
  unfolding connect_username_id_def
  by (intro serve serve_done) (auto split: option.split intro!: serve serve_done)

lemma serve_connections [serve]:
  assumes "hvalid (att c i t n) (K ()) R E"
  shows "hvalid (att c i t n) (hbind (hupd (\<lambda>db. db\<lparr>db_connection_count := f db\<rparr>)) K) R E"
proof (rule hvalid_bind)
  show "hvalid (att c i t n) (hupd (\<lambda>db. db\<lparr>db_connection_count := f db\<rparr>)) (\<lambda>_. att c i t n) E"
  proof (rule hvalid_upd)
    fix db assume a: "att c i t n db"
    have "frame db (db\<lparr>db_connection_count := f db\<rparr>)" by (simp add: frame_same db_tables_def)
    from att_frame [OF a _ this] show "att c i t n (db\<lparr>db_connection_count := f db\<rparr>)"
      using a attD(3) [OF a] by (simp add: att_def named_topics_def)
  qed
qed (use assms in simp)

text \<open>Up to the search for an earlier session only the new connection is changed.\<close>

definition apart :: "ctxid \<Rightarrow> mosquitto_db \<Rightarrow> mosquitto_db \<Rightarrow> bool" where
  "apart c db db' \<longleftrightarrow> db_stores db' = db_stores db \<and> db_acl_list db' = db_acl_list db \<and> db_acl_patterns db' = db_acl_patterns db
     \<and> (\<forall>d. d \<noteq> c \<longrightarrow> db_contexts db' d = db_contexts db d)"

definition within :: "ctxid \<Rightarrow> 'a handler \<Rightarrow> bool" where
  "within c h \<longleftrightarrow> (\<forall>db x db'. h db = Some (Inr x, db') \<longrightarrow> apart c db db')"

named_theorems within

lemma apart_refl: "apart c db db"
  by (simp add: apart_def)

lemma apart_trans: "apart c db db' \<Longrightarrow> apart c db' db'' \<Longrightarrow> apart c db db''"
  by (simp add: apart_def)

lemma apart_upd: "apart c db (upd_ctx c f db)"
  by (simp add: apart_def)

lemma within_steps [within]:
  "within c (hreturn x)" "within c (hraise rc)" "within c (hget g)" "within c (hctx d k)" "within c (hset c f)"
  "within c (halloc e n rc)" "within c (hupd (\<lambda>db. db\<lparr>db_connection_count := j db\<rparr>))"
  by (simp_all add: within_def hreturn_def hraise_def hget_def hctx_def hset_def hupd_def halloc_def apart_refl apart_upd)
    (simp_all add: apart_def)

lemma within_send [within]: "within c (hsend c f)"
  by (auto simp: within_def hsend_def hcall_def apart_upd split: prod.splits)

lemma within_bind [within]:
  assumes "within c h" and "\<And>x. within c (k x)"
  shows "within c (hbind h k)"
  using assms unfolding within_def hbind_def
  by (simp split: option.splits sum.splits prod.splits) (meson apart_trans)

lemma within_if [within]: "(b \<Longrightarrow> within c h) \<Longrightarrow> (\<not> b \<Longrightarrow> within c h') \<Longrightarrow> within c (if b then h else h')"
  by simp

lemma within_when [within]: "within c h \<Longrightarrow> within c (hwhen b h)"
  unfolding hwhen_def by (intro within)

lemma within_option [within]: "within c h \<Longrightarrow> (\<And>x. within c (k x)) \<Longrightarrow> within c (case v of None \<Rightarrow> h | Some x \<Rightarrow> k x)"
  by (cases v) simp_all

lemma within_sum [within]: "(\<And>x. within c (h x)) \<Longrightarrow> (\<And>x. within c (k x)) \<Longrightarrow> within c (case v of Inl x \<Rightarrow> h x | Inr x \<Rightarrow> k x)"
  by (cases v) simp_all

lemma within_read [within]: "within c (hread_rc c rd)"
  by (auto simp: within_def hread_rc_def apart_upd split: prod.splits cres.splits)

lemma within_readers [within]: "within c (hread_or f c rd)" "within c (hmount e c topic)"
  unfolding hread_or_def hmount_def by (intro within)+

lemma within_raises [within]: "within c (hbind h (\<lambda>_. hraise rc))"
  by (simp add: within_def hbind_def hraise_def split: option.split sum.split)

lemmas connect_fields_def = connect_protocol_def connect_flags_def connect_client_id_def connect_will_def connect_login_def
  connect_auth_def connect_username_id_def client_id_gen_def refuse_def Let_def

lemma connect_fields_within:
  "within c (connect_protocol e c)" "within c (connect_flags c)" "within c (connect_client_id e c flags)" "within c (connect_will e c flags)"
  "within c (connect_login e c flags)" "within c (connect_auth e c username_flag username password)" "within c (connect_username_id e c client_id)"
  unfolding connect_fields_def hignore_def by (intro within)+

lemma hvalid_within:
  assumes "hvalid P h Q E" and "within c h" and "\<And>db db'. G db \<Longrightarrow> apart c db db' \<Longrightarrow> G db'"
  shows "hvalid (\<lambda>db. P db \<and> G db) h (\<lambda>x db. Q x db \<and> G db) E"
  using assms unfolding hvalid_def within_def by (fastforce split: option.splits sum.splits)

section \<open>The session\<close>

text \<open>
  The messages that wait for a client may be read by whoever connects with its identifier, so that
  nothing is taken out of the queue of a session that is taken over.
\<close>

definition may_read :: "mosq_env \<Rightarrow> mosquitto_db \<Rightarrow> string \<Rightarrow> storeid \<Rightarrow> bool" where
  "may_read e db client s \<longleftrightarrow> (\<forall>m. ctx_id m = Some client \<longrightarrow> ctx_bridge m = None \<longrightarrow>
     acl_check_stored e db m (store_topic (db_stores db s)) MOSQ_ACL_READ = Some MOSQ_ERR_SUCCESS)"

definition readable :: "mosq_env \<Rightarrow> string \<Rightarrow> mosquitto_db \<Rightarrow> ctxid \<Rightarrow> bool" where
  "readable e client db f \<longleftrightarrow>
     (\<forall>msg \<in> set (ctx_msgs (db_contexts db f)). cmsg_direction msg = mosq_md_out \<longrightarrow> may_read e db client (cmsg_store msg))"

definition sessions_readable :: "mosq_env \<Rightarrow> ctxid \<Rightarrow> mosquitto_db \<Rightarrow> bool" where
  "sessions_readable e c db \<longleftrightarrow> (\<forall>f client. f \<noteq> c \<longrightarrow> ctx_id (db_contexts db f) = Some client \<longrightarrow> readable e client db f)"

lemma may_read_same:
  assumes "db_stores db' = db_stores db" "db_acl_list db' = db_acl_list db" "db_acl_patterns db' = db_acl_patterns db"
  shows "may_read e db' client s = may_read e db client s"
proof -
  have "acl_check_stored e db' m topic access = acl_check_stored e db m topic access" for m topic access
    using assms by (simp add: acl_check_stored_def mosquitto_acl_check_def mosquitto_acl_check_default_def split: option.split)
  then show ?thesis using assms(1) by (simp add: may_read_def)
qed

lemma sessions_readable_apart: "sessions_readable e c db \<Longrightarrow> apart c db db' \<Longrightarrow> sessions_readable e c db'"
  using may_read_same [of db' db] by (simp add: sessions_readable_def readable_def apart_def)

lemma readable_same_msgs:
  assumes "readable e client db f" and "same_msgs (ctx_msgs (db_contexts db' c)) (ctx_msgs (db_contexts db f))"
    and "db_stores db' = db_stores db" "db_acl_list db' = db_acl_list db" "db_acl_patterns db' = db_acl_patterns db"
  shows "readable e client db' c"
  unfolding readable_def may_read_same [OF assms(3-5)]
proof (intro ballI impI)
  fix msg assume msg: "msg \<in> set (ctx_msgs (db_contexts db' c))" "cmsg_direction msg = mosq_md_out"
  then obtain k where k: "k < length (ctx_msgs (db_contexts db' c))" "msg = ctx_msgs (db_contexts db' c) ! k" by (auto simp: in_set_conv_nth)
  then have "cmsg_store msg = cmsg_store (ctx_msgs (db_contexts db f) ! k)" "cmsg_direction (ctx_msgs (db_contexts db f) ! k) = mosq_md_out"
    "ctx_msgs (db_contexts db f) ! k \<in> set (ctx_msgs (db_contexts db f))"
    using assms(2) msg(2) by (auto simp: same_msgs_def list_all2_conv_all_nth)
  then show "may_read e db client (cmsg_store msg)" using assms(1) by (simp add: readable_def)
qed

text \<open>The new connection holds its session but has no identifier yet, and the identifier is free.\<close>

definition joined :: "mosq_env \<Rightarrow> ctxid \<Rightarrow> string \<Rightarrow> mosquitto_db \<Rightarrow> bool" where
  "joined e c client_id db \<longleftrightarrow> live {c} db \<and> 0 \<le> ctx_sock (db_contexts db c) \<and> ctx_id (db_contexts db c) = None
     \<and> queue_wf (db_contexts db c) \<and> client_id \<notin> fst ` set (db_contexts_by_id db) \<and> readable e client_id db c"

lemma att_new:
  assumes "att c True t n db"
  shows "ctx_msgs (db_contexts db c) = []" "ctx_subs (db_contexts db c) = []" "queue_wf (db_contexts db c)"
proof -
  have "c \<notin> set (db_ll_for_free db)" using tables_okD(6) [OF liveD(2) [OF attD(2) [OF assms]]] attD(5) [OF assms] by auto
  then have "idle (db_contexts db c)" using attD(6,7) [OF assms] by (simp add: idle_ok_def)
  then show "ctx_msgs (db_contexts db c) = []" "ctx_subs (db_contexts db c) = []" "queue_wf (db_contexts db c)"
    using attD(5) [OF assms] by (simp_all add: idle_def)
qed

lemma clean_live:
  assumes "att c True t n db"
  shows "att c True t n (upd_ctx c (\<lambda>m. m\<lparr>ctx_clean_session := b\<rparr>) db)"
proof -
  note l = attD(2) [OF assms]
  have "live {c} (upd_ctx c (\<lambda>m. m\<lparr>ctx_clean_session := b\<rparr>) db)"
  proof (rule live_upd [OF l])
    show "conn_ok (db_contexts db c\<lparr>ctx_clean_session := b\<rparr>)"
      by (rule conn_ok_cong [OF liveD(3) [OF l, of c]]) (use conn_okD(7) [OF liveD(3) [OF l, of c]] in \<open>auto simp: pred_option_def\<close>)
  qed (use tables_okD(8) [OF liveD(2) [OF l]] in \<open>simp_all add: same_queue_def\<close>)
  then show ?thesis using assms by (auto simp: att_def served_def idle_ok_def idle_def named_topics_def queue_wf_def)
qed

lemma session_joined:
  assumes a: "att c True t n db" and found: "map_of (db_contexts_by_id db) client_id = Some f"
    and readable: "sessions_readable e c db"
  shows "joined e c client_id (retire e f db)"
    and "joined e c client_id (retire e f (take_subs f c (take_messages f c db)))"
proof -
  note l = attD(2) [OF a] and idle = att_new [OF a]
  have id: "ctx_id (db_contexts db f) = Some client_id"
    using map_of_SomeD [OF found] tables_okD(2) [OF liveD(2) [OF l]] by blast
  then have f: "f \<noteq> c" "ctx_id (db_contexts db f) \<noteq> None" using attD(6) [OF a] by auto
  note r = retire_facts [OF l f(2), where e = e] and rl = retire_live(1) [OF l f(2), of e]
  have c: "db_contexts (retire e f db) c = db_contexts db c" using r(1) [of c] f(1) by simp
  show "joined e c client_id (retire e f db)"
    using rl r(3) id c idle attD(5,6) [OF a] by (simp add: joined_def readable_def)
  obtain nodes where nodes: "take_subs f c (take_messages f c db) = handed f c nodes db" "relists UNIV (move_leaves f c) (db_subs db) nodes"
    using take_session [OF attD(3) [OF a] f(1) idle(3,1)] by blast
  have h: "live {c} (handed f c nodes (retire e f db))"
    by (rule handed_live [OF rl f(1)]) (use c idle r(2) nodes(2) in \<open>simp_all add: r(4)\<close>)
  have m: "db_contexts (handed f c nodes (retire e f db)) c = takes (db_max_inflight (retire e f db)) (db_contexts (retire e f db) f) (db_contexts db c)"
    using f(1) by (simp add: handed_def c)
  then have "core (db_contexts (handed f c nodes (retire e f db)) c) = core (db_contexts db c)" by simp
  then have "0 \<le> ctx_sock (db_contexts (handed f c nodes (retire e f db)) c)" "ctx_id (db_contexts (handed f c nodes (retire e f db)) c) = None"
    using attD(5,6) [OF a] by (simp_all add: core_def)
  moreover have "queue_wf (db_contexts (handed f c nodes (retire e f db)) c)"
    unfolding m by (rule takes_wf [OF broker_ok_queue_ok [OF liveD(1) [OF rl]] idle(3,1)])
  moreover have "readable e client_id (handed f c nodes (retire e f db)) c"
  proof (rule readable_same_msgs)
    show "readable e client_id db f" using readable f(1) id by (simp add: sessions_readable_def)
    show "same_msgs (ctx_msgs (db_contexts (handed f c nodes (retire e f db)) c)) (ctx_msgs (db_contexts db f))"
      unfolding m takes_def by (simp add: reset_queue_def r(5) reset_queue_same)
  qed (simp_all add: handed_def r(6-8))
  ultimately show "joined e c client_id (retire e f (take_subs f c (take_messages f c db)))"
    unfolding nodes(1) retire_handed [OF f(1)] using h r(3) id by (simp add: joined_def)
qed

lemma session_serves:
  "hvalid (\<lambda>db. att c True False n db \<and> sessions_readable e c db) (connect_session e c client_id clean_session) (\<lambda>_. joined e c client_id) (served c)"
  unfolding hvalid_def
proof (intro allI impI)
  fix db assume as: "att c True False n db \<and> sessions_readable e c db"
  then have a: "att c True False n db" by blast
  show "case connect_session e c client_id clean_session db of None \<Rightarrow> False | Some (Inl rc, db') \<Rightarrow> served c db' | Some (Inr x, db') \<Rightarrow> joined e c client_id db'"
  proof (cases "map_of (db_contexts_by_id db) client_id")
    case None
    then have "joined e c client_id db" using attD(2,5,6) [OF a] att_new [OF a] by (simp add: joined_def map_of_eq_None_iff readable_def)
    then show ?thesis using None by (simp add: connect_session_def hbind_def hget_def hreturn_def)
  next
    case (Some f)
    let ?db = "upd_ctx c (\<lambda>m. m\<lparr>ctx_clean_session := clean_session\<rparr>) db"
    have "map_of (db_contexts_by_id ?db) client_id = Some f" using Some by simp
    note j = session_joined [OF clean_live [OF a] this sessions_readable_apart [OF conjunct2 [OF as] apart_upd]]
    show ?thesis using Some j
      by (cases clean_session) (auto simp: connect_session_def hbind_def hget_def hreturn_def hctx_def hset_def hupd_def hwhen_def)
  qed
qed

section \<open>Accepting the connection\<close>

lemma prune_none:
  "(\<And>msg. msg \<in> set (drop i (ctx_msgs (db_contexts db c))) \<Longrightarrow> cmsg_direction msg = mosq_md_out \<Longrightarrow>
      acl_check_stored e db (db_contexts db c) (store_topic (db_stores db (cmsg_store msg))) MOSQ_ACL_READ = Some MOSQ_ERR_SUCCESS)
   \<Longrightarrow> prune_loop_acl e c i db = db"
proof (induction "length (ctx_msgs (db_contexts db c)) - i" arbitrary: i)
  case 0
  then show ?case by (subst prune_loop_acl.simps) simp
next
  case (Suc n)
  let ?msgs = "ctx_msgs (db_contexts db c)"
  have i: "i < length ?msgs" using Suc.hyps(2) by simp
  then have d: "drop i ?msgs = ?msgs ! i # drop (Suc i) ?msgs" by (simp add: Cons_nth_drop_Suc)
  have "prune_loop_acl e c (Suc i) db = db" by (rule Suc.hyps(1)) (use Suc.hyps(2) Suc.prems d in auto)
  then show ?case using i Suc.prems [of "?msgs ! i"] d by (subst prune_loop_acl.simps) (simp add: Let_def)
qed

lemma joinedD:
  assumes "joined e c client_id db"
  shows "live {c} db" "0 \<le> ctx_sock (db_contexts db c)" "ctx_id (db_contexts db c) = None"
    "queue_wf (db_contexts db c)" "client_id \<notin> fst ` set (db_contexts_by_id db)" "readable e client_id db c"
  using assms by (simp_all add: joined_def)

lemma joined_upd:
  assumes j: "joined e c client_id db" and "same_queue (db_contexts db c) (f (db_contexts db c))"
    and "core (f (db_contexts db c)) = core (db_contexts db c\<lparr>ctx_will := ctx_will (f (db_contexts db c))\<rparr>)"
    and "pred_option will_ok (ctx_will (f (db_contexts db c)))"
  shows "joined e c client_id (upd_ctx c f db)"
proof -
  let ?m = "db_contexts db c" and ?m' = "f (db_contexts db c)"
  have c: "ctx_id ?m' = ctx_id ?m" "ctx_sock ?m' = ctx_sock ?m" "ctx_listener ?m' = ctx_listener ?m" "ctx_state ?m' = ctx_state ?m"
    using assms(3) by (simp_all add: core_def)
  have "conn_ok (?m\<lparr>ctx_will := ctx_will ?m'\<rparr>)" by (rule conn_ok_cong [OF liveD(3) [OF joinedD(1) [OF j], of c]]) (simp_all add: assms(4))
  then have "conn_ok ?m'" using conn_ok_core [OF assms(3)] by simp
  then have "live {c} (upd_ctx c f db)"
    by (intro live_upd [OF joinedD(1) [OF j]] assms(2)) (use c tables_okD(8) [OF liveD(2) [OF joinedD(1) [OF j]]] in auto)
  moreover have "queue_wf ?m'" using joinedD(4) [OF j] assms(2) by (simp add: queue_wf_def same_queue_def)
  moreover have "readable e client_id (upd_ctx c f db) c"
    by (rule readable_same_msgs [OF joinedD(6) [OF j]]) (use assms(2) in \<open>simp_all add: same_queue_def\<close>)
  ultimately show ?thesis using joinedD(2,3,5) [OF j] c by (simp add: joined_def)
qed

lemma connect_acl_joined: "joined e c client_id db \<Longrightarrow> joined e c client_id (connect_acl c db)"
  using joined_upd [of e c client_id db "\<lambda>m. m\<lparr>ctx_acl_list := u\<rparr>" for u] conn_okD(7) [OF liveD(3) [OF joinedD(1)], of e c client_id db c]
  by (auto simp: connect_acl_def same_queue_def core_def pred_option_def split: option.split)

text \<open>The connection gets its identifier and its entry in the table, and its state.\<close>

definition entered :: "string \<Rightarrow> mosquitto \<Rightarrow> mosquitto \<Rightarrow> bool" where
  "entered client_id m m' \<longleftrightarrow> same_queue m m' \<and> ctx_id m' = Some client_id \<and> ctx_state m' = mosq_cs_connected \<and> ctx_sock m' = ctx_sock m
     \<and> ctx_listener m' = ctx_listener m \<and> ctx_bridge m' = ctx_bridge m \<and> ctx_will m' = ctx_will m"

lemma enter_tables:
  assumes "joined e c client_id db" and "entered client_id (db_contexts db c) (f (db_contexts db c))"
  shows "tables_ok ((upd_ctx c f db)\<lparr>db_contexts_by_id := db_contexts_by_id db @ [(client_id, c)]\<rparr>)"
proof -
  note t = tables_okD [OF liveD(2) [OF joinedD(1) [OF assms(1)]]] and j = joinedD [OF assms(1)]
  have f: "ctx_id (f (db_contexts db c)) = Some client_id" "ctx_sock (f (db_contexts db c)) = ctx_sock (db_contexts db c)"
    "ctx_listener (f (db_contexts db c)) = ctx_listener (db_contexts db c)" using assms(2) by (simp_all add: entered_def)
  have c: "ctx_sock (db_contexts (upd_ctx c f db) d) = ctx_sock (db_contexts db d)"
    "ctx_listener (db_contexts (upd_ctx c f db) d) = ctx_listener (db_contexts db d)" for d using f by simp_all
  have "c \<notin> set (db_ll_for_free db)" using t(6) j(2) by auto
  moreover have "(i, d) \<in> set (db_contexts_by_id db @ [(client_id, c)]) \<longleftrightarrow> ctx_id (db_contexts (upd_ctx c f db) d) = Some i" for i d
    using t(2) [of i d] j(3) f(1) by auto
  moreover have "distinct (map fst (db_contexts_by_id db @ [(client_id, c)]))" using t(1) j(5) by simp
  ultimately show ?thesis unfolding tables_ok_def using t(3-9) c by simp
qed

lemma enter_live:
  assumes "joined e c client_id db" and "entered client_id (db_contexts db c) (f (db_contexts db c))"
  shows "live {c} ((upd_ctx c f db)\<lparr>db_contexts_by_id := db_contexts_by_id db @ [(client_id, c)]\<rparr>)"
  unfolding live_def
proof (intro conjI allI impI)
  show "tables_ok ((upd_ctx c f db)\<lparr>db_contexts_by_id := db_contexts_by_id db @ [(client_id, c)]\<rparr>)"
    by (rule enter_tables) (rule assms)+
  note j = joinedD [OF assms(1)] and l = joinedD(1) [OF assms(1)]
  have "broker_ok (upd_ctx c f db)" by (rule broker_ok_same_queue [OF liveD(1) [OF l]]) (use assms(2) j(4) in \<open>simp_all add: entered_def\<close>)
  then show "broker_ok ((upd_ctx c f db)\<lparr>db_contexts_by_id := db_contexts_by_id db @ [(client_id, c)]\<rparr>)" by simp
  have o: "conn_ok (db_contexts db c)" by (rule liveD(3) [OF l])
  have "pred_option will_ok (ctx_will (db_contexts db c))" using conn_okD(7) [OF o] by (auto simp: pred_option_def)
  then have "conn_ok (f (db_contexts db c))"
    using assms(2) conn_okD(1) [OF o] j(2) by (simp add: entered_def conn_ok_def)
  then show "conn_ok (db_contexts ((upd_ctx c f db)\<lparr>db_contexts_by_id := db_contexts_by_id db @ [(client_id, c)]\<rparr>) d)" for d
    using liveD(3) [OF l, of d] by simp
  show "packet_ok (db_contexts ((upd_ctx c f db)\<lparr>db_contexts_by_id := db_contexts_by_id db @ [(client_id, c)]\<rparr>) d)" if "d \<notin> {c}" for d
    using liveD(4) [OF l that] that by simp
  show "idle_ok ((upd_ctx c f db)\<lparr>db_contexts_by_id := db_contexts_by_id db @ [(client_id, c)]\<rparr>) d" if "d \<notin> {c}" for d
    using liveD(5) [OF l that] that by (simp add: idle_ok_def)
qed

lemma live_changes [simp]: "live A (db\<lparr>db_persistence_changes := n\<rparr>) = live A db"
  by (simp add: live_def tables_ok_def idle_ok_def)

definition named :: "string \<Rightarrow> bool \<Rightarrow> u8 \<Rightarrow> mosquitto \<Rightarrow> mosquitto" where
  "named client_id clean_session protocol_version m =
     m\<lparr>ctx_id := Some client_id, ctx_clean_session := clean_session, ctx_ping_t := 0, ctx_is_dropping := False,
       ctx_is_bridge := (if protocol_version AND 0x80 = 0x80 then True else ctx_is_bridge m)\<rparr>"

definition enter :: "ctxid \<Rightarrow> string \<Rightarrow> bool \<Rightarrow> u8 \<Rightarrow> mosquitto_db \<Rightarrow> mosquitto_db" where
  "enter c client_id clean_session protocol_version db =
     (upd_ctx c (\<lambda>m. (named client_id clean_session protocol_version m)\<lparr>ctx_state := mosq_cs_connected\<rparr>) db)
       \<lparr>db_contexts_by_id := db_contexts_by_id db @ [(client_id, c)],
        db_persistence_changes := (if clean_session then db_persistence_changes db else db_persistence_changes db + 1)\<rparr>"

lemma enter_unpruned:
  assumes "joined e c client_id db"
  shows "prune_loop_acl e c 0 (upd_ctx c (named client_id clean_session protocol_version) db) = upd_ctx c (named client_id clean_session protocol_version) db"
proof -
  have "readable e client_id (upd_ctx c (named client_id clean_session protocol_version) db) c"
    by (rule readable_same_msgs [OF joinedD(6) [OF assms]]) (simp_all add: named_def)
  then show ?thesis
    by (intro prune_none) (use conn_okD(1) [OF liveD(3) [OF joinedD(1) [OF assms], of c]] in \<open>auto simp: readable_def may_read_def named_def\<close>)
qed

lemma connack_served:
  assumes "joined e c client_id db" and m: "m = db_contexts (enter c client_id clean_session protocol_version db) c"
  shows "served c (upd_ctx c (\<lambda>_. snd (mosquitto_send_connack e m ack 0)) (enter c client_id clean_session protocol_version db))"
proof -
  let ?db = "enter c client_id clean_session protocol_version db"
  have "live {c} ((upd_ctx c (\<lambda>m. (named client_id clean_session protocol_version m)\<lparr>ctx_state := mosq_cs_connected\<rparr>) db)
      \<lparr>db_contexts_by_id := db_contexts_by_id db @ [(client_id, c)]\<rparr>)"
    by (rule enter_live [OF assms(1)]) (simp add: entered_def same_queue_def named_def)
  then have l: "live {c} ?db" by (simp add: enter_def)
  have f: "conn_frame (snd (mosquitto_send_connack e m ack 0)) = conn_frame (db_contexts ?db c)" using m by simp
  have "ctx_id (snd (mosquitto_send_connack e m ack 0)) = ctx_id (db_contexts ?db c)" using conn_frame_sel(2) f by metis
  then show ?thesis using live_conn [OF l f] by (simp add: served_def idle_ok_def enter_def named_def)
qed

lemma enter_eq:
  "upd_ctx c (\<lambda>m. m\<lparr>ctx_state := mosq_cs_connected\<rparr>) ((upd_ctx c (named client_id True v) db)\<lparr>db_contexts_by_id := db_contexts_by_id db @ [(client_id, c)]\<rparr>)
     = enter c client_id True v db"
  "upd_ctx c (\<lambda>m. m\<lparr>ctx_state := mosq_cs_connected\<rparr>)
     (count_change ((upd_ctx c (named client_id False v) db)\<lparr>db_contexts_by_id := db_contexts_by_id db @ [(client_id, c)]\<rparr>))
     = enter c client_id False v db"
  by (rule mosquitto_db.equality; simp add: enter_def count_change_def upd_ctx_def)+

lemma accept_serves:
  assumes "pred_option will_ok will"
  shows "hvalid (joined e c client_id) (connect_accept e c client_id clean_session protocol_version will ack) (\<lambda>_. served c) E"
  unfolding hvalid_def
proof (intro allI impI)
  fix db assume j: "joined e c client_id db"
  define db2 where "db2 = upd_ctx c (\<lambda>m. case will of None \<Rightarrow> m | Some _ \<Rightarrow> m\<lparr>ctx_will := will\<rparr>) (connect_acl c db)"
  note ja = connect_acl_joined [OF j]
  have j2: "joined e c client_id db2" unfolding db2_def
    by (rule joined_upd [OF ja]) (use assms conn_okD(7) [OF liveD(3) [OF joinedD(1) [OF ja], of c]] in
      \<open>auto simp: same_queue_def core_def pred_option_def split: option.splits\<close>)
  note prune = enter_unpruned [OF j2, of clean_session protocol_version]
  have "connect_accept e c client_id clean_session protocol_version will ack db
      = hsend c (\<lambda>m. mosquitto_send_connack e m ack 0) (enter c client_id clean_session protocol_version db2)"
    using prune
    by (cases clean_session) (simp_all add: connect_accept_def hbind_def hupd_def hset_def hwhen_def hreturn_def enter_eq
      flip: db2_def named_def)
  then show "case connect_accept e c client_id clean_session protocol_version will ack db of None \<Rightarrow> False
      | Some (Inl rc, db') \<Rightarrow> E db' | Some (Inr x, db') \<Rightarrow> served c db'"
    using connack_served [OF j2 refl] by (simp add: hsend_def hcall_def split_beta)
qed

text \<open>CONNECT as a whole.\<close>

definition connecting :: "mosq_env \<Rightarrow> ctxid \<Rightarrow> nat \<Rightarrow> mosquitto_db \<Rightarrow> bool" where
  "connecting e c n db \<longleftrightarrow> att c True False n db \<and> sessions_readable e c db"

lemma connect_phase:
  assumes "hvalid (att c True False n) h (\<lambda>x db. Q x \<and> att c True False n db) (served c)" and "within c h"
    and "\<And>x. Q x \<Longrightarrow> hvalid (connecting e c n) (k x) R (served c)"
  shows "hvalid (connecting e c n) (hbind h k) R (served c)"
proof (rule hvalid_bind)
  have "hvalid (\<lambda>db. att c True False n db \<and> sessions_readable e c db) h
      (\<lambda>x db. (Q x \<and> att c True False n db) \<and> sessions_readable e c db) (served c)"
    by (rule hvalid_within [OF assms(1,2) sessions_readable_apart])
  then show "hvalid (connecting e c n) h (\<lambda>x db. Q x \<and> connecting e c n db) (served c)"
    by (rule hvalid_conseq) (simp_all add: connecting_def)
qed (intro hvalid_pure assms(3))

lemmas connect_phase_any = connect_phase [where Q = "\<lambda>_. True", simplified]

lemma connection_counted: "hvalid (att c i t n) (hupd (\<lambda>db. db\<lparr>db_connection_count := f db\<rparr>)) (\<lambda>_. att c i t n) E"
  by (rule hvalid_last) (intro serve hvalid_return)

lemma connect_serves:
  assumes "mounts_ok e"
  shows "hvalid (connecting e c n) (mqtt3_handle_connect e c) (\<lambda>_. served c) (served c)"
  unfolding mqtt3_handle_connect_def Let_def
proof (intro connect_phase_any [OF connection_counted] connect_phase_any [OF protocol_serves] connect_phase [OF flags_serves]
    connect_phase_any [OF client_id_serves] connect_phase [OF will_serves [OF assms]] connect_fields_within within_steps)
  show "hvalid (connecting e c n) (hbind (connect_login e c flags) (\<lambda>(username_flag, username, password).
     hbind (connect_auth e c username_flag username password) (\<lambda>_.
     hbind (connect_username_id e c client_id) (\<lambda>client_id.
     hbind (connect_session e c client_id (flags AND 2 \<noteq> 0)) (connect_accept e c client_id (flags AND 2 \<noteq> 0) version will))))) (\<lambda>_. served c) (served c)"
    if "pred_option will_ok will" for flags client_id version will
    unfolding split_beta
  proof (intro connect_phase_any [OF login_serves] connect_phase_any [OF auth_serves] connect_phase_any [OF username_id_serves] connect_fields_within)
    show "hvalid (connecting e c n) (hbind (connect_session e c client_id (flags AND 2 \<noteq> 0)) (connect_accept e c client_id (flags AND 2 \<noteq> 0) version will)) (\<lambda>_. served c) (served c)"
      for client_id
      unfolding connecting_def by (rule hvalid_bind [OF session_serves accept_serves [OF that]])
  qed
qed

end
