(* ===== verification/Mosq_Reach.thy ===== *)
theory Mosq_Reach
  imports Mosq_Join
begin

text \<open>
  Dispatch, reading and the main loop keep the invariant of the running broker and return.  What is
  reached from an empty broker by accepting connections and visiting them has the invariant.
\<close>

section \<open>Dispatch\<close>

lemma connect_again:
  "hvalid (att c False False n) (mqtt3_handle_connect e c) (\<lambda>_. served c) (served c)"
proof -
  have "hvalid (att c False False n) (hbind (connect_protocol e c) K) (\<lambda>_. served c) (served c)" for K :: "u8 \<Rightarrow> int handler"
    unfolding connect_protocol_def hbind_assoc
  proof (rule serve_ctx)
    fix m
    show "hvalid (\<lambda>db. m = db_contexts db c \<and> att c False False n db) (hbind (hwhen (ctx_state (id m) \<noteq> mosq_cs_new) (hraise MOSQ_ERR_PROTOCOL)) L) (\<lambda>_. served c) (served c)"
      for L :: "unit \<Rightarrow> int handler"
      unfolding hvalid_def
    proof (intro allI impI)
      fix db assume a: "m = db_contexts db c \<and> att c False False n db"
      then have "ctx_state m \<noteq> mosq_cs_new"
        using conn_okD(5) [OF liveD(3) [OF attD(2)], of c False False n db c] attD(6) [of c False False n db] by auto
      then show "case hbind (hwhen (ctx_state (id m) \<noteq> mosq_cs_new) (hraise MOSQ_ERR_PROTOCOL)) L db of None \<Rightarrow> False
          | Some (Inl rc, db') \<Rightarrow> served c db' | Some (Inr x, db') \<Rightarrow> served c db'"
        using a by (auto simp: hwhen_def hbind_def hraise_def)
    qed
  qed
  then show ?thesis unfolding mqtt3_handle_connect_def by (intro serve_connections)
qed

text \<open>A packet is complete; the first packet of a connection is CONNECT.\<close>

definition attended :: "mosq_env \<Rightarrow> ctxid \<Rightarrow> nat \<Rightarrow> mosquitto_db \<Rightarrow> bool" where
  "attended e c n db \<longleftrightarrow>
     (let m = db_contexts db c; command = pkt_command (ctx_in_packet m)
      in if ctx_id m = None then command AND 0xF0 = CONNECT \<and> connecting e c n db
         else att c False False n db \<and> (command AND 0xF0 = PUBLISH \<longrightarrow> publish_qos command = 1 \<longrightarrow> named_topics c db))"

lemma packet_handle_serves:
  assumes "mounts_ok e"
  shows "hvalid (attended e c n) (mqtt3_packet_handle e c) (\<lambda>_. served c) (served c)"
  unfolding hvalid_def
proof (intro allI impI)
  fix db assume a: "attended e c n db"
  let ?m = "db_contexts db c"
  let ?command = "pkt_command (ctx_in_packet ?m) AND 0xF0"
  have at: "case h db of None \<Rightarrow> False | Some (Inl rc, db') \<Rightarrow> served c db' | Some (Inr x, db') \<Rightarrow> served c db'"
    if "hvalid P h (\<lambda>_. served c) (served c)" "P db" for h :: "int handler" and P using that by (simp add: hvalid_def)
  show "case mqtt3_packet_handle e c db of None \<Rightarrow> False | Some (Inl rc, db') \<Rightarrow> served c db' | Some (Inr x, db') \<Rightarrow> served c db'"
  proof (cases "ctx_id ?m")
    case None
    then have "?command = CONNECT" "connecting e c n db" using a by (simp_all add: attended_def Let_def)
    then show ?thesis using at [OF connect_serves [OF assms]] by (simp add: mqtt3_packet_handle_def hbind_def hctx_def hget_def)
  next
    case (Some i)
    then have p: "att c False False n db" "?command = PUBLISH \<Longrightarrow> publishing c n db" using a by (auto simp: attended_def Let_def publishing_def)
    show ?thesis
      using at [OF pingreq_serves p(1)] at [OF pingresp_serves p(1)] at [OF pubackcomp_serves p(1)] at [OF publish_serves [OF assms] p(2)]
        at [OF pubrec_serves p(1)] at [OF pubrel_serves p(1)] at [OF connect_again p(1)] at [OF disconnect_serves p(1)]
        at [OF subscribe_serves [OF assms] p(1)] at [OF unsubscribe_serves p(1)] at [OF connack_serves p(1)] at [OF suback_serves p(1)]
        at [OF unsuback_serves p(1)] at [OF serve_raise p(1)]
      unfolding mqtt3_packet_handle_def hbind_def hctx_def hget_def by simp
  qed
qed

section \<open>Reading\<close>

lemma live_served: "served c db \<Longrightarrow> packet_ok (db_contexts db c) \<Longrightarrow> live {} db"
  by (auto simp: served_def live_def)

lemma live_is_served: "live {} db \<Longrightarrow> served c db"
  by (simp add: served_def live_def)

lemma finish_served:
  assumes "served c db"
  shows "live {} (upd_ctx c (finish_packet e) db)"
proof (rule live_served)
  let ?m = "db_contexts db c"
  have l: "live {c} db" using assms by (simp add: served_def)
  have q: "same_queue ?m (finish_packet e ?m)" by (simp add: finish_packet_def same_queue_def)
  have "conn_ok (finish_packet e ?m)"
    by (rule conn_ok_cong [OF liveD(3) [OF l, of c]]) (use conn_okD(7) [OF liveD(3) [OF l, of c]] in \<open>auto simp: finish_packet_def pred_option_def\<close>)
  then have "live {c} (upd_ctx c (finish_packet e) db)"
    by (intro live_upd [OF l] q) (use tables_okD(8) [OF liveD(2) [OF l]] in \<open>simp_all add: finish_packet_def\<close>)
  moreover have "idle_ok (upd_ctx c (finish_packet e) db) c"
    using assms same_queue_idle [OF q] by (simp add: served_def idle_ok_def finish_packet_def)
  ultimately show "served c (upd_ctx c (finish_packet e) db)" by (simp add: served_def)
  show "packet_ok (db_contexts (upd_ctx c (finish_packet e) db) c)"
    by (simp add: packet_ok_def finish_packet_def in_rest_cleanup) (simp add: mosquitto_packet_cleanup_def)
qed

text \<open>
  What reading from a connection relies on: a new client finds only messages that it may read, and a
  QoS 1 message does not reuse the identifier of a QoS 2 message that was refused.
\<close>

definition read_ok :: "mosq_env \<Rightarrow> ctxid \<Rightarrow> mosquitto_db \<Rightarrow> bool" where
  "read_ok e c db \<longleftrightarrow>
     (case packet_read_fill e (db_contexts db c) of
        (Some rc, m) \<Rightarrow> True
      | (None, m) \<Rightarrow>
          if ctx_id m = None then sessions_readable e c db
          else pkt_command (ctx_in_packet m) AND 0xF0 = PUBLISH \<longrightarrow> publish_qos (pkt_command (ctx_in_packet m)) = 1
             \<longrightarrow> named_topics c db)"

lemma read_served:
  assumes "live {} db" and "in_part m = in_part (db_contexts db c)"
  shows "served c (upd_ctx c (\<lambda>_. m) db)"
proof -
  note l = assms(1) and f = in_part_fields [OF assms(2)]
  have "conn_ok m" by (rule conn_ok_cong [OF liveD(3) [OF l, of c]]) (use f conn_okD(7) [OF liveD(3) [OF l, of c]] in \<open>auto simp: pred_option_def\<close>)
  moreover have "live {c} db" using l by (simp add: live_def)
  ultimately have "live {c} (upd_ctx c (\<lambda>_. m) db)"
    by (intro live_upd) (use f tables_okD(8) [OF liveD(2) [OF l]] in simp_all)
  moreover have "idle_ok (upd_ctx c (\<lambda>_. m) db) c"
    using liveD(5) [OF l, of c] f same_queue_idle [OF f(8)] by (simp add: idle_ok_def)
  ultimately show ?thesis by (simp add: served_def)
qed

lemma packet_read_returns:
  assumes "live {} db" and "mounts_ok e" and "malloc_ok (env_malloc e)" and "read_ok e c db"
  shows "\<exists>rc db'. mosquitto_packet_read e c db = Some (rc, db') \<and> served c db' \<and> (rc = 0 \<longrightarrow> live {} db')"
proof (cases "0 \<le> ctx_sock (db_contexts db c)")
  case False
  then have "ctx_sock (db_contexts db c) = INVALID_SOCKET" using conn_okD(2) [OF liveD(3) [OF assms(1)]] by simp
  then have "packet_read_fill e (db_contexts db c) = (Some MOSQ_ERR_NO_CONN, db_contexts db c)" by (simp add: packet_read_fill_def)
  then show ?thesis using read_served [OF assms(1) refl] by (simp add: mosquitto_packet_read_def)
next
  case True
  obtain r m where r: "packet_read_fill e (db_contexts db c) = (r, m)" by fastforce
  note fill = packet_read_fill_rest [OF r conn_okD(1) [OF liveD(3) [OF assms(1)]] liveD(4) [OF assms(1)] True assms(3)]
  have part: "in_part m = in_part (db_contexts db c)" using fill by blast
  note s = read_served [OF assms(1) part] and f = in_part_fields [OF part]
  show ?thesis
  proof (cases r)
    case (Some rc)
    then have "live {} (upd_ctx c (\<lambda>_. m) db)" if "rc = 0" using live_served [OF s] fill that by simp
    then show ?thesis using Some r s by (simp add: mosquitto_packet_read_def)
  next
    case None
    let ?db = "upd_ctx c (\<lambda>_. m) db"
    have "attended e c (length (pkt_rest (ctx_in_packet m))) ?db"
    proof (cases "ctx_id m = None")
      case new: True
      then have "pkt_command (ctx_in_packet m) AND 0xF0 = CONNECT"
        using fill None conn_okD(6) [OF liveD(3) [OF assms(1), of c] True] f(4) by simp
      moreover have "sessions_readable e c ?db"
        using assms(4) r None new sessions_readable_apart [OF _ apart_upd] by (simp add: read_ok_def)
      ultimately show ?thesis using new s fill None True f(3) by (simp add: attended_def connecting_def att_def)
    next
      case False
      then show ?thesis using s fill None True f(3,8) assms(4) r
        by (auto simp: attended_def att_def read_ok_def named_topics_def same_queue_def)
    qed
    from hvalid_run [OF packet_handle_serves [OF assms(2)] this] obtain rc db'
      where h: "hrun (mqtt3_packet_handle e c) ?db = Some (rc, db')" "served c db'" by blast
    have l: "live {} (upd_ctx c (finish_packet e) db')" by (rule finish_served [OF h(2)])
    then show ?thesis using r None h(1) live_is_served [OF l] by (simp add: mosquitto_packet_read_def)
  qed
qed

lemma disconnect_live: "served c db \<Longrightarrow> live {} (do_disconnect e c db)"
  using served_disconnect [of c db e] do_disconnect_facts(1) [of "{c}" db e c] live_served [of c "do_disconnect e c db"]
  by (simp add: served_def packet_ok_def)

lemma handle_read_live:
  assumes "live {} db" and "mounts_ok e" and "malloc_ok (env_malloc e)" and "read_ok e c db"
  shows "\<exists>db'. loop_handle_read e events c db = Some db' \<and> live {} db'"
proof -
  obtain rc db1 where r: "mosquitto_packet_read e c db = Some (rc, db1)" "served c db1" "rc = 0 \<longrightarrow> live {} db1"
    using packet_read_returns [OF assms] by blast
  let ?db = "if rc \<noteq> 0 then do_disconnect e c db1 else db1"
  have "live {} ?db" using r disconnect_live by simp
  then show ?thesis using assms(1) r(1) disconnect_live [OF live_is_served] by (simp add: loop_handle_read_def)
qed

section \<open>A round of the main loop\<close>

text \<open>The reads of a round, each of them from the state the earlier ones leave.\<close>

fun reads_ok :: "mosq_env \<Rightarrow> (ctxid \<Rightarrow> poll_events option) \<Rightarrow> ctxid list \<Rightarrow> mosquitto_db \<Rightarrow> bool" where
  "reads_ok e events [] db \<longleftrightarrow> True"
| "reads_ok e events (c # cs) db \<longleftrightarrow>
     (case events c of
        None \<Rightarrow> reads_ok e events cs db
      | Some ev \<Rightarrow> read_ok e c db \<and> (case loop_handle_read e ev c db of None \<Rightarrow> True | Some db' \<Rightarrow> reads_ok e events cs db'))"

lemma loop_clients_live:
  assumes "\<And>c db. live A db \<Longrightarrow> \<exists>db'. f c db = Some db' \<and> live A db'" and "live A db"
  shows "\<exists>db'. loop_clients f cs db = Some db' \<and> live A db'"
  using assms(2)
proof (induction cs arbitrary: db)
  case (Cons c cs)
  then show ?case using assms(1) [of db c] by auto
qed simp

lemma loop_reads_live:
  assumes "mounts_ok e" and "malloc_ok (env_malloc e)"
  shows "live {} db \<Longrightarrow> reads_ok e events cs db \<Longrightarrow>
    \<exists>db'. loop_clients (\<lambda>c db. case events c of None \<Rightarrow> Some db | Some ev \<Rightarrow> loop_handle_read e ev c db) cs db = Some db' \<and> live {} db'"
proof (induction cs arbitrary: db)
  case (Cons c cs)
  show ?case
  proof (cases "events c")
    case None
    then show ?thesis using Cons by simp
  next
    case (Some ev)
    then have "read_ok e c db" using Cons.prems(2) by simp
    then obtain db1 where r: "loop_handle_read e ev c db = Some db1" "live {} db1" using handle_read_live [OF Cons.prems(1) assms] by blast
    then have "reads_ok e events cs db1" using Cons.prems(2) Some by simp
    from Cons.IH [OF r(2) this] show ?thesis using Some r(1) by simp
  qed
qed simp

definition before_reads :: "mosq_env \<Rightarrow> int option \<Rightarrow> u32 \<Rightarrow> (ctxid \<Rightarrow> poll_events option) \<Rightarrow> mosquitto_db \<Rightarrow> mosquitto_db option" where
  "before_reads e expire retry_interval events db =
     (let db = mosquitto_free_disused_contexts e db
      in case loop_clients (loop_client e) (db_contexts_by_sock db) db of
           None \<Rightarrow> None
         | Some db \<Rightarrow>
             let db = (case expire of
                         None \<Rightarrow> db
                       | Some t \<Rightarrow> foldl (\<lambda>db c. loop_expire e t c db) db (map snd (db_contexts_by_id db)));
                 db = snd (mqtt3_db_message_timeout_check e db retry_interval)
             in Some (foldl (\<lambda>db c. case events c of None \<Rightarrow> db | Some ev \<Rightarrow> loop_handle_write e ev c db) db (db_contexts_by_sock db)))"

lemma loop_round_split:
  "loop_round e expire retry_interval events db =
     (case before_reads e expire retry_interval events db of
        None \<Rightarrow> None
      | Some db \<Rightarrow> loop_clients (\<lambda>c db. case events c of None \<Rightarrow> Some db | Some ev \<Rightarrow> loop_handle_read e ev c db) (db_contexts_by_sock db) db)"
  by (simp add: loop_round_def before_reads_def Let_def split: option.split)

lemma loop_writes_live:
  "live A db \<Longrightarrow> live A (foldl (\<lambda>db c. case events c of None \<Rightarrow> db | Some ev \<Rightarrow> loop_handle_write e ev c db) db cs)"
  by (induction cs arbitrary: db) (auto simp: loop_handle_write_live split: option.split)

lemma before_reads_live:
  assumes "live A db"
  shows "\<exists>db'. before_reads e expire retry_interval events db = Some db' \<and> live A db'"
proof -
  let ?db = "mosquitto_free_disused_contexts e db"
  have "live A ?db" by (rule free_disused_live(1) [OF assms])
  from loop_clients_live [of A "loop_client e", OF loop_client_live this] obtain db1
    where 1: "loop_clients (loop_client e) (db_contexts_by_sock ?db) ?db = Some db1" "live A db1" by blast
  let ?db2 = "case expire of None \<Rightarrow> db1 | Some t \<Rightarrow> foldl (\<lambda>db c. loop_expire e t c db) db1 (map snd (db_contexts_by_id db1))"
  have "live A ?db2" using 1(2) loop_expire_live by (auto split: option.split)
  then have "live A (snd (mqtt3_db_message_timeout_check e ?db2 retry_interval))" by (rule timeout_check_live)
  then show ?thesis using 1(1) loop_writes_live by (simp add: before_reads_def Let_def)
qed

text \<open>The reads of this round rely on nothing but \<open>read_ok\<close>.\<close>

definition round_ok :: "mosq_env \<Rightarrow> int option \<Rightarrow> u32 \<Rightarrow> (ctxid \<Rightarrow> poll_events option) \<Rightarrow> mosquitto_db \<Rightarrow> bool" where
  "round_ok e expire retry_interval events db \<longleftrightarrow> mounts_ok e \<and> malloc_ok (env_malloc e) \<and>
     (case before_reads e expire retry_interval events db of None \<Rightarrow> True | Some db \<Rightarrow> reads_ok e events (db_contexts_by_sock db) db)"

lemma loop_round_live:
  assumes "live {} db" and "round_ok e expire retry_interval events db"
  shows "\<exists>db'. loop_round e expire retry_interval events db = Some db' \<and> live {} db'"
proof -
  obtain db1 where 1: "before_reads e expire retry_interval events db = Some db1" "live {} db1" using before_reads_live [OF assms(1)] by blast
  then have "reads_ok e events (db_contexts_by_sock db1) db1" "mounts_ok e" "malloc_ok (env_malloc e)" using assms(2) by (simp_all add: round_ok_def)
  from loop_reads_live [OF this(2,3) 1(2) this(1)] show ?thesis using 1(1) by (simp add: loop_round_split)
qed

section \<open>Reachable states\<close>

text \<open>
  The broker after the start: what \<open>mqtt3_db_open\<close> leaves, with the access control lists and limits
  of the configuration.  At an address where nothing has been allocated there is no socket.
\<close>

definition broker_start :: "mosquitto_acl_user list \<Rightarrow> mosquitto_acl list \<Rightarrow> int \<Rightarrow> int \<Rightarrow> mosquitto_db" where
  "broker_start users patterns max_inflight max_queued =
     (snd (mqtt3_db_open (db_calloc\<lparr>db_contexts := \<lambda>_. context_calloc\<lparr>ctx_sock := INVALID_SOCKET\<rparr>\<rparr>)))
       \<lparr>db_acl_list := users, db_acl_patterns := patterns, db_max_inflight := max_inflight, db_max_queued := max_queued\<rparr>"

text \<open>
  A step: a connection is accepted, a round of the main loop, a message of the broker itself (\<open>$SYS\<close> or a plugin), or the
  access control lists are applied again.
\<close>

inductive broker_step :: "mosquitto_db \<Rightarrow> mosquitto_db \<Rightarrow> bool" where
  step_accept: "free_address db c \<Longrightarrow> 0 \<le> sock \<Longrightarrow>
    broker_step db (snd (mqtt3_socket_accept e c sock address net_in net_out listener max_connections db))"
| step_round: "round_ok e expire retry_interval events db \<Longrightarrow> loop_round e expire retry_interval events db = Some db' \<Longrightarrow> broker_step db db'"
| step_publish: "topic_ok topic \<Longrightarrow> qos \<in> {0, 1, 2} \<Longrightarrow>
    broker_step db (snd (mqtt3_db_messages_easy_queue e db None (Some topic) qos payload retain))"
| step_apply: "broker_step db (snd (mosquitto_security_apply e db))"

inductive_cases broker_stepE: "broker_step db db'"

inductive broker_reachable :: "mosquitto_db \<Rightarrow> bool" where
  reach_start: "\<forall>acl \<in> set patterns. acl_pattern_wf acl \<Longrightarrow> broker_reachable (broker_start users patterns max_inflight max_queued)"
| reach_step: "broker_reachable db \<Longrightarrow> broker_step db db' \<Longrightarrow> broker_reachable db'"

lemma broker_start_live:
  assumes "\<forall>acl \<in> set patterns. acl_pattern_wf acl"
  shows "live {} (broker_start users patterns max_inflight max_queued)"
proof -
  let ?db = "broker_start users patterns max_inflight max_queued"
  have c: "db_contexts ?db c = context_calloc\<lparr>ctx_sock := INVALID_SOCKET\<rparr>" for c by (simp add: broker_start_def mqtt3_db_open_def)
  have "busy ?db = {}" by (simp add: busy_def c) (simp add: context_calloc_def)
  then have "db_inv {#} ?db"
    by (simp add: db_inv_def all_queue_refs_def store_inv_def c)
      (simp add: broker_start_def mqtt3_db_open_def db_calloc_def context_calloc_def queue_ok_def queue_wf_def qos12_def)
  moreover have "forest_refs (db_subs ?db) = {#}" "list_all tree_ok (db_subs ?db)" "patterns_wf ?db" "stores_ok ?db" "topics_ok ?db"
    using assms by (simp_all add: broker_start_def mqtt3_db_open_def patterns_wf_def stores_ok_def topics_ok_def db_calloc_def store_calloc_def leaves_ok_def)
  moreover have "slots_ok ?db"
  proof -
    have "subs_at (db_subs ?db) p = []" for p by (cases p) (auto simp: broker_start_def mqtt3_db_open_def subs_below_def)
    then show ?thesis by (simp add: slots_ok_def c) (simp add: context_calloc_def used_slots_def)
  qed
  moreover have "filter_tree (db_subs ?db)" using db_open_filter_tree by (simp add: broker_start_def mqtt3_db_open_def)
  ultimately have "broker_ok ?db" by (simp add: broker_ok_def broker_inv_def retained_ok_def)
  moreover have "tables_ok ?db" by (simp add: tables_ok_def c) (simp add: broker_start_def mqtt3_db_open_def db_calloc_def context_calloc_def)
  ultimately show ?thesis by (simp add: live_def c idle_ok_def) (simp add: context_calloc_def conn_ok_def packet_ok_def idle_def)
qed

lemma step_live: "broker_step db db' \<Longrightarrow> live {} db \<Longrightarrow> live {} db'"
proof (induction rule: broker_step.induct)
  case (step_accept db c sock e address net_in net_out listener max_connections)
  then show ?case by (intro socket_accept_live) simp_all
next
  case (step_round e expire retry_interval events db db')
  then show ?case using loop_round_live by fastforce
next
  case (step_publish topic qos db e payload retain)
  then have "broker_ok (snd (mqtt3_db_messages_easy_queue e db None (Some topic) qos payload retain))"
    using broker_ok_easy_queue [OF liveD(1)] by simp
  then show ?case using live_frame [OF step_publish.prems _ frame_easy_queue] by blast
next
  case (step_apply db e)
  then show ?case by (rule security_apply_live)
qed

lemma reachable_live: "broker_reachable db \<Longrightarrow> live {} db"
  by (induction rule: broker_reachable.induct) (auto intro: broker_start_live step_live)

end
