(* ===== verification/Spec2Isabelle.thy ===== *)
theory Spec2Isabelle
  imports BB_Prelude Mosq_Types Mosq_Packet Mosq_Topic Mosq_Broker Mosq_Net Mosq_Net_In Mosq_Send Mosq_Security Mosq_Database Mosq_Refs Mosq_Subs Mosq_Tree Mosq_Route Mosq_Deliver Mosq_Release Mosq_Session Mosq_Retain Mosq_Queue Mosq_Context Mosq_Handler Mosq_Handle Mosq_Connect Mosq_Frame Mosq_Live Mosq_Free Mosq_Arrive Mosq_Serve Mosq_Takeover Mosq_Join Mosq_Reach
begin

text \<open>
  Verification of the broker of blenderbottle.
\<close>

end
